(* ===== verification/Prelude.thy ===== *)
theory Prelude
  imports Main "HOL-Library.Char_ord" "HOL-Library.List_Lexorder" "HOL-Library.Word"
    "HOL-Library.Sublist" "HOL-Library.Product_Lexorder"
begin

text \<open>
  Vocabulary shared by all components of the model.

  \<^item> C++ exceptions carrying a message are the left values of the sum type \<open>'a result\<close>.
  \<^item> A \<^verbatim>\<open>std::string\<close> is a list of 8-bit characters; \<^verbatim>\<open>operator<\<close> on it is the
    lexicographic order of \<^verbatim>\<open>unsigned char\<close> values, which is the order that the theories
    \<open>Char_ord\<close> and \<open>List_Lexorder\<close> install.
  \<^item> The character classes of \<^verbatim>\<open><cctype>\<close> are those of the default \<^verbatim>\<open>"C"\<close> locale.
  \<^item> A \<^verbatim>\<open>std::map\<close> is an association list whose keys ascend strictly; an
    \<^verbatim>\<open>std::unordered_map\<close> is an association list with distinct keys whose order no theorem
    relies on.
\<close>

named_theorems str_simps "string scanning and joining"
named_theorems alist_simps "association lists as maps"

subsection \<open>Results\<close>

type_synonym 'a result = "string + 'a"

abbreviation Throw :: "string \<Rightarrow> 'a result" where
  "Throw msg \<equiv> Inl msg"

abbreviation Return :: "'a \<Rightarrow> 'a result" where
  "Return x \<equiv> Inr x"

fun rbind :: "'a result \<Rightarrow> ('a \<Rightarrow> 'b result) \<Rightarrow> 'b result" where
  "rbind (Inl e) f = Inl e"
| "rbind (Inr x) f = f x"

lemma rbind_Inr: "rbind m f = Inr y \<longleftrightarrow> (\<exists>x. m = Inr x \<and> f x = Inr y)"
  by (cases m) simp_all

fun is_ok :: "'a result \<Rightarrow> bool" where
  "is_ok (Inl e) = False"
| "is_ok (Inr x) = True"

subsection \<open>Platforms\<close>

text \<open>The preprocessor branches on \<^verbatim>\<open>_WIN32\<close>, \<^verbatim>\<open>__linux__\<close> and \<^verbatim>\<open>__APPLE__\<close>.\<close>

datatype platform = Windows | Linux | MacOS

subsection \<open>Characters of the C locale\<close>

abbreviation ascii :: "char \<Rightarrow> nat" where
  "ascii c \<equiv> of_char c"

abbreviation chr :: "nat \<Rightarrow> char" where
  "chr n \<equiv> char_of n"

definition isdigit :: "char \<Rightarrow> bool" where
  "isdigit c \<longleftrightarrow> 48 \<le> ascii c \<and> ascii c \<le> 57"

definition isupper :: "char \<Rightarrow> bool" where
  "isupper c \<longleftrightarrow> 65 \<le> ascii c \<and> ascii c \<le> 90"

definition islower :: "char \<Rightarrow> bool" where
  "islower c \<longleftrightarrow> 97 \<le> ascii c \<and> ascii c \<le> 122"

definition isalpha :: "char \<Rightarrow> bool" where
  "isalpha c \<longleftrightarrow> isupper c \<or> islower c"

definition isalnum :: "char \<Rightarrow> bool" where
  "isalnum c \<longleftrightarrow> isalpha c \<or> isdigit c"

definition isxdigit :: "char \<Rightarrow> bool" where
  "isxdigit c \<longleftrightarrow> isdigit c \<or> (65 \<le> ascii c \<and> ascii c \<le> 70) \<or> (97 \<le> ascii c \<and> ascii c \<le> 102)"

definition isspace :: "char \<Rightarrow> bool" where
  "isspace c \<longleftrightarrow> ascii c = 32 \<or> (9 \<le> ascii c \<and> ascii c \<le> 13)"

definition tolower :: "char \<Rightarrow> char" where
  "tolower c = (if isupper c then chr (ascii c + 32) else c)"

lemmas cctype_defs = isdigit_def isupper_def islower_def isalpha_def isalnum_def isxdigit_def
  isspace_def

subsection \<open>Bytes\<close>

type_synonym byte = "8 word"

definition byte_of_char :: "char \<Rightarrow> byte" where
  "byte_of_char c = of_nat (ascii c)"

definition char_of_byte :: "byte \<Rightarrow> char" where
  "char_of_byte b = chr (unat b)"

lemma byte_char_inverse [simp]: "char_of_byte (byte_of_char c) = c"
  by (simp add: char_of_byte_def byte_of_char_def unat_of_nat of_char_mod_256 take_bit_eq_mod)

subsection \<open>Strings\<close>

text \<open>The value of a string of decimal digits, most significant first.\<close>

definition digits_val :: "string \<Rightarrow> int" where
  "digits_val s = foldl (\<lambda>v c. 10 * v + (int (ascii c) - 48)) 0 s"

text \<open>\<^verbatim>\<open>std::strtol(s, &end, 10)\<close> on a string of digits, for a \<^verbatim>\<open>long\<close> of the given
  maximum: the clamped value and whether \<^verbatim>\<open>errno\<close> becomes \<^verbatim>\<open>ERANGE\<close>.\<close>

definition strtol_digits :: "int \<Rightarrow> string \<Rightarrow> int \<times> bool" where
  "strtol_digits long_max s =
     (if digits_val s > long_max then (long_max, True) else (digits_val s, False))"

text \<open>\<^verbatim>\<open>std::to_string\<close> of a non-negative value.\<close>

fun dec_of_nat :: "nat \<Rightarrow> string" where
  "dec_of_nat n = (if n < 10 then [chr (48 + n)] else dec_of_nat (n div 10) @ [chr (48 + n mod 10)])"

declare dec_of_nat.simps [simp del]

definition INT_MAX :: int where
  "INT_MAX = 2147483647"

text \<open>Conversion to a 32-bit \<^verbatim>\<open>int\<close>.\<close>

definition int32 :: "int \<Rightarrow> int" where
  "int32 i = (i + 2 ^ 31) mod 2 ^ 32 - 2 ^ 31"

text \<open>A string between single quotes, as the messages of the sources have it.\<close>

definition squote :: "string \<Rightarrow> string" where
  "squote s = CHR 0x27 # s @ [CHR 0x27]"

text \<open>The pieces of a string between the occurrences of a delimiter; never empty.\<close>

fun split_on :: "char \<Rightarrow> string \<Rightarrow> string list" where
  "split_on d [] = [[]]"
| "split_on d (c # s) =
     (if c = d then [] # split_on d s
      else case split_on d s of [] \<Rightarrow> [[c]] | p # ps \<Rightarrow> (c # p) # ps)"

fun join_with :: "char \<Rightarrow> string list \<Rightarrow> string" where
  "join_with d [] = []"
| "join_with d [p] = p"
| "join_with d (p # q # ps) = p @ d # join_with d (q # ps)"

text \<open>\<^verbatim>\<open>std::string::find(c)\<close>: the first position, or \<^verbatim>\<open>npos\<close>.\<close>

fun find_char :: "char \<Rightarrow> string \<Rightarrow> nat option" where
  "find_char d [] = None"
| "find_char d (c # s) = (if c = d then Some 0 else map_option Suc (find_char d s))"

text \<open>\<^verbatim>\<open>s.find(pat)\<close>: the first position at which the pattern occurs.\<close>

fun find_str :: "string \<Rightarrow> string \<Rightarrow> nat option" where
  "find_str pat [] = (if pat = [] then Some 0 else None)"
| "find_str pat (c # s) =
     (if prefix pat (c # s) then Some 0 else map_option Suc (find_str pat s))"

lemma split_on_nonempty [simp]: "split_on d s \<noteq> []"
  by (induction s) (auto split: list.splits)

lemma join_split_on [str_simps, simp]: "join_with d (split_on d s) = s"
proof (induction s)
  case (Cons c s)
  obtain p ps where ps: "split_on d s = p # ps"
    by (cases "split_on d s") auto
  with Cons show ?case
    by (cases ps) auto
qed simp

lemma split_on_no_delim: "d \<notin> set p \<Longrightarrow> split_on d p = [p]"
  by (induction p) auto

lemma split_on_delim_free: "p \<in> set (split_on d s) \<Longrightarrow> d \<notin> set p"
proof (induction s arbitrary: p)
  case (Cons c s)
  then show ?case
    by (cases "split_on d s") (auto split: if_splits)
qed simp

lemma split_on_append: "d \<notin> set p \<Longrightarrow> split_on d (p @ d # s) = p # split_on d s"
  by (induction p) auto

lemma split_on_join:
  "ps \<noteq> [] \<Longrightarrow> \<forall>p \<in> set ps. d \<notin> set p \<Longrightarrow> split_on d (join_with d ps) = ps"
  by (induction d ps rule: join_with.induct) (auto simp: split_on_no_delim split_on_append)

lemma find_char_None [str_simps]: "find_char d s = None \<longleftrightarrow> d \<notin> set s"
  by (induction s) auto

lemma find_char_Some:
  "find_char d s = Some i \<Longrightarrow> i < length s \<and> s ! i = d \<and> d \<notin> set (take i s)"
  by (induction s arbitrary: i) (auto split: if_splits)

lemma find_char_split:
  "find_char d s = Some i \<Longrightarrow> s = take i s @ d # drop (Suc i) s"
  by (metis find_char_Some id_take_nth_drop)

lemma find_char_append:
  "d \<notin> set p \<Longrightarrow> find_char d (p @ d # s) = Some (length p)"
  by (induction p) auto

lemma digits_val_Nil [simp]: "digits_val [] = 0"
  by (simp add: digits_val_def)

lemma digits_val_snoc [simp]: "digits_val (s @ [c]) = 10 * digits_val s + (int (ascii c) - 48)"
  by (simp add: digits_val_def)

lemma dec_of_nat_nonempty [simp]: "dec_of_nat n \<noteq> []"
  by (subst dec_of_nat.simps) simp

lemma digits_val_dec_of_nat [simp]: "digits_val (dec_of_nat n) = int n"
proof (induction n rule: dec_of_nat.induct)
  case (1 n)
  show ?case
  proof (cases "n < 10")
    case True
    then show ?thesis
      by (subst dec_of_nat.simps) (simp add: digits_val_def)
  next
    case False
    then show ?thesis
      using 1 by (subst dec_of_nat.simps) (simp add: zdiv_int zmod_int)
  qed
qed

lemma isdigit_dec_of_nat: "list_all isdigit (dec_of_nat n)"
proof (induction n rule: dec_of_nat.induct)
  case (1 n)
  then show ?case
    by (subst dec_of_nat.simps) (auto simp: isdigit_def list_all_iff)
qed

lemma digit_value: "isdigit c \<Longrightarrow> 0 \<le> (int (ascii c) - 48) \<and> (int (ascii c) - 48) \<le> 9"
  by (simp add: isdigit_def)

lemma digits_val_nonneg: "list_all isdigit s \<Longrightarrow> 0 \<le> digits_val s"
proof (induction s rule: rev_induct)
  case (snoc c s)
  with digit_value [of c] show ?case by simp
qed simp

lemma ascii_zero: "char_of (48::nat) = CHR ''0''"
  by code_simp

lemma digits_val_pos:
  "list_all isdigit s \<Longrightarrow> s \<noteq> [] \<Longrightarrow> hd s \<noteq> CHR ''0'' \<Longrightarrow> 0 < digits_val s"
proof (induction s rule: rev_induct)
  case (snoc c s)
  have c: "0 \<le> (int (ascii c) - 48)"
    using snoc.prems digit_value by auto
  show ?case
  proof (cases "s = []")
    case True
    then have "ascii c \<noteq> 48"
      using snoc.prems by (metis append_Nil char_of_char list.sel(1) ascii_zero)
    with True snoc.prems show ?thesis
      by (simp add: digits_val_def isdigit_def)
  next
    case False
    with snoc c show ?thesis by auto
  qed
qed simp

text \<open>Printing the value of a digit string without a leading zero gives the string back.\<close>

lemma dec_of_nat_step:
  "0 < n \<Longrightarrow> d < 10 \<Longrightarrow> dec_of_nat (10 * n + d) = dec_of_nat n @ [chr (48 + d)]"
  by (subst dec_of_nat.simps) simp

lemma dec_of_nat_digits_val:
  "list_all isdigit s \<Longrightarrow> s \<noteq> [] \<Longrightarrow> (length s = 1 \<or> hd s \<noteq> CHR ''0'') \<Longrightarrow>
     dec_of_nat (nat (digits_val s)) = s"
proof (induction s rule: rev_induct)
  case (snoc c s)
  define d where "d = ascii c - 48"
  have d: "d < 10" "48 + d = ascii c" "(int (ascii c) - 48) = int d"
    using snoc.prems by (auto simp: isdigit_def d_def)
  have chr_d: "chr (48 + d) = c"
    by (simp only: d(2) char_of_char)
  show ?case
  proof (cases "s = []")
    case True
    with d chr_d show ?thesis
      by (subst dec_of_nat.simps) (simp add: digits_val_def)
  next
    case False
    with snoc have IH: "dec_of_nat (nat (digits_val s)) = s" and pos: "0 < digits_val s"
      using digits_val_pos [of s] by (auto simp: Suc_le_eq hd_append split: if_splits)
    have "nat (digits_val (s @ [c])) = 10 * nat (digits_val s) + d"
      using pos d(3) by simp
    then show ?thesis
      using dec_of_nat_step [of "nat (digits_val s)" d] pos d chr_d IH by simp
  qed
qed simp

subsection \<open>Three-way comparison\<close>

definition cmp3 :: "'a::linorder \<Rightarrow> 'a \<Rightarrow> int" where
  "cmp3 x y = (if x < y then -1 else if x = y then 0 else 1)"

lemma cmp3_refl [simp]: "cmp3 x x = 0"
  by (simp add: cmp3_def)

lemma cmp3_swap: "cmp3 y x = - cmp3 x y"
  by (auto simp: cmp3_def)

lemma cmp3_le: "cmp3 x y \<le> 0 \<longleftrightarrow> x \<le> y"
  by (auto simp: cmp3_def)

lemma cmp3_Pair: "cmp3 (a, b) (c, d) = (if a \<noteq> c then (if a < c then -1 else 1) else cmp3 b d)"
  by (auto simp: cmp3_def less_prod_def')

lemma cmp3_Cons: "cmp3 (a # b) (c # d) = (if a \<noteq> c then cmp3 a c else cmp3 b d)"
  by (auto simp: cmp3_def)

lemma cmp3_length_prefix:
  "cmp3 [] [] = 0" "cmp3 [] (c # d) = -1" "cmp3 (c # d) [] = 1"
  by (auto simp: cmp3_def)

end
