(* ===== verification/Semver.thy ===== *)
theory Semver
  imports Prelude
begin

text \<open>
  Semantic version parsing and precedence, \<^verbatim>\<open>src/util/semver.cc\<close>.

  The functions that throw \<^verbatim>\<open>std::invalid_argument\<close> return a \<open>result\<close> carrying the message.
  \<^verbatim>\<open>long\<close> is 64 bits wide on Linux and macOS and 32 bits on Windows, so the model takes
  the data model as an argument.  The precedence of a version is the rank \<open>precedence\<close>
  in a lexicographic order; \<open>semver_cmp\<close> is shown to compute the comparison of ranks.
\<close>

datatype data_model = LP64 | LLP64

fun long_max :: "data_model \<Rightarrow> int" where
  "long_max LP64 = 2 ^ 63 - 1"
| "long_max LLP64 = 2 ^ 31 - 1"

record semver_version =
  major :: int
  minor :: int
  patch :: int
  prerelease :: string
  build :: string

subsection \<open>Parsing\<close>

definition is_valid_identifier :: "string \<Rightarrow> bool \<Rightarrow> bool" where
  "is_valid_identifier ident allowDash \<longleftrightarrow>
     ident \<noteq> [] \<and> list_all (\<lambda>c. isalnum c \<or> (allowDash \<and> c = CHR ''-'')) ident"

definition has_leading_zero :: "string \<Rightarrow> bool" where
  "has_leading_zero s \<longleftrightarrow> length s > 1 \<and> s ! 0 = CHR ''0''"

definition parse_int :: "data_model \<Rightarrow> string \<Rightarrow> int result" where
  "parse_int dm s =
     (if s = [] \<or> \<not> list_all isdigit s then Throw (''Invalid numeric part: '' @ s)
      else if has_leading_zero s
        then Throw (''Leading zeros not allowed in numeric parts: '' @ s)
      else let (val, erange) = strtol_digits (long_max dm) s in
        if erange \<or> val > INT_MAX
          then Throw (''Numeric part out of range or invalid: '' @ s)
        else Return val)"

definition split_dots :: "string \<Rightarrow> string list" where
  "split_dots s = split_on (CHR ''.'') s"

fun validate_parts :: "string \<Rightarrow> string \<Rightarrow> string list \<Rightarrow> unit result" where
  "validate_parts str ctx [] = Return ()"
| "validate_parts str ctx (part # parts) =
     (if part = [] then Throw (''Empty identifier in '' @ ctx @ '': '' @ str)
      else if \<not> is_valid_identifier part True
        then Throw (''Invalid characters in '' @ ctx @ '' identifier: '' @ part)
      else if list_all isdigit part \<and> has_leading_zero part \<and> ctx = ''prerelease''
        then Throw (''Leading zeros not allowed in numeric prerelease identifier: '' @ part)
      else validate_parts str ctx parts)"

definition validate :: "string \<Rightarrow> string \<Rightarrow> unit result" where
  "validate str ctx =
     (if str = [] then Throw (''Empty '' @ ctx @ '' not allowed'')
      else validate_parts str ctx (split_dots str))"

text \<open>The two extraction blocks of \<^verbatim>\<open>parse\<close>: cut the string at the first delimiter and
  validate what follows it.\<close>

definition extract_suffix :: "char \<Rightarrow> string \<Rightarrow> string \<Rightarrow> string \<Rightarrow> (string \<times> string) result" where
  "extract_suffix d empty_msg ctx core =
     (case find_char d core of
        None \<Rightarrow> Return (core, [])
      | Some pos \<Rightarrow>
          if pos = length core - 1 then Throw empty_msg
          else rbind (validate (drop (pos + 1) core) ctx)
                 (\<lambda>_. Return (take pos core, drop (pos + 1) core)))"

definition semver_parse :: "data_model \<Rightarrow> string \<Rightarrow> semver_version result" where
  "semver_parse dm version =
     (if version = [] then Throw ''Empty version string''
      else if hd version = CHR ''.'' \<or> last version = CHR ''.''
        then Throw (''Version cannot start or end with '' @ squote ''.'')
      else rbind (extract_suffix (CHR ''+'') (''Empty build metadata after '' @ squote ''+'')
                    ''build metadata'' version) (\<lambda>(core1, bld).
           rbind (extract_suffix (CHR ''-'') (''Empty prerelease after '' @ squote ''-'')
                    ''prerelease'' core1) (\<lambda>(core, pre).
             case split_dots core of
               [p0, p1, p2] \<Rightarrow>
                 rbind (parse_int dm p0) (\<lambda>maj.
                 rbind (parse_int dm p1) (\<lambda>min.
                 rbind (parse_int dm p2) (\<lambda>pat.
                   if maj < 0 \<or> min < 0 \<or> pat < 0
                     then Throw ''Version numbers cannot be negative''
                   else Return \<lparr>major = maj, minor = min, patch = pat,
                                prerelease = pre, build = bld\<rparr>)))
             | _ \<Rightarrow> Throw ''Semver requires exactly 3 numeric parts (major.minor.patch)'')))"

subsection \<open>Precedence\<close>

text \<open>One round of the loop of \<^verbatim>\<open>cmp_pre_release\<close>; 0 lets the loop continue.\<close>

definition cmp_identifier :: "data_model \<Rightarrow> string \<Rightarrow> string \<Rightarrow> int result" where
  "cmp_identifier dm p1 p2 =
     (if p1 = [] \<or> p2 = [] then Throw ''Empty prerelease identifier encountered''
      else let p1IsNumeric = list_all isdigit p1; p2IsNumeric = list_all isdigit p2 in
        if p1IsNumeric \<and> p2IsNumeric then
          (let (n1, e1) = strtol_digits (long_max dm) p1;
               (n2, e2) = strtol_digits (long_max dm) p2 in
           if e1 \<or> e2 \<or> n1 > INT_MAX \<or> n2 > INT_MAX
             then Throw ''Invalid numeric prerelease identifier''
           else Return (if n1 \<noteq> n2 then (if n1 < n2 then -1 else 1) else 0))
        else if p1IsNumeric then Return (-1)
        else if p2IsNumeric then Return 1
        else Return (if p1 \<noteq> p2 then (if p1 < p2 then -1 else 1) else 0))"

fun cmp_identifiers :: "data_model \<Rightarrow> string list \<Rightarrow> string list \<Rightarrow> int result" where
  "cmp_identifiers dm (p1 # ps1) (p2 # ps2) =
     rbind (cmp_identifier dm p1 p2)
       (\<lambda>r. if r \<noteq> 0 then Return r else cmp_identifiers dm ps1 ps2)"
| "cmp_identifiers dm _ _ = Return 0"

definition cmp_sizes :: "string list \<Rightarrow> string list \<Rightarrow> int" where
  "cmp_sizes parts1 parts2 =
     (if length parts1 \<noteq> length parts2 then (if length parts1 < length parts2 then -1 else 1)
      else 0)"

definition cmp_pre_release :: "data_model \<Rightarrow> string \<Rightarrow> string \<Rightarrow> int result" where
  "cmp_pre_release dm pre1 pre2 =
     (if pre1 = [] \<and> pre2 = [] then Return 0
      else if pre1 = [] then Return 1
      else if pre2 = [] then Return (-1)
      else let parts1 = split_dots pre1; parts2 = split_dots pre2 in
        rbind (cmp_identifiers dm parts1 parts2)
          (\<lambda>r. if r \<noteq> 0 then Return r else Return (cmp_sizes parts1 parts2)))"

definition semver_cmp :: "data_model \<Rightarrow> string \<Rightarrow> string \<Rightarrow> int result" where
  "semver_cmp dm v1 v2 =
     (case rbind (semver_parse dm v1) (\<lambda>ver1. rbind (semver_parse dm v2) (\<lambda>ver2.
        if major ver1 \<noteq> major ver2 then Return (if major ver1 < major ver2 then -1 else 1)
        else if minor ver1 \<noteq> minor ver2 then Return (if minor ver1 < minor ver2 then -1 else 1)
        else if patch ver1 \<noteq> patch ver2 then Return (if patch ver1 < patch ver2 then -1 else 1)
        else cmp_pre_release dm (prerelease ver1) (prerelease ver2))) of
        Inl _ \<Rightarrow> Throw ''Invalid semver format''
      | Inr r \<Rightarrow> Return r)"

subsection \<open>The order the comparison implements\<close>

text \<open>Numeric identifiers rank below alphanumeric ones, numerically among themselves; a version
  without a prerelease ranks above every prerelease of the same core; build metadata has no
  rank.\<close>

definition identifier_rank :: "string \<Rightarrow> nat \<times> int \<times> string" where
  "identifier_rank p = (if list_all isdigit p then (0, digits_val p, []) else (1, 0, p))"

definition precedence :: "semver_version \<Rightarrow> int \<times> int \<times> int \<times> nat \<times> (nat \<times> int \<times> string) list" where
  "precedence v = (major v, minor v, patch v,
     if prerelease v = [] then (1, []) else (0, map identifier_rank (split_dots (prerelease v))))"

definition identifier_fits :: "string \<Rightarrow> bool" where
  "identifier_fits p \<longleftrightarrow> (list_all isdigit p \<longrightarrow> digits_val p \<le> INT_MAX)"

definition comparable :: "data_model \<Rightarrow> string \<Rightarrow> bool" where
  "comparable dm s \<longleftrightarrow> (case semver_parse dm s of
     Inl _ \<Rightarrow> False | Inr v \<Rightarrow> list_all identifier_fits (split_dots (prerelease v)))"

text \<open>What a parsed version prints as.\<close>

definition render :: "semver_version \<Rightarrow> string" where
  "render v = dec_of_nat (nat (major v)) @ ''.'' @ dec_of_nat (nat (minor v)) @ ''.'' @
     dec_of_nat (nat (patch v)) @
     (if prerelease v = [] then [] else CHR ''-'' # prerelease v) @
     (if build v = [] then [] else CHR ''+'' # build v)"

subsection \<open>Lemmas\<close>

lemma INT_MAX_le_long_max: "INT_MAX \<le> long_max dm"
  by (cases dm) (auto simp: INT_MAX_def)

lemma strtol_fits: "digits_val p \<le> INT_MAX \<Longrightarrow> strtol_digits (long_max dm) p = (digits_val p, False)"
  using INT_MAX_le_long_max [of dm] by (simp add: strtol_digits_def)

lemma cmp_identifier_rank:
  assumes "p1 \<noteq> []" "p2 \<noteq> []" "identifier_fits p1" "identifier_fits p2"
  shows "cmp_identifier dm p1 p2 = Return (cmp3 (identifier_rank p1) (identifier_rank p2))"
  using assms
  by (auto simp: cmp_identifier_def identifier_rank_def cmp3_Pair identifier_fits_def strtol_fits
      cmp3_def not_le)

lemma cmp_sizes_Cons: "cmp_sizes (p # ps) (q # qs) = cmp_sizes ps qs"
  by (simp add: cmp_sizes_def)

lemma cmp_identifiers_rank:
  assumes "\<forall>p \<in> set ps1 \<union> set ps2. p \<noteq> [] \<and> identifier_fits p"
  shows "rbind (cmp_identifiers dm ps1 ps2)
      (\<lambda>r. if r \<noteq> 0 then Return r else Return (cmp_sizes ps1 ps2))
    = Return (cmp3 (map identifier_rank ps1) (map identifier_rank ps2))"
  using assms
proof (induction ps1 ps2 rule: list_induct2')
  case (4 p1 ps1 p2 ps2)
  have step: "cmp_identifier dm p1 p2 = Return (cmp3 (identifier_rank p1) (identifier_rank p2))"
    using 4 by (intro cmp_identifier_rank) auto
  show ?case
  proof (cases "identifier_rank p1 = identifier_rank p2")
    case True
    with 4 step show ?thesis by (simp add: cmp3_Cons cmp_sizes_Cons cong: if_cong)
  next
    case False
    then have "cmp3 (identifier_rank p1) (identifier_rank p2) \<noteq> 0"
      by (auto simp: cmp3_def)
    with False step show ?thesis by (simp add: cmp3_Cons)
  qed
qed (simp_all add: cmp3_length_prefix cmp_sizes_def)

lemma validate_parts_ok:
  "validate_parts str ctx ps = Inr u \<Longrightarrow> p \<in> set ps \<Longrightarrow> p \<noteq> []"
  by (induction str ctx ps rule: validate_parts.induct) (auto split: if_splits)

lemma validate_ok: "validate str ctx = Inr u \<Longrightarrow> str \<noteq> [] \<and> [] \<notin> set (split_dots str)"
  by (auto simp: validate_def split: if_splits dest: validate_parts_ok)

lemma extract_suffix_ok:
  "extract_suffix d msg ctx s = Inr (core, suf) \<Longrightarrow>
     s = core @ (if suf = [] then [] else d # suf) \<and> (suf \<noteq> [] \<longrightarrow> [] \<notin> set (split_dots suf))"
  by (auto simp: extract_suffix_def rbind_Inr split: option.splits if_splits
      dest: find_char_split validate_ok)

lemma parse_int_ok:
  "parse_int dm s = Inr n \<Longrightarrow>
     0 \<le> n \<and> n \<le> INT_MAX \<and> dec_of_nat (nat n) = s"
  by (cases s) (auto simp: parse_int_def strtol_digits_def has_leading_zero_def
      intro!: dec_of_nat_digits_val digits_val_nonneg split: if_splits prod.splits)

lemma split_dots_3: "split_dots s = [a, b, c] \<Longrightarrow> s = a @ ''.'' @ b @ ''.'' @ c"
  by (metis append_Cons append_Nil join_split_on join_with.simps(2,3) split_dots_def)

lemma case_list3_Inr:
  "(case xs of [a, b, c] \<Rightarrow> f a b c | _ \<Rightarrow> Inl e) = Inr y \<longleftrightarrow>
     (\<exists>a b c. xs = [a, b, c] \<and> f a b c = Inr y)"
  by (auto split: list.splits)

lemma if_Inl_Inr: "(if P then Inl e else m) = Inr y \<longleftrightarrow> \<not> P \<and> m = Inr y"
  by simp

lemma semver_parse_ok:
  assumes "semver_parse dm s = Inr v"
  shows "render v = s" "prerelease v \<noteq> [] \<longrightarrow> [] \<notin> set (split_dots (prerelease v))"
    "0 \<le> major v \<and> major v \<le> INT_MAX" "0 \<le> minor v \<and> minor v \<le> INT_MAX"
    "0 \<le> patch v \<and> patch v \<le> INT_MAX"
proof -
  from assms obtain m1 m2 core1 core a b c where
    e: "extract_suffix (CHR ''+'') m1 ''build metadata'' s = Inr (core1, build v)"
      "extract_suffix (CHR ''-'') m2 ''prerelease'' core1 = Inr (core, prerelease v)"
      "split_dots core = [a, b, c]"
      "parse_int dm a = Inr (major v)" "parse_int dm b = Inr (minor v)"
      "parse_int dm c = Inr (patch v)"
    unfolding semver_parse_def rbind_Inr if_Inl_Inr case_prod_unfold case_list3_Inr
    by (clarsimp simp: if_Inl_Inr)
  note ok = extract_suffix_ok [OF e(1)] extract_suffix_ok [OF e(2)] split_dots_3 [OF e(3)]
    parse_int_ok [OF e(4)] parse_int_ok [OF e(5)] parse_int_ok [OF e(6)]
  show "render v = s"
    using ok by (simp add: render_def)
  show "prerelease v \<noteq> [] \<longrightarrow> [] \<notin> set (split_dots (prerelease v))"
    "0 \<le> major v \<and> major v \<le> INT_MAX" "0 \<le> minor v \<and> minor v \<le> INT_MAX"
    "0 \<le> patch v \<and> patch v \<le> INT_MAX"
    using ok by simp_all
qed

lemma cmp_pre_release_rank:
  assumes "pre1 \<noteq> [] \<longrightarrow> [] \<notin> set (split_dots pre1)" "pre2 \<noteq> [] \<longrightarrow> [] \<notin> set (split_dots pre2)"
    "list_all identifier_fits (split_dots pre1)" "list_all identifier_fits (split_dots pre2)"
  shows "cmp_pre_release dm pre1 pre2 = Return
     (cmp3 (if pre1 = [] then (1::nat, []) else (0, map identifier_rank (split_dots pre1)))
           (if pre2 = [] then (1, []) else (0, map identifier_rank (split_dots pre2))))"
proof (cases "pre1 = [] \<or> pre2 = []")
  case True
  then show ?thesis
    by (auto simp: cmp_pre_release_def cmp3_Pair)
next
  case False
  then have "\<forall>p \<in> set (split_dots pre1) \<union> set (split_dots pre2). p \<noteq> [] \<and> identifier_fits p"
    using assms by (auto simp: list_all_iff)
  from cmp_identifiers_rank [OF this, of dm] False show ?thesis
    by (simp add: cmp_pre_release_def cmp3_Pair Let_def)
qed

subsection \<open>Properties\<close>

text \<open>C21: for any two version strings that parse and whose numeric prerelease identifiers fit an
  \<^verbatim>\<open>int\<close>, \<^verbatim>\<open>semver::cmp\<close> returns without throwing, and returns the three-way comparison
  of their precedence ranks in one linear order: core numbers first, a release above its
  prereleases, identifiers left to right (numeric below alphanumeric), fewer identifiers
  first, build metadata ignored.\<close>

theorem semver_cmp_precedence:
  assumes "semver_parse dm v1 = Return r1" "semver_parse dm v2 = Return r2"
    and "comparable dm v1" "comparable dm v2"
  shows "semver_cmp dm v1 v2 = Return (cmp3 (precedence r1) (precedence r2))"
  using assms semver_parse_ok(2) [OF assms(1)] semver_parse_ok(2) [OF assms(2)]
  by (simp add: semver_cmp_def comparable_def cmp_pre_release_rank precedence_def cmp3_Pair)

theorem semver_cmp_precedence_witness:
  "semver_cmp LP64 ''1.0.0-alpha.2+b1'' ''1.0.0-alpha.10'' = Return (-1)"
proof -
  have p: "semver_parse LP64 ''1.0.0-alpha.2+b1'' = Return
      \<lparr>major = 1, minor = 0, patch = 0, prerelease = ''alpha.2'', build = ''b1''\<rparr>"
    "semver_parse LP64 ''1.0.0-alpha.10'' = Return
      \<lparr>major = 1, minor = 0, patch = 0, prerelease = ''alpha.10'', build = []\<rparr>"
    by code_simp+
  have c: "comparable LP64 ''1.0.0-alpha.2+b1''" "comparable LP64 ''1.0.0-alpha.10''"
    by code_simp+
  have r: "cmp3 (precedence \<lparr>major = 1, minor = 0, patch = 0, prerelease = ''alpha.2'', build = ''b1''\<rparr>)
      (precedence \<lparr>major = 1, minor = 0, patch = 0, prerelease = ''alpha.10'', build = []\<rparr>) = -1"
    by code_simp
  show ?thesis
    using semver_cmp_precedence [OF p c] r by simp
qed

text \<open>C29: parsing loses nothing and bounds the numbers: printing a parsed version gives back
  exactly the string that was parsed, and its three numbers are non-negative \<^verbatim>\<open>int\<close> values.\<close>

theorem semver_parse_roundtrip:
  assumes "semver_parse dm s = Return v"
  shows "render v = s \<and> major v \<in> {0..INT_MAX} \<and> minor v \<in> {0..INT_MAX} \<and>
     patch v \<in> {0..INT_MAX}"
  using semver_parse_ok [OF assms] by simp

theorem semver_parse_roundtrip_witness:
  "render \<lparr>major = 10, minor = 2, patch = 33, prerelease = ''rc.1'', build = ''x-7''\<rparr>
     = ''10.2.33-rc.1+x-7''"
proof -
  have "semver_parse LLP64 ''10.2.33-rc.1+x-7'' = Return
      \<lparr>major = 10, minor = 2, patch = 33, prerelease = ''rc.1'', build = ''x-7''\<rparr>"
    by code_simp
  from semver_parse_roundtrip [OF this] show ?thesis by simp
qed

text \<open>a string that does not parse makes every comparison with it throw the one documented
  error, and so does a numeric prerelease identifier above \<^verbatim>\<open>INT_MAX\<close> that has to be compared.\<close>

theorem semver_cmp_errors:
  "(\<not> is_ok (semver_parse dm v1) \<or> \<not> is_ok (semver_parse dm v2) \<longrightarrow>
      semver_cmp dm v1 v2 = Throw ''Invalid semver format'') \<and>
   (semver_parse dm v = Return r \<longrightarrow> split_dots (prerelease r) = p # ps \<longrightarrow>
      \<not> identifier_fits p \<longrightarrow> semver_cmp dm v v = Throw ''Invalid semver format'')"
proof (intro conjI impI)
  assume "\<not> is_ok (semver_parse dm v1) \<or> \<not> is_ok (semver_parse dm v2)"
  then show "semver_cmp dm v1 v2 = Throw ''Invalid semver format''"
    by (cases "semver_parse dm v1"; cases "semver_parse dm v2") (auto simp: semver_cmp_def)
next
  assume a: "semver_parse dm v = Return r" "split_dots (prerelease r) = p # ps" "\<not> identifier_fits p"
  have "prerelease r \<noteq> []"
    using a(2,3) by (auto simp: split_dots_def identifier_fits_def INT_MAX_def)
  with a show "semver_cmp dm v v = Throw ''Invalid semver format''"
    by (auto simp: semver_cmp_def cmp_pre_release_def cmp_identifier_def identifier_fits_def
        strtol_digits_def)
qed

theorem semver_cmp_errors_witness:
  "semver_cmp LLP64 ''1.0'' ''1.0.0'' = Throw ''Invalid semver format'' \<and>
   semver_cmp LP64 ''1.0.0-2147483648'' ''1.0.0-2147483648'' = Throw ''Invalid semver format''"
proof -
  have p: "semver_parse LP64 ''1.0.0-2147483648'' = Return
      \<lparr>major = 1, minor = 0, patch = 0, prerelease = ''2147483648'', build = []\<rparr>"
    "split_dots ''2147483648'' = [''2147483648'']" "\<not> identifier_fits ''2147483648''"
    "\<not> is_ok (semver_parse LLP64 ''1.0'')"
    by code_simp+
  show ?thesis
    using semver_cmp_errors [where dm = LLP64 and ?v1.0 = "''1.0''" and ?v2.0 = "''1.0.0''"]
      semver_cmp_errors [where dm = LP64 and v = "''1.0.0-2147483648''"] p
    by simp
qed

end
