(* ===== verification/Base64.thy ===== *)
theory Base64
  imports Prelude
begin

unbundle bit_operations_syntax

text \<open>
  The base64 routines of \<^verbatim>\<open>include/cloude/encoding.h\<close> (three functions on strings and
  character vectors) and of \<^verbatim>\<open>system/crypto.cc\<close> (two functions on byte arrays).  Bytes are
  \<open>8 word\<close>, the accumulators keep their 32 bits: nothing ever clears them, so the older
  digits are shifted out at the top, and the theorems show that the bits read are never
  touched by that.
\<close>

definition base64_chars :: string where
  "base64_chars = ''ABCDEFGHIJKLMNOPQRSTUVWXYZ'' @ ''abcdefghijklmnopqrstuvwxyz'' @ ''0123456789+/''"

text \<open>The digit for the low six bits of a word.\<close>

definition b64_digit :: "32 word \<Rightarrow> char" where
  "b64_digit w = base64_chars ! unat (w AND 0x3F)"

subsection \<open>system/crypto.cc\<close>

text \<open>\<^verbatim>\<open>kB64Inv\<close>, 16 entries a row; the upper half of the table is constantly -1.\<close>

definition kB64Inv :: "int list" where
  "kB64Inv =
    [-1,-1,-1,-1,-1,-1,-1,-1,-1,-1,-1,-1,-1,-1,-1,-1,
     -1,-1,-1,-1,-1,-1,-1,-1,-1,-1,-1,-1,-1,-1,-1,-1,
     -1,-1,-1,-1,-1,-1,-1,-1,-1,-1,-1,62,-1,-1,-1,63,
     52,53,54,55,56,57,58,59,60,61,-1,-1,-1,-1,-1,-1,
     -1, 0, 1, 2, 3, 4, 5, 6, 7, 8, 9,10,11,12,13,14,
     15,16,17,18,19,20,21,22,23,24,25,-1,-1,-1,-1,-1,
     -1,26,27,28,29,30,31,32,33,34,35,36,37,38,39,40,
     41,42,43,44,45,46,47,48,49,50,51,-1,-1,-1,-1,-1] @ replicate 128 (-1)"

fun base64_encode :: "byte list \<Rightarrow> string" where
  "base64_encode [] = []"
| "base64_encode (d0 # ds) =
     (let n0 = push_bit 16 (ucast d0 :: 32 word);
          n1 = (case ds of [] \<Rightarrow> n0 | d1 # _ \<Rightarrow> n0 OR push_bit 8 (ucast d1));
          n = (case ds of d1 # d2 # _ \<Rightarrow> n1 OR ucast d2 | _ \<Rightarrow> n1) in
      [b64_digit (drop_bit 18 n),
       b64_digit (drop_bit 12 n),
       if 1 \<le> length ds then b64_digit (drop_bit 6 n) else CHR ''='',
       if 2 \<le> length ds then b64_digit n else CHR ''='']
      @ base64_encode (drop 2 ds))"

fun base64_decode_loop :: "32 word \<Rightarrow> int \<Rightarrow> string \<Rightarrow> byte list" where
  "base64_decode_loop bits bit_count [] = []"
| "base64_decode_loop bits bit_count (c # s) =
     (if c = CHR ''='' then []
      else let v = kB64Inv ! ascii c in
        if v < 0 then base64_decode_loop bits bit_count s
        else let bits' = push_bit 6 bits OR word_of_int v; bit_count' = bit_count + 6 in
          if bit_count' \<ge> 8
          then ucast (drop_bit (nat (bit_count' - 8)) bits' AND 0xFF)
                 # base64_decode_loop bits' (bit_count' - 8) s
          else base64_decode_loop bits' bit_count' s)"

definition base64_decode :: "string \<Rightarrow> byte list" where
  "base64_decode s = base64_decode_loop 0 0 s"

subsection \<open>include/cloude/encoding.h\<close>

text \<open>The table \<^verbatim>\<open>T\<close> of the decoder.\<close>

definition base64_T :: "char \<Rightarrow> int" where
  "base64_T c = (case find_char c base64_chars of None \<Rightarrow> -1 | Some i \<Rightarrow> int i)"

fun Base64Decode_loop :: "32 word \<Rightarrow> int \<Rightarrow> string \<Rightarrow> string" where
  "Base64Decode_loop val valb [] = []"
| "Base64Decode_loop val valb (c # s) =
     (if base64_T c = -1 then []
      else let val' = push_bit 6 val + word_of_int (base64_T c); valb' = valb + 6 in
        if valb' \<ge> 0
        then char_of_byte (ucast (signed_drop_bit (nat valb') val' AND 0xFF))
               # Base64Decode_loop val' (valb' - 8) s
        else Base64Decode_loop val' valb' s)"

definition Base64Decode :: "string \<Rightarrow> string" where
  "Base64Decode s = Base64Decode_loop 0 (-8) s"

text \<open>\<^verbatim>\<open>Base64Encode(const std::vector<char>&)\<close>: the four digits of \<^verbatim>\<open>char_array_3\<close>,
  computed in eight-bit cells.\<close>

definition char_array_4 :: "byte \<Rightarrow> byte \<Rightarrow> byte \<Rightarrow> byte list" where
  "char_array_4 a0 a1 a2 =
     [drop_bit 2 (a0 AND 0xFC),
      push_bit 4 (a0 AND 0x03) + drop_bit 4 (a1 AND 0xF0),
      push_bit 2 (a1 AND 0x0F) + drop_bit 6 (a2 AND 0xC0),
      a2 AND 0x3F]"

text \<open>The loop, with the filled cells of \<^verbatim>\<open>char_array_3\<close> in \<open>buf\<close>; the last clause is the
  block after the loop.\<close>

fun Base64Encode_vector_loop :: "byte list \<Rightarrow> byte list \<Rightarrow> string" where
  "Base64Encode_vector_loop buf (d # ds) =
     (case buf @ [d] of
        [a0, a1, a2] \<Rightarrow> map (\<lambda>b. base64_chars ! unat b) (char_array_4 a0 a1 a2)
                          @ Base64Encode_vector_loop [] ds
      | buf' \<Rightarrow> Base64Encode_vector_loop buf' ds)"
| "Base64Encode_vector_loop buf [] =
     (let i = length buf; arr = buf @ replicate (3 - i) 0 in
      if i \<noteq> 0
      then map (\<lambda>b. base64_chars ! unat b) (take (i + 1) (char_array_4 (arr ! 0) (arr ! 1) (arr ! 2)))
             @ replicate (3 - i) (CHR ''='')
      else [])"

definition Base64Encode_vector :: "byte list \<Rightarrow> string" where
  "Base64Encode_vector data = Base64Encode_vector_loop [] data"

text \<open>\<^verbatim>\<open>Base64Encode(const std::string&)\<close>: the inner loop emits a digit while six bits are
  left and returns the remaining \<^verbatim>\<open>valb\<close>.\<close>

function Base64Encode_emit :: "32 word \<Rightarrow> int \<Rightarrow> string \<times> int" where
  "Base64Encode_emit val valb =
     (if valb \<ge> 0
      then let (out, valb') = Base64Encode_emit val (valb - 6) in
           (b64_digit (signed_drop_bit (nat valb) val) # out, valb')
      else ([], valb))"
  by auto
termination
  by (relation "measure (\<lambda>(val, valb). nat (valb + 6))") auto

fun Base64Encode_loop :: "32 word \<Rightarrow> int \<Rightarrow> string \<Rightarrow> string" where
  "Base64Encode_loop val valb [] =
     (if valb > -6 then [b64_digit (signed_drop_bit (nat (valb + 8)) (push_bit 8 val))] else [])"
| "Base64Encode_loop val valb (c # s) =
     (let val' = push_bit 8 val + of_nat (ascii c);
          (out, valb') = Base64Encode_emit val' (valb + 8) in
      out @ Base64Encode_loop val' valb' s)"

definition pad_to_4 :: "string \<Rightarrow> string" where
  "pad_to_4 out = out @ replicate ((4 - length out mod 4) mod 4) (CHR ''='')"

definition Base64Encode :: "string \<Rightarrow> string" where
  "Base64Encode s = pad_to_4 (Base64Encode_loop 0 (-6) s)"

declare Base64Encode_emit.simps [simp del]

text \<open>\<^verbatim>\<open>utils.base64_encode\<close> of the Lua host repeats the vector version on its argument.\<close>

definition Lua_Base64Encode :: "string \<Rightarrow> string" where
  "Lua_Base64Encode input = Base64Encode_vector_loop [] (map byte_of_char input)"

subsection \<open>Lemmas\<close>

lemma kB64Inv_digit_all:
  "list_all (\<lambda>i. base64_chars ! i \<noteq> CHR ''='' \<and> kB64Inv ! ascii (base64_chars ! i) = int i \<and>
     base64_T (base64_chars ! i) = int i) [0..<64]"
  by code_simp

lemma digit_inverse:
  assumes "i < 64"
  shows "base64_chars ! i \<noteq> CHR ''=''" "kB64Inv ! ascii (base64_chars ! i) = int i"
    "base64_T (base64_chars ! i) = int i"
  using kB64Inv_digit_all assms by (auto simp: list_all_iff)

lemma sextet_bound: "unat (w AND 0x3F :: 32 word) < 64"
proof -
  have "w AND 0x3F \<le> (0x3F :: 32 word)" by (rule word_and_le1)
  then show ?thesis by (simp add: word_le_nat_alt)
qed

text \<open>The accumulator after a digit and the byte read from it; both stay folded in the proofs.\<close>

definition acc :: "32 word \<Rightarrow> 32 word \<Rightarrow> 32 word" where
  "acc bits w = push_bit 6 bits OR (w AND 0x3F)"

definition feed :: "32 word \<Rightarrow> byte \<Rightarrow> 32 word" where
  "feed val b = push_bit 8 val OR ucast b"

definition out_byte :: "nat \<Rightarrow> 32 word \<Rightarrow> byte" where
  "out_byte k bits = ucast (drop_bit k bits AND 0xFF)"

lemma masks:
  "(0x3F :: 'a::len word) = mask 6" "(0xFF :: 'a::len word) = mask 8"
  by (simp_all add: mask_eq_exp_minus_1)

lemma byte_bit_high: "8 \<le> n \<Longrightarrow> \<not> bit (b :: byte) n"
  using bit_imp_le_length [of b n] by auto

lemma byte_signed:
  "k + 8 \<le> 32 \<Longrightarrow> ucast (signed_drop_bit k w AND 0xFF) = out_byte k w"
  unfolding masks out_byte_def by (rule bit_word_eqI) (auto simp: bit_simps)

lemma push_add_or:
  "push_bit 6 w + (u AND 0x3F) = acc w u"
  "push_bit 8 w + ucast b = feed w b"
  unfolding masks acc_def feed_def by (rule disjunctive_add; auto simp: bit_simps byte_bit_high)+

lemma base64_decode_digit:
  "base64_decode_loop bits bc (b64_digit w # s) =
     (if bc + 6 \<ge> 8
      then out_byte (nat (bc - 2)) (acc bits w) # base64_decode_loop (acc bits w) (bc - 2) s
      else base64_decode_loop (acc bits w) (bc + 6) s)"
  using digit_inverse [OF sextet_bound [of w]]
  by (simp add: b64_digit_def acc_def out_byte_def Let_def)

lemma Base64Decode_digit:
  assumes "valb \<le> 0"
  shows "Base64Decode_loop val valb (b64_digit w # s) =
     (if valb + 6 \<ge> 0
      then char_of_byte (out_byte (nat (valb + 6)) (acc val w))
             # Base64Decode_loop (acc val w) (valb - 2) s
      else Base64Decode_loop (acc val w) (valb + 6) s)"
proof -
  have "uint (w AND 0x3F) \<noteq> -1"
    using uint_ge_0 [of "w AND 0x3F"] by linarith
  moreover have "nat (valb + 6) + 8 \<le> 32"
    using assms by simp
  ultimately show ?thesis
    using digit_inverse [OF sextet_bound [of w]]
    by (simp add: b64_digit_def Let_def byte_signed push_add_or)
qed

declare base64_encode.simps(2) [simp del] base64_decode_loop.simps(2) [simp del]
  Base64Decode_loop.simps(2) [simp del]

text \<open>The three bytes of a group in one word.\<close>

definition pack :: "byte \<Rightarrow> byte \<Rightarrow> byte \<Rightarrow> 32 word" where
  "pack a b c = push_bit 16 (ucast a) OR push_bit 8 (ucast b) OR ucast c"

lemma less_8: "n < (8::nat) \<Longrightarrow> n = 0 \<or> n = 1 \<or> n = 2 \<or> n = 3 \<or> n = 4 \<or> n = 5 \<or> n = 6 \<or> n = 7"
  by linarith

lemma byte_eqI:
  fixes a b :: byte
  assumes "bit a 0 = bit b 0" "bit a 1 = bit b 1" "bit a 2 = bit b 2" "bit a 3 = bit b 3"
    "bit a 4 = bit b 4" "bit a 5 = bit b 5" "bit a 6 = bit b 6" "bit a 7 = bit b 7"
  shows "a = b"
proof (rule bit_word_eqI)
  fix n assume "n < LENGTH(8)"
  then show "bit a n = bit b n"
    using assms by (auto dest!: less_8)
qed

text \<open>The bytes come back from the sextets, whatever the accumulator held before.\<close>

lemma unpack [simp]:
  "out_byte 4 (acc (acc bits (drop_bit 18 (pack a b c))) (drop_bit 12 (pack a b c))) = a"
  "out_byte 2 (acc (acc bits (drop_bit 12 (pack a b c))) (drop_bit 6 (pack a b c))) = b"
  "out_byte 0 (acc (acc bits (drop_bit 6 (pack a b c))) (pack a b c)) = c"
  unfolding pack_def masks out_byte_def acc_def
  by (rule byte_eqI; auto simp: bit_simps byte_bit_high)+

lemma b64_digit_eqI:
  assumes "bit u 0 = bit w 0" "bit u 1 = bit w 1" "bit u 2 = bit w 2" "bit u 3 = bit w 3"
    "bit u 4 = bit w 4" "bit u 5 = bit w 5"
  shows "b64_digit u = b64_digit w"
proof -
  have "n < 6 \<Longrightarrow> bit u n = bit w n" for n
    using assms less_8 [of n] by auto
  then have "u AND 0x3F = w AND 0x3F"
    unfolding masks by (intro bit_word_eqI) (auto simp: bit_simps)
  then show ?thesis
    by (simp add: b64_digit_def)
qed

lemma b64_digit_signed:
  "k + 6 \<le> 32 \<Longrightarrow> b64_digit (signed_drop_bit k w) = b64_digit (drop_bit k w)"
  by (rule b64_digit_eqI) (auto simp: bit_simps)

subsubsection \<open>The encoder of crypto.cc, one group at a time\<close>

lemma base64_encode_group [simp]:
  "base64_encode (a # b # c # ds) =
     b64_digit (drop_bit 18 (pack a b c)) # b64_digit (drop_bit 12 (pack a b c)) #
     b64_digit (drop_bit 6 (pack a b c)) # b64_digit (pack a b c) # base64_encode ds"
  by (simp add: pack_def Let_def base64_encode.simps or.assoc)

lemma base64_encode_tail [simp]:
  "base64_encode [a, b] =
     [b64_digit (drop_bit 18 (pack a b 0)), b64_digit (drop_bit 12 (pack a b 0)),
      b64_digit (drop_bit 6 (pack a b 0)), CHR ''='']"
  "base64_encode [a] =
     [b64_digit (drop_bit 18 (pack a 0 0)), b64_digit (drop_bit 12 (pack a 0 0)),
      CHR ''='', CHR ''='']"
  by (simp_all add: pack_def Let_def base64_encode.simps or.assoc)

lemma triples_induct [case_names Nil One Two Group]:
  assumes "P []" "\<And>a. P [a]" "\<And>a b. P [a, b]" "\<And>a b c ds. P ds \<Longrightarrow> P (a # b # c # ds)"
  shows "P ds"
proof (induction "length ds" arbitrary: ds rule: less_induct)
  case less
  consider "ds = []" | a where "ds = [a]" | a b where "ds = [a, b]" | a b c r where "ds = a # b # c # r"
    by (cases ds rule: remdups_adj.cases) (auto, metis neq_Nil_conv)
  then show ?case
    using assms less by cases auto
qed

lemma base64_decode_pad: "base64_decode_loop bits bc (CHR ''='' # s) = []"
  by (simp add: base64_decode_loop.simps)

lemma base64_decode_encode_loop: "base64_decode_loop bits 0 (base64_encode ds) = ds"
  by (induction ds arbitrary: bits rule: triples_induct)
    (simp_all add: base64_decode_digit base64_decode_pad)

subsubsection \<open>The encoders of encoding.h\<close>

lemma ascii_ucast: "of_nat (ascii c) = (ucast (byte_of_char c) :: 32 word)"
  by (simp add: byte_of_char_def unsigned_of_nat take_bit_eq_mod of_char_mod_256)

lemma emit_step:
  "Base64Encode_emit val 2 = ([b64_digit (drop_bit 2 val)], -4)"
  "Base64Encode_emit val 4 = ([b64_digit (drop_bit 4 val)], -2)"
  "Base64Encode_emit val 6 = ([b64_digit (drop_bit 6 val), b64_digit val], -6)"
  by (simp_all add: Base64Encode_emit.simps b64_digit_signed)

lemma stream_digits:
  "b64_digit (drop_bit 2 (feed val a)) = b64_digit (drop_bit 18 (pack a b c))"
  "b64_digit (drop_bit 4 (feed (feed val a) b)) = b64_digit (drop_bit 12 (pack a b c))"
  "b64_digit (drop_bit 6 (feed (feed val b) c)) = b64_digit (drop_bit 6 (pack a b c))"
  "b64_digit (feed val c) = b64_digit (pack a b c)"
  unfolding pack_def feed_def by (rule b64_digit_eqI; auto simp: bit_simps byte_bit_high)+

lemma stream_tail_digits:
  "b64_digit (signed_drop_bit 4 (push_bit 8 (feed val a))) = b64_digit (drop_bit 12 (pack a 0 0))"
  "b64_digit (signed_drop_bit 6 (push_bit 8 (feed (feed val a) b))) =
     b64_digit (drop_bit 6 (pack a b 0))"
  unfolding pack_def feed_def by (rule b64_digit_eqI; auto simp: bit_simps byte_bit_high)+

lemma pad_to_4_group: "pad_to_4 (x # y # z # w # s) = x # y # z # w # pad_to_4 s"
  by (simp add: pad_to_4_def)

lemma replicate_2: "replicate 2 x = [x, x]"
  by (simp add: numeral_2_eq_2)

lemma Base64Encode_loop_eq:
  "pad_to_4 (Base64Encode_loop val (-6) s) = base64_encode (map byte_of_char s)"
proof (induction s arbitrary: val rule: triples_induct)
  case Nil
  show ?case by (simp add: pad_to_4_def)
next
  case (One a)
  show ?case
    by (simp add: emit_step ascii_ucast push_add_or stream_tail_digits pad_to_4_def
        stream_digits(1) [of val "byte_of_char a" 0 0] replicate_2)
next
  case (Two a b)
  show ?case
    by (simp add: emit_step ascii_ucast push_add_or stream_tail_digits pad_to_4_def
        stream_digits(1) [of val "byte_of_char a" "byte_of_char b" 0]
        stream_digits(2) [of val "byte_of_char a" "byte_of_char b" 0])
next
  case (Group a b c s)
  let ?a = "byte_of_char a" and ?b = "byte_of_char b" and ?c = "byte_of_char c"
  show ?case
    by (simp add: emit_step ascii_ucast push_add_or pad_to_4_group Group.IH
        stream_digits(1) [of val ?a ?b ?c] stream_digits(2) [of val ?a ?b ?c]
        stream_digits(3) [of _ ?b ?c ?a] stream_digits(4) [of _ ?c ?a ?b])
qed

lemma digit_of_byte:
  assumes "bit x 0 = bit w 0" "bit x 1 = bit w 1" "bit x 2 = bit w 2" "bit x 3 = bit w 3"
    "bit x 4 = bit w 4" "bit x 5 = bit w 5" "\<not> bit x 6" "\<not> bit x 7"
  shows "base64_chars ! unat (x :: byte) = b64_digit w"
proof -
  have "bit x n = (n < 6 \<and> bit w n)" for n
    using assms less_8 [of n] byte_bit_high [of n x] by (cases "n < 8") auto
  then have "ucast x = w AND 0x3F"
    unfolding masks by (intro bit_word_eqI) (auto simp: bit_simps)
  moreover have "unat (ucast x :: 32 word) = unat x"
    using unsigned_less [of x, where 'a = nat] by (simp add: unsigned_ucast_eq take_bit_nat_eq_self)
  ultimately show ?thesis
    by (simp add: b64_digit_def)
qed

lemma cell_digits:
  "map (\<lambda>b. base64_chars ! unat b) (char_array_4 a b c) =
     [b64_digit (drop_bit 18 (pack a b c)), b64_digit (drop_bit 12 (pack a b c)),
      b64_digit (drop_bit 6 (pack a b c)), b64_digit (pack a b c)]"
proof -
  have add: "push_bit 4 (a AND 3) + drop_bit 4 (b AND 0xF0) = push_bit 4 (a AND 3) OR drop_bit 4 (b AND 0xF0)"
    "push_bit 2 (b AND 0x0F) + drop_bit 6 (c AND 0xC0) = push_bit 2 (b AND 0x0F) OR drop_bit 6 (c AND 0xC0)"
    by (rule disjunctive_add_eq_or, rule byte_eqI; simp add: bit_simps)+
  show ?thesis
    unfolding char_array_4_def add list.map pack_def
    by (intro arg_cong2 [where f = Cons] refl digit_of_byte) (auto simp: bit_simps byte_bit_high)
qed

lemma char_array_4_length [simp]: "length (char_array_4 a b c) = 4"
  by (simp add: char_array_4_def)

lemma Base64Encode_vector_loop_eq: "Base64Encode_vector_loop [] ds = base64_encode ds"
proof (induction ds rule: triples_induct)
  case (One a)
  show ?case by (simp add: take_map [symmetric] cell_digits Let_def replicate_2)
next
  case (Two a b)
  show ?case by (simp add: take_map [symmetric] cell_digits Let_def)
next
  case (Group a b c ds)
  then show ?case by (simp add: cell_digits)
qed simp

lemma Base64Decode_pad: "Base64Decode_loop val valb (CHR ''='' # s) = []"
proof -
  have "base64_T (CHR ''='') = -1" by code_simp
  then show ?thesis by (simp add: Base64Decode_loop.simps)
qed

lemma Base64Decode_encode_loop:
  "Base64Decode_loop val (-8) (base64_encode ds) = map char_of_byte ds"
  by (induction ds arbitrary: val rule: triples_induct)
    (simp_all add: Base64Decode_digit Base64Decode_pad)

subsection \<open>The contract of a codec\<close>

text \<open>What the users of the routines rely on: decoding what was encoded gives it back.\<close>

locale byte_codec =
  fixes enc :: "'a \<Rightarrow> string" and dec :: "string \<Rightarrow> 'a"
  assumes dec_enc: "dec (enc x) = x"
begin

lemma enc_inj: "inj enc"
  by (rule inj_on_inverseI [where g = dec]) (simp add: dec_enc)

lemma enc_eq_iff: "enc x = enc y \<longleftrightarrow> x = y"
  using enc_inj by (simp add: inj_eq)

text \<open>A prefix in front of the code, cut off before decoding: the shape of a stored blob.\<close>

lemma dec_prefixed: "dec (drop (length pre) (pre @ enc x)) = x"
  by (simp add: dec_enc)

end

interpretation crypto_b64: byte_codec base64_encode base64_decode
  by unfold_locales (simp add: base64_decode_def base64_decode_encode_loop)

interpretation text_b64: byte_codec Base64Encode Base64Decode
  by unfold_locales
    (simp add: Base64Decode_def Base64Encode_def Base64Encode_loop_eq Base64Decode_encode_loop comp_def)

subsection \<open>Properties\<close>

text \<open>C28: \<^verbatim>\<open>base64_decode\<close> of crypto.cc inverts \<^verbatim>\<open>base64_encode\<close> on every byte array, of any
  length, although its 32-bit accumulator overflows.\<close>

theorem base64_roundtrip: "base64_decode (base64_encode data) = data"
  by (rule crypto_b64.dec_enc)

text \<open>\<^verbatim>\<open>Base64Decode\<close> of encoding.h inverts \<^verbatim>\<open>Base64Encode\<close> on every string.\<close>

theorem Base64_roundtrip: "Base64Decode (Base64Encode s) = s"
  by (rule text_b64.dec_enc)

text \<open>the four base64 encoders of the program (the byte-array one of crypto.cc, the two of
  encoding.h and the one of the Lua host) are different algorithms for one function.\<close>

theorem base64_encoders_agree:
  "Base64Encode s = base64_encode (map byte_of_char s) \<and>
   Base64Encode_vector (map byte_of_char s) = Base64Encode s \<and>
   Lua_Base64Encode s = Base64Encode s"
  by (simp add: Base64Encode_def Base64Encode_loop_eq Base64Encode_vector_def
      Lua_Base64Encode_def Base64Encode_vector_loop_eq)

end
