(* ===== verification/Cmdline.thy ===== *)
theory Cmdline
  imports Prelude
begin

text \<open>
  The command line editor of \<^verbatim>\<open>src/util/cmdline_parser.cc\<close>: a command is an executable and a
  list of parameters, parsed from and printed to one string.  The quoting rules differ between
  Windows and the other platforms.
\<close>

record command =
  exec :: string
  params :: "string list"

text \<open>\<^verbatim>\<open>exec.rfind\<close> of either separator, and the larger of the two positions.\<close>

definition rfind_char :: "char \<Rightarrow> string \<Rightarrow> nat option" where
  "rfind_char d s = map_option (\<lambda>i. length s - 1 - i) (find_char d (rev s))"

definition executable :: "command \<Rightarrow> string" where
  "executable cmd =
     (let slash = rfind_char (CHR ''/'') (exec cmd);
          backslash = rfind_char (CHR 0x5C) (exec cmd);
          sep = (case slash of
                   Some i \<Rightarrow> (case backslash of Some j \<Rightarrow> Some (max i j) | None \<Rightarrow> Some i)
                 | None \<Rightarrow> backslash) in
      case sep of Some i \<Rightarrow> drop (i + 1) (exec cmd) | None \<Rightarrow> exec cmd)"

text \<open>The test both editing operations share: the parameter is the key, or the key and a value.\<close>

definition param_matches :: "string \<Rightarrow> string \<Rightarrow> bool" where
  "param_matches key p \<longleftrightarrow>
     p = key \<or> (length p > length key \<and> take (length key) p = key \<and> p ! length key = CHR ''='')"

definition param_entry :: "string \<Rightarrow> string option \<Rightarrow> string" where
  "param_entry key value = (case value of Some v \<Rightarrow> key @ ''='' @ v | None \<Rightarrow> key)"

fun replace_first :: "('a \<Rightarrow> bool) \<Rightarrow> 'a \<Rightarrow> 'a list \<Rightarrow> 'a list option" where
  "replace_first P e [] = None"
| "replace_first P e (p # ps) =
     (if P p then Some (e # ps) else map_option ((#) p) (replace_first P e ps))"

definition ensure_param :: "string \<Rightarrow> string option \<Rightarrow> command \<Rightarrow> command" where
  "ensure_param key value cmd =
     (let entry = param_entry key value in
      case replace_first (param_matches key) entry (params cmd) of
        Some ps \<Rightarrow> cmd\<lparr>params := ps\<rparr>
      | None \<Rightarrow> cmd\<lparr>params := entry # params cmd\<rparr>)"

definition remove_param :: "string \<Rightarrow> command \<Rightarrow> command" where
  "remove_param key cmd = cmd\<lparr>params := filter (\<lambda>p. \<not> param_matches key p) (params cmd)\<rparr>"

definition is_quote_char :: "platform \<Rightarrow> char \<Rightarrow> bool" where
  "is_quote_char pf c \<longleftrightarrow>
     (if pf = Windows then c = CHR 0x22 else c = CHR 0x22 \<or> c = CHR 0x27)"

text \<open>The characters that make a token be quoted.\<close>

definition needs_quotes :: "platform \<Rightarrow> string \<Rightarrow> bool" where
  "needs_quotes pf s \<longleftrightarrow>
     (if pf = Windows then list_ex (\<lambda>c. c \<in> {CHR '' '', CHR ''=''}) s
      else list_ex (\<lambda>c. c \<in> {CHR '' '', CHR 0x09, CHR 0x22, CHR 0x27}) s)"

definition escape_char :: "char \<Rightarrow> string" where
  "escape_char c = (if c = CHR 0x22 \<or> c = CHR 0x5C then [CHR 0x5C, c] else [c])"

definition quote_token :: "platform \<Rightarrow> string \<Rightarrow> string" where
  "quote_token pf s =
     (if \<not> needs_quotes pf s then s
      else if pf = Windows then CHR 0x22 # s @ [CHR 0x22]
      else CHR 0x22 # concat (map escape_char s) @ [CHR 0x22])"

definition build :: "platform \<Rightarrow> command \<Rightarrow> string" where
  "build pf cmd = quote_token pf (exec cmd) @
     concat (map (\<lambda>p. CHR '' '' # quote_token pf p) (params cmd))"

text \<open>The scanner state: the command so far, the current token, the open quote and whether the
  executable is still to come.\<close>

record scan =
  cmd :: command
  token :: string
  in_quotes :: bool
  quote_char :: char
  first :: bool

definition flush :: "scan \<Rightarrow> scan" where
  "flush s = (if first s
     then s\<lparr>cmd := (cmd s)\<lparr>exec := token s\<rparr>, first := False, token := []\<rparr>
     else s\<lparr>cmd := (cmd s)\<lparr>params := params (cmd s) @ [token s]\<rparr>, token := []\<rparr>)"

definition scan_char :: "platform \<Rightarrow> char \<Rightarrow> scan \<Rightarrow> scan" where
  "scan_char pf c s =
     (if is_quote_char pf c \<and> (\<not> in_quotes s \<or> c = quote_char s)
      then s\<lparr>quote_char := (if in_quotes s then CHR 0x00 else c), in_quotes := \<not> in_quotes s\<rparr>
      else if c = CHR '' '' \<and> \<not> in_quotes s
      then (if token s \<noteq> [] then flush s else s)
      else s\<lparr>token := token s @ [c]\<rparr>)"

definition scan_init :: scan where
  "scan_init = \<lparr>cmd = \<lparr>exec = [], params = []\<rparr>, token = [], in_quotes = False,
     quote_char = CHR 0x00, first = True\<rparr>"

definition parse :: "platform \<Rightarrow> string \<Rightarrow> command" where
  "parse pf full_cmd =
     (let s = fold (scan_char pf) (takeWhile (\<lambda>c. c \<noteq> CHR 0x00) full_cmd) scan_init in
      cmd (if token s \<noteq> [] then flush s else s))"

subsection \<open>Editing parameters\<close>

lemma replace_first_None: "replace_first P e ps = None \<longleftrightarrow> (\<forall>p \<in> set ps. \<not> P p)"
  by (induction ps) auto

lemma replace_first_Some:
  "replace_first P e ps = Some qs \<Longrightarrow>
     \<exists>xs p ys. ps = xs @ p # ys \<and> P p \<and> (\<forall>x \<in> set xs. \<not> P x) \<and> qs = xs @ e # ys"
proof (induction ps arbitrary: qs)
  case (Cons a ps)
  show ?case
  proof (cases "P a")
    case True
    with Cons.prems show ?thesis by (intro exI [of _ "[]"]) auto
  next
    case False
    with Cons.prems obtain rs where rs: "replace_first P e ps = Some rs" "qs = a # rs"
      by auto
    then obtain xs p ys where "ps = xs @ p # ys" "P p" "\<forall>x \<in> set xs. \<not> P x" "rs = xs @ e # ys"
      using Cons.IH by blast
    with False rs show ?thesis
      by (intro exI [of _ "a # xs"] exI [of _ p] exI [of _ ys]) auto
  qed
qed simp

lemma param_matches_entry [simp]: "param_matches key (param_entry key value)"
  by (auto simp: param_matches_def param_entry_def split: option.splits)

lemma ensure_param_others:
  "filter (\<lambda>p. \<not> param_matches key p) (params (ensure_param key value c)) =
   filter (\<lambda>p. \<not> param_matches key p) (params c)"
proof (cases "replace_first (param_matches key) (param_entry key value) (params c)")
  case None
  then show ?thesis by (simp add: ensure_param_def Let_def)
next
  case (Some qs)
  then obtain xs p ys where "params c = xs @ p # ys" "param_matches key p"
    "qs = xs @ param_entry key value # ys"
    using replace_first_Some [OF Some] by metis
  with Some show ?thesis
    by (simp add: ensure_param_def Let_def)
qed

lemma find_skip: "\<forall>x \<in> set xs. \<not> P x \<Longrightarrow> P e \<Longrightarrow> find P (xs @ e # ys) = Some e"
  by (induction xs) auto

lemma ensure_param_first:
  "find (param_matches key) (params (ensure_param key value c)) = Some (param_entry key value)"
proof (cases "replace_first (param_matches key) (param_entry key value) (params c)")
  case None
  then show ?thesis by (simp add: ensure_param_def Let_def)
next
  case (Some qs)
  then obtain xs ys where
    "qs = xs @ param_entry key value # ys" "\<forall>x \<in> set xs. \<not> param_matches key x"
    using replace_first_Some [OF Some] by metis
  with Some show ?thesis
    by (simp add: ensure_param_def Let_def find_skip)
qed

subsection \<open>Quoting and scanning\<close>

text \<open>Tokens that survive printing: not empty, no double quote, no NUL, and outside Windows no
  backslash in a token that gets quoted.\<close>

definition plain_token :: "platform \<Rightarrow> string \<Rightarrow> bool" where
  "plain_token pf s \<longleftrightarrow> s \<noteq> [] \<and> CHR 0x22 \<notin> set s \<and> CHR 0x00 \<notin> set s \<and>
     (pf \<noteq> Windows \<and> needs_quotes pf s \<longrightarrow> CHR 0x5C \<notin> set s)"

lemma escape_plain: "CHR 0x22 \<notin> set s \<Longrightarrow> CHR 0x5C \<notin> set s \<Longrightarrow> concat (map escape_char s) = s"
  by (induction s) (auto simp: escape_char_def)

lemma quote_token_plain:
  "plain_token pf s \<Longrightarrow>
     quote_token pf s = (if needs_quotes pf s then CHR 0x22 # s @ [CHR 0x22] else s)"
  by (auto simp: quote_token_def plain_token_def escape_plain)

lemma scan_quoted:
  "CHR 0x22 \<notin> set s \<Longrightarrow> in_quotes st \<Longrightarrow> quote_char st = CHR 0x22 \<Longrightarrow>
     fold (scan_char pf) s st = st\<lparr>token := token st @ s\<rparr>"
proof (induction s arbitrary: st)
  case (Cons c s)
  then have "scan_char pf c st = st\<lparr>token := token st @ [c]\<rparr>"
    by (auto simp: scan_char_def is_quote_char_def)
  with Cons show ?case by simp
qed simp

lemma scan_bare:
  "CHR 0x22 \<notin> set s \<Longrightarrow> \<not> needs_quotes pf s \<Longrightarrow> \<not> in_quotes st \<Longrightarrow>
     fold (scan_char pf) s st = st\<lparr>token := token st @ s\<rparr>"
proof (induction s arbitrary: st)
  case (Cons c s)
  then have "scan_char pf c st = st\<lparr>token := token st @ [c]\<rparr>"
    by (auto simp: scan_char_def is_quote_char_def needs_quotes_def split: if_splits)
  with Cons show ?case by (auto simp: needs_quotes_def split: if_splits)
qed simp

lemma scan_token:
  assumes "plain_token pf s" "\<not> in_quotes st" "quote_char st = CHR 0x00"
  shows "fold (scan_char pf) (quote_token pf s) st = st\<lparr>token := token st @ s\<rparr>"
proof (cases "needs_quotes pf s")
  case True
  have o: "scan_char pf (CHR 0x22) st = st\<lparr>quote_char := CHR 0x22, in_quotes := True\<rparr>"
    using assms by (simp add: scan_char_def is_quote_char_def)
  have c: "scan_char pf (CHR 0x22) (st\<lparr>quote_char := CHR 0x22, in_quotes := True, token := t\<rparr>) =
      st\<lparr>token := t\<rparr>" for t
    using assms by (simp add: scan_char_def is_quote_char_def)
  show ?thesis
    using True assms(1) scan_quoted [of s "st\<lparr>quote_char := CHR 0x22, in_quotes := True\<rparr>" pf]
    by (simp add: quote_token_plain o c plain_token_def)
next
  case False
  then show ?thesis
    using assms scan_bare [of s pf st] by (simp add: quote_token_plain plain_token_def)
qed

text \<open>After the executable, the current token is the last of the tokens scanned so far.\<close>

definition scanned :: "string \<Rightarrow> string list \<Rightarrow> scan" where
  "scanned e ps = (if ps = [] then scan_init\<lparr>token := e\<rparr>
     else \<lparr>cmd = \<lparr>exec = e, params = butlast ps\<rparr>, token = last ps, in_quotes = False,
           quote_char = CHR 0x00, first = False\<rparr>)"

lemma scanned_simps:
  "\<not> in_quotes (scanned e ps)" "quote_char (scanned e ps) = CHR 0x00"
  "token (scanned e ps) = (if ps = [] then e else last ps)"
  by (simp_all add: scanned_def scan_init_def)

lemma scanned_flush:
  assumes "e \<noteq> []" "[] \<notin> set ps"
  shows "flush (scanned e ps) = \<lparr>cmd = \<lparr>exec = e, params = ps\<rparr>, token = [], in_quotes = False,
           quote_char = CHR 0x00, first = False\<rparr>"
  using assms by (auto simp: scanned_def flush_def scan_init_def)

lemma scan_params:
  assumes "e \<noteq> []" "[] \<notin> set qs" "\<forall>p \<in> set ps. plain_token pf p"
  shows "fold (scan_char pf) (concat (map (\<lambda>p. CHR '' '' # quote_token pf p) ps)) (scanned e qs) =
     scanned e (qs @ ps)"
  using assms
proof (induction ps arbitrary: qs)
  case (Cons p ps)
  have p: "plain_token pf p" "p \<noteq> []" using Cons.prems by (auto simp: plain_token_def)
  have "token (scanned e qs) \<noteq> []"
    using Cons.prems by (auto simp: scanned_simps) (metis last_in_set)
  then have "scan_char pf (CHR '' '') (scanned e qs) = flush (scanned e qs)"
    by (simp add: scan_char_def is_quote_char_def scanned_simps)
  moreover have "fold (scan_char pf) (quote_token pf p) (flush (scanned e qs)) = scanned e (qs @ [p])"
    using Cons.prems p by (simp add: scanned_flush scan_token) (simp add: scanned_def)
  ultimately show ?case
    using Cons.IH [of "qs @ [p]"] Cons.prems p by simp
qed simp

lemma quote_token_no_nul: "plain_token pf s \<Longrightarrow> CHR 0x00 \<notin> set (quote_token pf s)"
  by (auto simp: quote_token_plain plain_token_def)

lemma build_no_nul:
  assumes "plain_token pf (exec c)" "\<forall>p \<in> set (params c). plain_token pf p"
  shows "takeWhile (\<lambda>c. c \<noteq> CHR 0x00) (build pf c) = build pf c"
proof -
  have "CHR 0x00 \<notin> set (build pf c)"
    using assms quote_token_no_nul by (auto simp: build_def)
  then show ?thesis
    by (auto simp: takeWhile_eq_all_conv)
qed

subsection \<open>Properties\<close>

text \<open>C27: printing a command and parsing the text gives the command back on every platform, for
  an executable and parameters that are not empty, have no double quote and no NUL, and, where
  the POSIX rules quote them, no backslash.\<close>

theorem command_roundtrip:
  assumes "plain_token pf (exec c)" "\<forall>p \<in> set (params c). plain_token pf p"
  shows "parse pf (build pf c) = c"
proof -
  have ne: "exec c \<noteq> []" "[] \<notin> set (params c)"
    using assms by (auto simp: plain_token_def)
  have "fold (scan_char pf) (quote_token pf (exec c)) scan_init = scanned (exec c) []"
    using assms by (simp add: scan_token scan_init_def scanned_def)
  then have "fold (scan_char pf) (build pf c) scan_init = scanned (exec c) (params c)"
    using assms ne scan_params [of "exec c" "[]" "params c" pf] by (simp add: build_def)
  moreover have "token (scanned (exec c) (params c)) \<noteq> []"
    using ne by (auto simp: scanned_simps) (metis last_in_set)
  ultimately show ?thesis
    using assms ne by (simp add: parse_def build_no_nul scanned_flush)
qed

theorem command_roundtrip_witness:
  "parse Windows (build Windows \<lparr>exec = ''C:/Steam dir/steam.exe'', params = [''-a'', ''-k=v w'']\<rparr>) =
     \<lparr>exec = ''C:/Steam dir/steam.exe'', params = [''-a'', ''-k=v w'']\<rparr>"
  by (rule command_roundtrip) (code_simp+)

text \<open>\<^verbatim>\<open>ensure_param\<close> makes the requested entry the first parameter with that key and leaves
  the executable and all parameters with other keys as they were, in their order;
  \<^verbatim>\<open>remove_param\<close> removes exactly the parameters with the key, also after an
  \<^verbatim>\<open>ensure_param\<close>.\<close>

theorem ensure_remove_param:
  "find (param_matches key) (params (ensure_param key value c)) = Some (param_entry key value) \<and>
   exec (ensure_param key value c) = exec c \<and>
   filter (\<lambda>p. \<not> param_matches key p) (params (ensure_param key value c)) =
     filter (\<lambda>p. \<not> param_matches key p) (params c) \<and>
   remove_param key (ensure_param key value c) = remove_param key c"
proof -
  have e: "exec (ensure_param key value c) = exec c"
    by (simp add: ensure_param_def Let_def split: option.splits)
  have "remove_param key (ensure_param key value c) = remove_param key c"
    using e by (intro command.equality) (simp_all add: remove_param_def ensure_param_others)
  with e show ?thesis
    by (simp add: ensure_param_first ensure_param_others)
qed

text \<open>The POSIX printer escapes double quotes and backslashes with a backslash, which the scanner
  does not know: it takes the escaped quote for the end of the quotes.\<close>

lemma posix_escapes_not_undone:
  "parse Linux (build Linux \<lparr>exec = ''steam'', params = [[CHR ''a'', CHR 0x22, CHR ''b'']]\<rparr>) =
     \<lparr>exec = ''steam'', params = [[CHR ''a'', CHR 0x5C, CHR ''b'']]\<rparr>"
  by code_simp

end
