(* ===== verification/UrlCodec.thy ===== *)
theory UrlCodec
  imports Prelude
begin

text \<open>
  URL escaping, \<^verbatim>\<open>include/cloude/url_parser.h\<close>, with the paths that the loopback
  addresses carry, and the escaping function of the Lua host (\<^verbatim>\<open>lua_host/api/utils.cc\<close>).
\<close>

definition hex_upper :: string where
  "hex_upper = ''0123456789ABCDEF''"

definition hex_lower :: string where
  "hex_lower = ''0123456789abcdef''"

text \<open>A value below 256 in hexadecimal, as the stream inserter prints it without a field width.\<close>

definition hex_byte :: "string \<Rightarrow> nat \<Rightarrow> string" where
  "hex_byte digits n =
     (if n < 16 then [digits ! n] else [digits ! (n div 16), digits ! (n mod 16)])"

definition hex_val :: "char \<Rightarrow> nat" where
  "hex_val c = (if isdigit c then ascii c - 48
     else if isupper c then ascii c - 55 else ascii c - 87)"

definition url_plain :: "char \<Rightarrow> bool" where
  "url_plain c \<longleftrightarrow> isalnum c \<or> c \<in> {CHR ''-'', CHR ''_'', CHR ''.'', CHR ''~'', CHR ''/''}"

definition encode_char :: "char \<Rightarrow> string" where
  "encode_char c =
     (if url_plain c then [c]
      else if c = CHR '' '' then [CHR ''+'']
      else CHR ''%'' # hex_byte hex_upper (ascii c))"

definition encode_url :: "string \<Rightarrow> string" where
  "encode_url value = concat (map encode_char value)"

fun decode_url :: "string \<Rightarrow> string" where
  "decode_url [] = []"
| "decode_url (c # s) =
     (if c = CHR ''%'' then
        (case s of
           h1 # h2 # r \<Rightarrow>
             if isxdigit h1 \<and> isxdigit h2 then chr (16 * hex_val h1 + hex_val h2) # decode_url r
             else decode_url s
         | _ \<Rightarrow> decode_url s)
      else if c = CHR ''+'' then CHR '' '' # decode_url s
      else c # decode_url s)"

definition get_url_from_path :: "platform \<Rightarrow> string \<Rightarrow> string \<Rightarrow> string" where
  "get_url_from_path pf baseAddress path =
     (if pf = Windows then baseAddress @ encode_url path
      else baseAddress @ encode_url (drop 1 path))"

definition get_path_from_url :: "platform \<Rightarrow> string \<Rightarrow> string" where
  "get_path_from_url pf path =
     (let cleanPath = (case find_char (CHR ''?'') path of Some i \<Rightarrow> take i path | None \<Rightarrow> path) in
      if pf = Windows then decode_url cleanPath else CHR ''/'' # decode_url cleanPath)"

text \<open>The Lua host pads to two digits, prints lower case and escapes blanks and slashes too; its
  argument is a C string.\<close>

definition Lua_UrlEncode :: "string \<Rightarrow> string" where
  "Lua_UrlEncode input = concat (map (\<lambda>c.
     if isalnum c \<or> c \<in> {CHR ''-'', CHR ''_'', CHR ''.'', CHR ''~''} then [c]
     else [CHR ''%'', hex_lower ! (ascii c div 16), hex_lower ! (ascii c mod 16)])
     (takeWhile (\<lambda>c. c \<noteq> CHR 0x00) input))"

subsection \<open>Lemmas\<close>

lemma ascii_less_256: "ascii c < 256"
  using of_char_mod_256 [of c, where 'a = nat] mod_less_divisor [of 256 "ascii c"] by simp

lemma less_16: "n < (16::nat) \<Longrightarrow> n \<in> set [0..<16]"
  by simp

lemma hex_digit_props_all:
  "list_all (\<lambda>n. isxdigit (hex_upper ! n) \<and> hex_val (hex_upper ! n) = n \<and>
     isxdigit (hex_lower ! n) \<and> hex_val (hex_lower ! n) = n \<and>
     url_plain (hex_upper ! n) \<and> 48 \<le> ascii (hex_upper ! n)) [0..<16]"
  by code_simp

lemma hex_digit_props:
  assumes "n < 16"
  shows "isxdigit (hex_upper ! n)" "hex_val (hex_upper ! n) = n"
    "isxdigit (hex_lower ! n)" "hex_val (hex_lower ! n) = n"
    "url_plain (hex_upper ! n)" "48 \<le> ascii (hex_upper ! n)"
  using hex_digit_props_all less_16 [OF assms] by (auto simp: list_all_iff)

lemma url_plain_special: "url_plain c \<Longrightarrow> c \<noteq> CHR ''%'' \<and> c \<noteq> CHR ''+'' \<and> c \<noteq> CHR ''?''"
  by (auto simp: url_plain_def cctype_defs)

lemma url_plain_high: "url_plain c \<Longrightarrow> 16 \<le> ascii c"
  by (auto simp: url_plain_def cctype_defs)

lemma char_of_split: "chr (16 * (ascii c div 16) + ascii c mod 16) = c"
  by simp

lemma decode_encode_char:
  assumes "16 \<le> ascii c"
  shows "decode_url (encode_char c @ s) = c # decode_url s"
proof -
  have "ascii c div 16 < 16" "ascii c mod 16 < 16"
    using ascii_less_256 [of c] by (auto simp: less_mult_imp_div_less)
  then show ?thesis
    using assms url_plain_special [of c]
    by (auto simp: encode_char_def hex_byte_def hex_digit_props)
qed

lemma decode_encode_high:
  "\<forall>c \<in> set v. 16 \<le> ascii c \<Longrightarrow> decode_url (encode_url v @ s) = v @ decode_url s"
  by (induction v) (auto simp: encode_url_def decode_encode_char)

lemma encode_url_simps [simp]:
  "encode_url [] = []" "encode_url (c # v) = encode_char c @ encode_url v"
  by (simp_all add: encode_url_def)

text \<open>A byte below 16 is printed with one hexadecimal digit, so that decoding either drops the
  percent sign or takes the first character of what follows for the second digit.\<close>

lemma encode_char_low: "ascii c < 16 \<Longrightarrow> encode_char c = [CHR ''%'', hex_upper ! ascii c]"
  using url_plain_high [of c] by (auto simp: encode_char_def hex_byte_def)

lemma encode_url_hd_hex:
  "encode_url r = h # E \<Longrightarrow> isxdigit h \<Longrightarrow> \<exists>r'. r = h # r' \<and> E = encode_url r'"
  by (cases r) (auto simp: encode_char_def hex_byte_def cctype_defs split: if_splits)

lemma decode_low_cases:
  assumes "ascii c < 16"
  shows "decode_url (encode_url (c # r)) = hex_upper ! ascii c # decode_url (encode_url r) \<or>
     (\<exists>h r'. r = h # r' \<and>
        decode_url (encode_url (c # r)) = chr (16 * ascii c + hex_val h) # decode_url (encode_url r'))"
proof -
  let ?X = "hex_upper ! ascii c"
  have X: "isxdigit ?X" "hex_val ?X = ascii c" "?X \<noteq> CHR ''%''" "?X \<noteq> CHR ''+''"
    using hex_digit_props [OF assms] url_plain_special by auto
  show ?thesis
  proof (cases "encode_url r")
    case Nil
    with X assms show ?thesis by (simp add: encode_char_low)
  next
    case (Cons h E)
    with X assms show ?thesis
      using encode_url_hd_hex [OF Cons] by (cases "isxdigit h") (auto simp: encode_char_low)
  qed
qed

lemma decode_encode_length: "length (decode_url (encode_url v)) \<le> length v"
proof (induction v rule: length_induct)
  case (1 v)
  show ?case
  proof (cases v)
    case (Cons c r)
    then have IH: "length (decode_url (encode_url r)) \<le> length r"
      "r = h # r' \<Longrightarrow> length (decode_url (encode_url r')) \<le> length r'" for h r'
      using 1 by simp_all
    show ?thesis
    proof (cases "ascii c < 16")
      case True
      from decode_low_cases [OF True, of r] show ?thesis
        unfolding Cons using IH by (elim disjE exE conjE) (fastforce simp del: encode_url_simps)+
    next
      case False
      then show ?thesis
        using IH Cons by (simp add: decode_encode_char)
    qed
  qed simp
qed

lemma decode_low_neq:
  assumes "ascii c < 16"
  shows "decode_url (encode_url (c # r)) \<noteq> c # r"
proof
  assume eq: "decode_url (encode_url (c # r)) = c # r"
  have "hex_upper ! ascii c \<noteq> c"
    using assms hex_digit_props(6) [OF assms] by auto
  with eq decode_low_cases [OF assms, of r] obtain h r' where
    "r = h # r'" "decode_url (encode_url r') = r"
    by (metis list.inject)
  with decode_encode_length [of r'] show False by simp
qed

lemma encode_char_set: "x \<in> set (encode_char c) \<Longrightarrow> url_plain x \<or> x = CHR ''+'' \<or> x = CHR ''%''"
proof -
  have "ascii c div 16 < 16" "ascii c mod 16 < 16"
    using ascii_less_256 [of c] by (auto simp: less_mult_imp_div_less)
  moreover assume "x \<in> set (encode_char c)"
  ultimately show ?thesis
    by (auto simp: encode_char_def hex_byte_def hex_digit_props split: if_splits)
qed

lemma encode_url_no_query: "CHR ''?'' \<notin> set (encode_url v)"
  using encode_char_set [of "CHR ''?''"] url_plain_special [of "CHR ''?''"]
  by (auto simp: encode_url_def)

subsection \<open>Properties\<close>

text \<open>C30: decoding inverts encoding exactly on the strings without bytes below 16: every other
  string is changed by the round trip.\<close>

theorem url_roundtrip_iff: "decode_url (encode_url v) = v \<longleftrightarrow> list_all (\<lambda>c. 16 \<le> ascii c) v"
proof
  assume "decode_url (encode_url v) = v"
  then show "list_all (\<lambda>c. 16 \<le> ascii c) v"
  proof (induction v)
    case (Cons c v)
    then have "16 \<le> ascii c"
      using decode_low_neq [of c v] by force
    with Cons show ?case by (simp add: decode_encode_char)
  qed simp
next
  assume "list_all (\<lambda>c. 16 \<le> ascii c) v"
  then show "decode_url (encode_url v) = v"
    using decode_encode_high [of v "[]"] by (simp add: list_all_iff)
qed

text \<open>the local path put into a loopback URL is the path read back from it, on every
  platform, for absolute paths without bytes below 16 (a question mark in the path is escaped
  and not taken for the query).\<close>

theorem loopback_path_roundtrip:
  assumes "list_all (\<lambda>c. 16 \<le> ascii c) path" and "pf = Windows \<or> prefix ''/'' path"
  shows "get_path_from_url pf (drop (length base) (get_url_from_path pf base path)) = path"
proof -
  have "find_char (CHR ''?'') (encode_url p) = None" for p
    by (simp add: find_char_None encode_url_no_query)
  moreover have "decode_url (encode_url p) = p" if "list_all (\<lambda>c. 16 \<le> ascii c) p" for p
    using decode_encode_high [of p "[]"] that by (simp add: list_all_iff)
  ultimately show ?thesis
    using assms
    by (cases path)
      (auto simp: get_path_from_url_def get_url_from_path_def Let_def simp del: encode_url_simps)
qed

theorem loopback_path_roundtrip_witness:
  "get_path_from_url Linux (drop 3 (get_url_from_path Linux ''ftp'' ''/a b?/c%d.js'')) = ''/a b?/c%d.js''"
proof -
  have "list_all (\<lambda>c. 16 \<le> ascii c) ''/a b?/c%d.js''" by code_simp
  moreover have "prefix ''/'' ''/a b?/c%d.js''" by simp
  ultimately show ?thesis
    using loopback_path_roundtrip [of "''/a b?/c%d.js''" Linux "''ftp''"]
    by (simp add: numeral_3_eq_3)
qed

end
