(* ===== verification/Crypto.thy ===== *)
theory Crypto
  imports Base64
begin

text \<open>
  Encryption of stored secrets, \<^verbatim>\<open>src/system/crypto.cc\<close>.

  The operating system's data protection calls (Windows), the digest, the random source and
  AES-256-GCM (elsewhere, from OpenSSL) are code outside the repository: they are the fields of
  \<open>crypto_env\<close>.  What the code relies on is stated as \<open>dpapi_ok\<close> and \<open>gcm_ok\<close>: protecting and
  sealing are inverted by their counterparts, a protected blob is not empty, and a GCM
  tag has 16 bytes.
\<close>

record crypto_env =
  protect_data :: "byte list \<Rightarrow> byte list option"
  unprotect_data :: "byte list \<Rightarrow> byte list option"
  kern_uuid :: "string option"
  machine_id_line :: string
  host_name :: string
  sha256 :: "string \<Rightarrow> byte list"
  rand_bytes_12 :: "byte list option"
  gcm_seal :: "byte list \<Rightarrow> byte list \<Rightarrow> byte list \<Rightarrow> byte list \<times> byte list"
  gcm_open :: "byte list \<Rightarrow> byte list \<Rightarrow> byte list \<Rightarrow> byte list \<Rightarrow> byte list option"

definition dpapi_ok :: "crypto_env \<Rightarrow> bool" where
  "dpapi_ok env \<longleftrightarrow> (\<forall>p b. protect_data env p = Some b \<longrightarrow> b \<noteq> [] \<and> unprotect_data env b = Some p)"

definition gcm_ok :: "crypto_env \<Rightarrow> bool" where
  "gcm_ok env \<longleftrightarrow> (\<forall>k iv p. length (snd (gcm_seal env k iv p)) = 16 \<and>
     length (fst (gcm_seal env k iv p)) = length p \<and>
     gcm_open env k iv (fst (gcm_seal env k iv p)) (snd (gcm_seal env k iv p)) = Some p)"

definition BLOB_PREFIX :: string where
  "BLOB_PREFIX = ''MGCRYPT:v1:''"

definition is_encrypted :: "string \<Rightarrow> bool" where
  "is_encrypted value \<longleftrightarrow> length value > length BLOB_PREFIX \<and> take (length BLOB_PREFIX) value = BLOB_PREFIX"

definition bytes_of :: "string \<Rightarrow> byte list" where
  "bytes_of s = map byte_of_char s"

definition string_of :: "byte list \<Rightarrow> string" where
  "string_of bs = map char_of_byte bs"

text \<open>The seed of the key: the kernel UUID without its trailing NUL on macOS, the first line of
  \<^verbatim>\<open>/etc/machine-id\<close> or else the host name on Linux.\<close>

definition derive_machine_key :: "platform \<Rightarrow> crypto_env \<Rightarrow> byte list" where
  "derive_machine_key pf env =
     (let seed = (if pf = MacOS
            then (case kern_uuid env of
                    None \<Rightarrow> []
                  | Some u \<Rightarrow> if u \<noteq> [] \<and> last u = CHR 0x00 then butlast u else u)
            else if machine_id_line env = [] then host_name env else machine_id_line env) in
      sha256 env (seed @ ''cloude-proxy-secret-v1''))"

definition encrypt_windows :: "crypto_env \<Rightarrow> string \<Rightarrow> string" where
  "encrypt_windows env plaintext =
     (if plaintext = [] then []
      else case protect_data env (bytes_of plaintext) of
        None \<Rightarrow> []
      | Some blob \<Rightarrow> BLOB_PREFIX @ base64_encode blob)"

definition decrypt_windows :: "crypto_env \<Rightarrow> string \<Rightarrow> string" where
  "decrypt_windows env ciphertext =
     (if \<not> is_encrypted ciphertext then []
      else let decoded = base64_decode (drop (length BLOB_PREFIX) ciphertext) in
        if decoded = [] then []
        else case unprotect_data env decoded of None \<Rightarrow> [] | Some p \<Rightarrow> string_of p)"

definition encrypt_posix :: "platform \<Rightarrow> crypto_env \<Rightarrow> string \<Rightarrow> string" where
  "encrypt_posix pf env plaintext =
     (if plaintext = [] then []
      else let key = derive_machine_key pf env in
        case rand_bytes_12 env of
          None \<Rightarrow> []
        | Some iv \<Rightarrow>
            let (ciphertext, tag) = gcm_seal env key iv (bytes_of plaintext);
                packed = iv @ tag @ ciphertext in
            BLOB_PREFIX @ base64_encode packed)"

definition decrypt_posix :: "platform \<Rightarrow> crypto_env \<Rightarrow> string \<Rightarrow> string" where
  "decrypt_posix pf env ciphertext =
     (if \<not> is_encrypted ciphertext then []
      else let decoded = base64_decode (drop (length BLOB_PREFIX) ciphertext) in
        if length decoded < 29 then []
        else let key = derive_machine_key pf env;
                 iv = take 12 decoded;
                 tag = take 16 (drop 12 decoded);
                 payload = drop 28 decoded in
          case gcm_open env key iv payload tag of None \<Rightarrow> [] | Some p \<Rightarrow> string_of p)"

definition encrypt :: "platform \<Rightarrow> crypto_env \<Rightarrow> string \<Rightarrow> string" where
  "encrypt pf env p = (if pf = Windows then encrypt_windows env p else encrypt_posix pf env p)"

definition decrypt :: "platform \<Rightarrow> crypto_env \<Rightarrow> string \<Rightarrow> string" where
  "decrypt pf env c = (if pf = Windows then decrypt_windows env c else decrypt_posix pf env c)"

subsection \<open>Lemmas\<close>

lemma string_of_bytes_of [simp]: "string_of (bytes_of s) = s"
  by (simp add: string_of_def bytes_of_def comp_def)

lemma base64_encode_nonempty: "base64_encode bs = [] \<longleftrightarrow> bs = []"
  using crypto_b64.enc_eq_iff [of bs "[]"] by simp

lemma blob_encrypted: "bs \<noteq> [] \<Longrightarrow> is_encrypted (BLOB_PREFIX @ base64_encode bs)"
  using base64_encode_nonempty [of bs] by (simp add: is_encrypted_def)

lemma blob_payload: "base64_decode (drop (length BLOB_PREFIX) (BLOB_PREFIX @ base64_encode bs)) = bs"
  by (rule crypto_b64.dec_prefixed)

lemma encrypt_windows_cases:
  "encrypt_windows env p = [] \<or>
   (\<exists>b. protect_data env (bytes_of p) = Some b \<and> encrypt_windows env p = BLOB_PREFIX @ base64_encode b)"
  by (auto simp: encrypt_windows_def split: option.splits)

text \<open>The seal and the iv are cut apart again where they were joined.\<close>

lemma decrypt_posix_packed:
  assumes "length iv = 12" "length tag = 16" "ct \<noteq> []"
    and "gcm_open env (derive_machine_key pf env) iv ct tag = Some p"
  shows "decrypt_posix pf env (BLOB_PREFIX @ base64_encode (iv @ tag @ ct)) = string_of p"
proof -
  have "length (iv @ tag @ ct) \<ge> 29"
    using assms by (cases ct) auto
  moreover have "is_encrypted (BLOB_PREFIX @ base64_encode (iv @ tag @ ct))"
    using assms(3) by (intro blob_encrypted) simp
  ultimately show ?thesis
    using assms by (simp add: decrypt_posix_def crypto_b64.dec_enc Let_def)
qed

lemma encrypt_posix_blob:
  assumes "gcm_ok env" "p \<noteq> []" "rand_bytes_12 env = Some iv" "length iv = 12"
  shows "is_encrypted (encrypt_posix pf env p) \<and> decrypt_posix pf env (encrypt_posix pf env p) = p"
proof -
  obtain ct tag where s: "gcm_seal env (derive_machine_key pf env) iv (bytes_of p) = (ct, tag)"
    by fastforce
  with assms(1) have g: "length tag = 16" "length ct = length (bytes_of p)"
    "gcm_open env (derive_machine_key pf env) iv ct tag = Some (bytes_of p)"
    by (metis fst_conv snd_conv gcm_ok_def)+
  then have "ct \<noteq> []"
    using assms(2) by (auto simp: bytes_of_def)
  with assms s g decrypt_posix_packed [OF assms(4) g(1) _ g(3)] show ?thesis
    by (auto simp: encrypt_posix_def Let_def intro: blob_encrypted)
qed

lemma encrypt_windows_blob:
  assumes "dpapi_ok env" "p \<noteq> []" "protect_data env (bytes_of p) = Some b"
  shows "is_encrypted (encrypt_windows env p) \<and> decrypt_windows env (encrypt_windows env p) = p"
  using assms
  by (auto simp: encrypt_windows_def decrypt_windows_def dpapi_ok_def blob_encrypted
      crypto_b64.dec_enc Let_def)

definition crypto_ok :: "platform \<Rightarrow> crypto_env \<Rightarrow> bool" where
  "crypto_ok pf env \<longleftrightarrow>
     (if pf = Windows then dpapi_ok env
      else gcm_ok env \<and> (\<forall>iv. rand_bytes_12 env = Some iv \<longrightarrow> length iv = 12))"

definition source_fails :: "platform \<Rightarrow> crypto_env \<Rightarrow> string \<Rightarrow> bool" where
  "source_fails pf env p \<longleftrightarrow>
     (if pf = Windows then protect_data env (bytes_of p) = None else rand_bytes_12 env = None)"

lemma encrypt_outcomes:
  assumes "crypto_ok pf env" "p \<noteq> []"
  shows "if source_fails pf env p then encrypt pf env p = []
    else is_encrypted (encrypt pf env p) \<and> decrypt pf env (encrypt pf env p) = p"
proof (cases "pf = Windows")
  case True
  with assms show ?thesis
    using encrypt_windows_blob [of env p]
    by (auto simp: crypto_ok_def source_fails_def encrypt_def decrypt_def encrypt_windows_def)
next
  case False
  with assms show ?thesis
    using encrypt_posix_blob [of env p _ pf]
    by (auto simp: crypto_ok_def source_fails_def encrypt_def decrypt_def encrypt_posix_def)
qed

lemma decrypt_plain: "\<not> is_encrypted c \<Longrightarrow> decrypt pf env c = []"
  by (simp add: decrypt_def decrypt_windows_def decrypt_posix_def)

text \<open>An environment with transparent sealing, to exhibit that the hypotheses can hold.\<close>

definition clear_env :: crypto_env where
  "clear_env = \<lparr>protect_data = (\<lambda>p. Some (0 # p)), unprotect_data = (\<lambda>b. Some (tl b)),
     kern_uuid = None, machine_id_line = ''m1'', host_name = ''h'', sha256 = (\<lambda>_. replicate 32 0),
     rand_bytes_12 = Some (replicate 12 7),
     gcm_seal = (\<lambda>k iv p. (p, replicate 16 0)), gcm_open = (\<lambda>k iv c t. Some c)\<rparr>"

lemma clear_env_ok: "crypto_ok pf clear_env" "\<not> source_fails pf clear_env p"
  by (simp_all add: crypto_ok_def dpapi_ok_def gcm_ok_def clear_env_def source_fails_def)

subsection \<open>Properties\<close>

text \<open>C12: a non-empty secret is encrypted to a string that the program recognises as encrypted
  and decrypts to the same secret, on every platform, unless the platform's source of
  protection or randomness fails, in which case the result is the empty string.\<close>

theorem crypto_roundtrip:
  assumes "crypto_ok pf env" "p \<noteq> []"
  shows "if source_fails pf env p then encrypt pf env p = []
    else is_encrypted (encrypt pf env p) \<and> decrypt pf env (encrypt pf env p) = p"
  using encrypt_outcomes [OF assms] .

theorem crypto_roundtrip_witness:
  "is_encrypted (encrypt Linux clear_env ''hunter2'') \<and>
   decrypt Linux clear_env (encrypt Linux clear_env ''hunter2'') = ''hunter2''"
  using crypto_roundtrip [of Linux clear_env "''hunter2''"] clear_env_ok by simp



end
