(* ===== verification/Ring.thy ===== *)
theory Ring
  imports Prelude
begin

text \<open>
  The bounded history that \<^verbatim>\<open>ffi_recorder\<close>, \<^verbatim>\<open>console_capture\<close> and \<^verbatim>\<open>exception_capture\<close>
  (\<^verbatim>\<open>src/mep\<close>) keep of the last \<^verbatim>\<open>RING_SIZE\<close> entries: a vector that first grows and is then
  overwritten in place.  The three classes repeat the code with different sizes and filters; the
  size is the argument \<open>N\<close>.  The abstraction of a ring is the list of everything that was
  ever recorded.
\<close>

record 'a ring =
  m_ring :: "'a list"
  m_write_pos :: nat

definition ring_empty :: "'a ring" where
  "ring_empty = \<lparr>m_ring = [], m_write_pos = 0\<rparr>"

definition ring_push :: "nat \<Rightarrow> 'a \<Rightarrow> 'a ring \<Rightarrow> 'a ring" where
  "ring_push N entry r =
     (let ring' = (if length (m_ring r) < N then m_ring r @ [entry]
                   else (m_ring r)[m_write_pos r mod N := entry]) in
      \<lparr>m_ring = ring', m_write_pos = m_write_pos r + 1\<rparr>)"

text \<open>The index visited in round \<open>i\<close> and the loop, with the number of rounds left as the recursion
  argument.\<close>

definition ring_idx :: "nat \<Rightarrow> 'a ring \<Rightarrow> nat \<Rightarrow> nat" where
  "ring_idx N r i =
     (let total = length (m_ring r);
          start = (if m_write_pos r > 0 then m_write_pos r - 1 else 0) in
      if total < N then total - 1 - i else (start - i + N) mod N)"

fun recent_loop :: "nat \<Rightarrow> 'a ring \<Rightarrow> ('a \<Rightarrow> bool) \<Rightarrow> nat \<Rightarrow> nat \<Rightarrow> nat \<Rightarrow> 'a list \<Rightarrow> 'a list" where
  "recent_loop N r P mx 0 i out = out"
| "recent_loop N r P mx (Suc k) i out =
     (if length out < mx
      then let e = m_ring r ! ring_idx N r i in
           recent_loop N r P mx k (i + 1) (if P e then out @ [e] else out)
      else out)"

definition ring_recent :: "nat \<Rightarrow> 'a ring \<Rightarrow> ('a \<Rightarrow> bool) \<Rightarrow> nat \<Rightarrow> 'a list" where
  "ring_recent N r P mx = rev (recent_loop N r P mx (length (m_ring r)) 0 [])"

subsection \<open>Refinement of the history\<close>

definition lastn :: "nat \<Rightarrow> 'a list \<Rightarrow> 'a list" where
  "lastn n xs = drop (length xs - n) xs"

text \<open>The ring holds the last \<open>N\<close> entries of the history, the entry number \<open>p\<close> in cell
  \<open>p mod N\<close>.\<close>

definition ring_holds :: "nat \<Rightarrow> 'a ring \<Rightarrow> 'a list \<Rightarrow> bool" where
  "ring_holds N r h \<longleftrightarrow> m_write_pos r = length h \<and> length (m_ring r) = min (length h) N \<and>
     (\<forall>p < length h. length h \<le> p + N \<longrightarrow> m_ring r ! (p mod N) = h ! p)"

lemma ring_holds_empty: "ring_holds N ring_empty []"
  by (simp add: ring_holds_def ring_empty_def)

lemma ring_holds_push:
  assumes "0 < N" "ring_holds N r h"
  shows "ring_holds N (ring_push N e r) (h @ [e])"
proof -
  have r: "m_write_pos r = length h" "length (m_ring r) = min (length h) N"
    "\<And>p. p < length h \<Longrightarrow> length h \<le> p + N \<Longrightarrow> m_ring r ! (p mod N) = h ! p"
    using assms(2) by (auto simp: ring_holds_def)
  have "m_ring (ring_push N e r) ! (p mod N) = (h @ [e]) ! p"
    if p: "p < length (h @ [e])" "length (h @ [e]) \<le> p + N" for p
  proof (cases "length h < N")
    case True
    with p r show ?thesis
      by (cases "p = length h") (auto simp: ring_push_def nth_append)
  next
    case False
    then have full: "length (m_ring r) = N" using r by simp
    show ?thesis
    proof (cases "p = length h")
      case True
      with full assms(1) r show ?thesis by (simp add: ring_push_def)
    next
      case lt: False
      then have "p < length h" using p by simp
      moreover have "p mod N \<noteq> length h mod N"
      proof
        assume eq: "p mod N = length h mod N"
        then have "N dvd length h - p"
          using \<open>p < length h\<close> by (metis less_imp_le_nat mod_eq_dvd_iff_nat)
        moreover have "0 < length h - p" "length h - p < N"
          using \<open>p < length h\<close> p by auto
        ultimately show False by (simp add: nat_dvd_not_less)
      qed
      ultimately show ?thesis
        using r full p by (simp add: ring_push_def nth_append)
    qed
  qed
  with r show ?thesis
    by (auto simp: ring_holds_def ring_push_def)
qed

text \<open>Round \<open>i\<close> of the loop visits the \<open>i\<close>-th newest entry.\<close>

lemma ring_idx_visits:
  assumes "0 < N" "ring_holds N r h" "i < length (m_ring r)"
  shows "m_ring r ! ring_idx N r i = rev h ! i"
proof -
  have r: "m_write_pos r = length h" "length (m_ring r) = min (length h) N"
    "\<And>p. p < length h \<Longrightarrow> length h \<le> p + N \<Longrightarrow> m_ring r ! (p mod N) = h ! p"
    using assms(2) by (auto simp: ring_holds_def)
  let ?p = "length h - 1 - i"
  have p: "?p < length h" "length h \<le> ?p + N"
    using assms(3) r(2) by auto
  have "ring_idx N r i = ?p mod N"
  proof (cases "length h < N")
    case True
    with r show ?thesis by (simp add: ring_idx_def)
  next
    case False
    with r assms show ?thesis by (simp add: ring_idx_def)
  qed
  with r(3) [OF p] show ?thesis
    using assms(3) r(2) by (simp add: rev_nth)
qed

lemma recent_loop_take:
  assumes "\<And>j. i \<le> j \<Longrightarrow> j < i + k \<Longrightarrow> m_ring r ! ring_idx N r j = ys ! j" "i + k \<le> length ys"
    "length out \<le> mx"
  shows "recent_loop N r P mx k i out = take mx (out @ filter P (take k (drop i ys)))"
  using assms
proof (induction k arbitrary: i out)
  case (Suc k)
  have "take (Suc k) (drop i ys) = ys ! i # take k (drop (Suc i) ys)"
    using Suc.prems by (simp add: Cons_nth_drop_Suc [symmetric])
  moreover have "m_ring r ! ring_idx N r i = ys ! i" using Suc.prems by simp
  ultimately show ?case
    using Suc by (auto simp: Let_def take_Cons' Suc_diff_Suc)
qed simp

lemma ring_recent_history:
  assumes "0 < N" "ring_holds N r h"
  shows "ring_recent N r P mx = lastn mx (filter P (lastn N h))"
proof -
  have len: "length (m_ring r) = min (length h) N"
    using assms(2) by (simp add: ring_holds_def)
  have "recent_loop N r P mx (length (m_ring r)) 0 [] = take mx (filter P (take (length (m_ring r)) (rev h)))"
    using recent_loop_take [of 0 "length (m_ring r)" r N "rev h" "[]" mx P] ring_idx_visits [OF assms]
    by (simp add: len)
  moreover have "take (length (m_ring r)) (rev h) = rev (lastn N h)"
    by (auto simp: len lastn_def take_rev min_def)
  ultimately show ?thesis
    by (simp add: ring_recent_def rev_filter [symmetric] take_rev lastn_def)
qed

subsection \<open>The contract\<close>

locale history_log =
  fixes N :: nat
    and empty :: 'r
    and push :: "'a \<Rightarrow> 'r \<Rightarrow> 'r"
    and recent :: "'r \<Rightarrow> ('a \<Rightarrow> bool) \<Rightarrow> nat \<Rightarrow> 'a list"
    and holds :: "'r \<Rightarrow> 'a list \<Rightarrow> bool"
  assumes empty_holds: "holds empty []"
    and push_holds: "holds r h \<Longrightarrow> holds (push e r) (h @ [e])"
    and recent_holds: "holds r h \<Longrightarrow> recent r P mx = lastn mx (filter P (lastn N h))"
begin

lemma fold_holds: "holds (fold push es empty) es"
  by (induction es rule: rev_induct) (auto simp: empty_holds push_holds)

lemma recent_fold: "recent (fold push es empty) P mx = lastn mx (filter P (lastn N es))"
  by (rule recent_holds [OF fold_holds])

lemma recent_bounded: "holds r h \<Longrightarrow> length (recent r P mx) \<le> min mx N"
proof -
  assume "holds r h"
  then have "recent r P mx = lastn mx (filter P (lastn N h))"
    by (rule recent_holds)
  moreover have "length (filter P (lastn N h)) \<le> N"
    by (rule order_trans [OF length_filter_le]) (simp add: lastn_def)
  ultimately show ?thesis
    using diff_le_self by (simp add: lastn_def) linarith
qed

end

end
