(* ===== verification/Listeners.thy ===== *)
theory Listeners
  imports Prelude
begin

text \<open>
  Numbered listeners: the table \<^verbatim>\<open>m_listeners\<close> with its counter \<^verbatim>\<open>m_id_counter\<close>, which the event
  buses and the recorders of \<^verbatim>\<open>src/mep\<close> share as a pattern.  A listener is what the table stores
  under the id: the callback, named by a number, and for the recorders the plugin it is
  interested in.  The counters are unbounded here; the program would have to register
  $2^{31}$ listeners before the difference shows.
\<close>

record 'l registry =
  m_listeners :: "(nat \<times> 'l) list"
  m_id_counter :: nat

definition registry_empty :: "'l registry" where
  "registry_empty = \<lparr>m_listeners = [], m_id_counter = 0\<rparr>"

definition registry_add :: "'l \<Rightarrow> 'l registry \<Rightarrow> nat \<times> 'l registry" where
  "registry_add l r =
     (let ident = m_id_counter r + 1 in
      (ident, r\<lparr>m_listeners := (ident, l) # filter (\<lambda>(i, _). i \<noteq> ident) (m_listeners r),
                m_id_counter := ident\<rparr>))"

definition registry_remove :: "nat \<Rightarrow> 'l registry \<Rightarrow> 'l registry" where
  "registry_remove ident r = r\<lparr>m_listeners := filter (\<lambda>(i, _). i \<noteq> ident) (m_listeners r)\<rparr>"

definition registry_ok :: "'l registry \<Rightarrow> bool" where
  "registry_ok r \<longleftrightarrow> distinct (map fst (m_listeners r)) \<and>
     (\<forall>i \<in> fst ` set (m_listeners r). 0 < i \<and> i \<le> m_id_counter r)"

lemma map_of_filter_neq: "map_of (filter (\<lambda>(i, _). i \<noteq> k) xs) = (map_of xs)(k := None)"
  by (induction xs) auto

lemma registry_empty_ok [simp]: "registry_ok registry_empty"
  by (simp add: registry_ok_def registry_empty_def)

lemma registry_add_ok: "registry_ok r \<Longrightarrow> registry_ok (snd (registry_add l r))"
  by (auto simp: registry_ok_def registry_add_def Let_def distinct_map filter_id_conv
      intro: inj_on_subset)

lemma registry_remove_ok: "registry_ok r \<Longrightarrow> registry_ok (registry_remove ident r)"
  by (auto simp: registry_ok_def registry_remove_def distinct_map intro: inj_on_subset)

lemma registry_add_fresh: "registry_ok r \<Longrightarrow> fst (registry_add l r) \<notin> fst ` set (m_listeners r)"
  by (auto simp: registry_ok_def registry_add_def Let_def)

lemma registry_add_lookup:
  "registry_ok r \<Longrightarrow> map_of (m_listeners (snd (registry_add l r))) =
     (map_of (m_listeners r))(fst (registry_add l r) \<mapsto> l)"
  by (auto simp: registry_add_def Let_def map_of_filter_neq fun_eq_iff)

lemma registry_remove_lookup:
  "map_of (m_listeners (registry_remove ident r)) = (map_of (m_listeners r))(ident := None)"
  by (simp add: registry_remove_def map_of_filter_neq)

subsection \<open>The contract\<close>

text \<open>A component with listeners: its states, the listeners registered in a state, registering and
  removing.  The id that registering returns is new, and the two operations change nothing
  else in the table.\<close>

locale listener_table =
  fixes ok :: "'s \<Rightarrow> bool"
    and listeners :: "'s \<Rightarrow> 'i \<rightharpoonup> 'l"
    and add :: "'l \<Rightarrow> 's \<Rightarrow> 'i \<times> 's"
    and remove :: "'i \<Rightarrow> 's \<Rightarrow> 's"
  assumes add_fresh: "ok s \<Longrightarrow> listeners s (fst (add l s)) = None"
    and add_listeners: "ok s \<Longrightarrow> listeners (snd (add l s)) = (listeners s)(fst (add l s) \<mapsto> l)"
    and add_ok: "ok s \<Longrightarrow> ok (snd (add l s))"
    and remove_listeners: "ok s \<Longrightarrow> listeners (remove i s) = (listeners s)(i := None)"
    and remove_ok: "ok s \<Longrightarrow> ok (remove i s)"
begin

lemma remove_undoes_add:
  assumes "ok s"
  shows "listeners (remove (fst (add l s)) (snd (add l s))) = listeners s"
  using add_fresh [OF assms, of l] add_listeners [OF assms, of l]
  by (auto simp: remove_listeners [OF add_ok [OF assms]] fun_eq_iff)

lemma add_keeps_others:
  assumes "ok s" "listeners s i = Some k"
  shows "listeners (snd (add l s)) i = Some k"
proof -
  have "i \<noteq> fst (add l s)"
    using add_fresh [OF assms(1), of l] assms(2) by auto
  with assms add_listeners [OF assms(1), of l] show ?thesis by simp
qed

lemma two_adds_distinct:
  assumes "ok s"
  shows "fst (add l' (snd (add l s))) \<noteq> fst (add l s)"
proof
  assume "fst (add l' (snd (add l s))) = fst (add l s)"
  then show False
    using add_fresh [OF add_ok [OF assms], of l l'] add_listeners [OF assms, of l] by simp
qed

end

interpretation reg: listener_table registry_ok "\<lambda>r. map_of (m_listeners r)" registry_add registry_remove
proof
  show "map_of (m_listeners s) (fst (registry_add l s)) = None" if "registry_ok s"
    for s :: "'a registry" and l
    using registry_add_fresh [OF that, of l] by (simp add: map_of_eq_None_iff)
qed (simp_all add: registry_add_lookup registry_add_ok registry_remove_lookup registry_remove_ok)

end
