(* ===== verification/Json.thy ===== *)
theory Json
  imports Complex_Main Prelude
begin

text \<open>
  The JSON values the program passes around.  The library behind them (nlohmann::json) is not part
  of the repository; this theory only fixes the data and the documented access functions the
  components use: objects keep their keys in ascending order, \<^verbatim>\<open>contains\<close> is false on anything
  but an object, \<^verbatim>\<open>value(key, default)\<close> reads a key with a default, and a range-for visits the
  elements of an array, the values of an object, nothing of null, and a scalar itself.
\<close>

datatype json =
    JNull
  | JBool bool
  | JInt int
  | JFloat rat
  | JStr string
  | JArr "json list"
  | JObj "(string \<times> json) list"

fun is_object :: "json \<Rightarrow> bool" where
  "is_object (JObj kvs) = True"
| "is_object _ = False"

fun is_string :: "json \<Rightarrow> bool" where
  "is_string (JStr s) = True"
| "is_string _ = False"

fun is_array :: "json \<Rightarrow> bool" where
  "is_array (JArr xs) = True"
| "is_array _ = False"

fun is_number_integer :: "json \<Rightarrow> bool" where
  "is_number_integer (JInt i) = True"
| "is_number_integer _ = False"

fun is_bool :: "json \<Rightarrow> bool" where
  "is_bool (JBool b) = True"
| "is_bool _ = False"

fun json_members :: "json \<Rightarrow> (string \<times> json) list" where
  "json_members (JObj kvs) = kvs"
| "json_members _ = []"

lemma json_members_size [termination_simp]:
  "size_list (\<lambda>p. size (snd p)) (json_members j) \<le> size j"
proof (cases j)
  case (JObj kvs)
  have "size_list (\<lambda>p. size (snd p)) kvs \<le> size_list (\<lambda>p. case p of (k, v) \<Rightarrow> Suc (size v)) kvs"
    by (rule size_list_pointwise) (auto split: prod.splits)
  then show ?thesis
    unfolding JObj json_members.simps json.size
    by (rule order_trans) (auto intro!: le_SucI size_list_pointwise split: prod.splits)
qed simp_all

definition json_find :: "string \<Rightarrow> json \<Rightarrow> json option" where
  "json_find k j = map_of (json_members j) k"

definition json_contains :: "string \<Rightarrow> json \<Rightarrow> bool" where
  "json_contains k j \<longleftrightarrow> json_find k j \<noteq> None"

fun json_elems :: "json \<Rightarrow> json list" where
  "json_elems (JArr xs) = xs"
| "json_elems (JObj kvs) = map snd kvs"
| "json_elems JNull = []"
| "json_elems j = [j]"

fun as_string :: "json \<Rightarrow> string option" where
  "as_string (JStr s) = Some s"
| "as_string _ = None"

fun as_int :: "json \<Rightarrow> int option" where
  "as_int (JInt i) = Some i"
| "as_int _ = None"

fun as_bool :: "json \<Rightarrow> bool option" where
  "as_bool (JBool b) = Some b"
| "as_bool _ = None"

text \<open>\<^verbatim>\<open>j.value(key, default)\<close> for strings, booleans, integers and values.\<close>

definition value_string :: "string \<Rightarrow> string \<Rightarrow> json \<Rightarrow> string result" where
  "value_string key def j =
     (if \<not> is_object j then Throw ''type_error.306''
      else case json_find key j of
             None \<Rightarrow> Return def
           | Some v \<Rightarrow> (case as_string v of None \<Rightarrow> Throw ''type_error.302'' | Some s \<Rightarrow> Return s))"

definition value_bool :: "string \<Rightarrow> bool \<Rightarrow> json \<Rightarrow> bool result" where
  "value_bool key def j =
     (if \<not> is_object j then Throw ''type_error.306''
      else case json_find key j of
             None \<Rightarrow> Return def
           | Some v \<Rightarrow> (case as_bool v of None \<Rightarrow> Throw ''type_error.302'' | Some s \<Rightarrow> Return s))"

text \<open>Numbers are converted as by a cast to \<^verbatim>\<open>int\<close>; a real number is taken to be in its range.\<close>

fun get_int :: "json \<Rightarrow> int result" where
  "get_int (JInt i) = Return (signed_take_bit 31 i)"
| "get_int (JFloat r) = Return (if r \<ge> 0 then \<lfloor>r\<rfloor> else \<lceil>r\<rceil>)"
| "get_int (JBool b) = Return (if b then 1 else 0)"
| "get_int _ = Throw ''type_error.302''"

definition value_int :: "string \<Rightarrow> int \<Rightarrow> json \<Rightarrow> int result" where
  "value_int key def j =
     (if \<not> is_object j then Throw ''type_error.306''
      else case json_find key j of None \<Rightarrow> Return def | Some v \<Rightarrow> get_int v)"

definition value_any :: "string \<Rightarrow> json \<Rightarrow> json \<Rightarrow> json result" where
  "value_any key def j =
     (if \<not> is_object j then Throw ''type_error.306''
      else case json_find key j of None \<Rightarrow> Return def | Some v \<Rightarrow> Return v)"

text \<open>Writing a member, in key order.\<close>

fun obj_put :: "string \<Rightarrow> 'v \<Rightarrow> (string \<times> 'v) list \<Rightarrow> (string \<times> 'v) list" where
  "obj_put k v [] = [(k, v)]"
| "obj_put k v ((k', v') # kvs) =
     (if k < k' then (k, v) # (k', v') # kvs
      else if k = k' then (k, v) # kvs
      else (k', v') # obj_put k v kvs)"

definition obj_erase :: "string \<Rightarrow> (string \<times> 'v) list \<Rightarrow> (string \<times> 'v) list" where
  "obj_erase k kvs = filter (\<lambda>(k', _). k' \<noteq> k) kvs"

abbreviation obj_sorted :: "(string \<times> 'v) list \<Rightarrow> bool" where
  "obj_sorted kvs \<equiv> sorted_wrt (<) (map fst kvs)"

lemma obj_put_lookup [alist_simps]:
  "map_of (obj_put k v kvs) = (map_of kvs)(k \<mapsto> v)" if "obj_sorted kvs"
  using that
proof (induction kvs)
  case (Cons p kvs)
  obtain k' v' where p: "p = (k', v')" by (cases p)
  have "map_of kvs k = None" if "k < k'"
    using Cons.prems that by (auto simp: p map_of_eq_None_iff)
  with Cons p show ?case by (auto simp: fun_eq_iff)
qed simp

lemma obj_put_keys: "set (map fst (obj_put k v kvs)) = insert k (set (map fst kvs))"
proof (induction kvs)
  case (Cons p kvs)
  then show ?case by (cases p) (simp add: insert_commute)
qed simp

lemma obj_put_sorted: "obj_sorted kvs \<Longrightarrow> obj_sorted (obj_put k v kvs)"
proof (induction kvs)
  case (Cons p kvs)
  obtain k' v' where p: "p = (k', v')" by (cases p)
  show ?case
    using Cons obj_put_keys [of k v kvs] by (auto simp: p)
qed simp

lemma obj_erase_lookup [alist_simps]: "map_of (obj_erase k kvs) = (map_of kvs)(k := None)"
  by (induction kvs) (auto simp: obj_erase_def)

lemma obj_erase_sorted: "obj_sorted kvs \<Longrightarrow> obj_sorted (obj_erase k kvs)"
  by (induction kvs) (auto simp: obj_erase_def)

text \<open>Every object inside a value is sorted.\<close>

fun json_sorted :: "json \<Rightarrow> bool" where
  "json_sorted (JArr xs) = list_all json_sorted xs"
| "json_sorted (JObj kvs) = (obj_sorted kvs \<and> list_all (\<lambda>(_, v). json_sorted v) kvs)"
| "json_sorted _ = True"

end
