(* ===== verification/MepCapture.thy ===== *)
theory MepCapture
  imports Ring Listeners Json
begin

text \<open>
  The recorders of the developer protocol: \<^verbatim>\<open>src/mep/ffi_recorder.cc\<close>,
  \<^verbatim>\<open>src/mep/console_capture.cc\<close> and \<^verbatim>\<open>src/mep/exception_capture.cc\<close>.  Each has a ring of
  recent entries and a table of listeners; recording an entry stores it and calls the listeners
  that want it.  The callbacks are numbers; the model of a recording returns the callbacks
  called (an exception thrown by one is swallowed by the code and does not stop the others).
\<close>

record ffi_call_entry =
  fc_plugin :: string
  fc_method :: string
  fc_direction :: string
  fc_args :: string
  fc_result :: string
  fc_duration_ms :: rat
  fc_timestamp :: int
  fc_caller :: string

record console_entry =
  co_plugin :: string
  co_raw :: json

record exception_entry =
  ex_plugin :: string
  ex_raw :: json

type_synonym plugin_listener = "string \<times> nat"

record 'e recorder =
  rec_ring :: "'e ring"
  rec_registry :: "plugin_listener registry"

definition recorder_init :: "'e recorder" where
  "recorder_init = \<lparr>rec_ring = ring_empty, rec_registry = registry_empty\<rparr>"

subsection \<open>Operations of the three classes\<close>

text \<open>The common code: \<open>wants p e\<close> is the test that the class applies to a plugin name and an
  entry.\<close>

definition recorder_record ::
    "nat \<Rightarrow> (string \<Rightarrow> 'e \<Rightarrow> bool) \<Rightarrow> 'e \<Rightarrow> 'e recorder \<Rightarrow> 'e recorder \<times> nat list" where
  "recorder_record N wants entry s =
     (let s' = s\<lparr>rec_ring := ring_push N entry (rec_ring s)\<rparr>;
          targets = [cb. (_, p, cb) \<leftarrow> m_listeners (rec_registry s'), wants p entry] in
      (s', targets))"

definition recorder_get_recent ::
    "nat \<Rightarrow> (string \<Rightarrow> 'e \<Rightarrow> bool) \<Rightarrow> 'e recorder \<Rightarrow> string \<Rightarrow> nat \<Rightarrow> 'e list" where
  "recorder_get_recent N wants s plugin mx = ring_recent N (rec_ring s) (wants plugin) mx"

definition recorder_add_listener :: "string \<Rightarrow> nat \<Rightarrow> 'e recorder \<Rightarrow> nat \<times> 'e recorder" where
  "recorder_add_listener plugin cb s =
     (let (ident, r) = registry_add (plugin, cb) (rec_registry s) in (ident, s\<lparr>rec_registry := r\<rparr>))"

definition recorder_remove_listener :: "nat \<Rightarrow> 'e recorder \<Rightarrow> 'e recorder" where
  "recorder_remove_listener ident s = s\<lparr>rec_registry := registry_remove ident (rec_registry s)\<rparr>"

definition ffi_wants :: "string \<Rightarrow> ffi_call_entry \<Rightarrow> bool" where
  "ffi_wants plugin e \<longleftrightarrow> fc_plugin e = plugin"

definition console_wants :: "string \<Rightarrow> console_entry \<Rightarrow> bool" where
  "console_wants plugin e \<longleftrightarrow> co_plugin e = plugin"

definition exception_wants :: "string \<Rightarrow> exception_entry \<Rightarrow> bool" where
  "exception_wants plugin e \<longleftrightarrow> plugin = [] \<or> ex_plugin e = plugin"

definition ffi_record :: "ffi_call_entry \<Rightarrow> ffi_call_entry recorder \<Rightarrow> ffi_call_entry recorder \<times> nat list" where
  "ffi_record = recorder_record 512 ffi_wants"

definition ffi_get_recent :: "ffi_call_entry recorder \<Rightarrow> string \<Rightarrow> nat \<Rightarrow> ffi_call_entry list" where
  "ffi_get_recent = recorder_get_recent 512 ffi_wants"

definition ffi_add_listener :: "string \<Rightarrow> nat \<Rightarrow> ffi_call_entry recorder \<Rightarrow> nat \<times> ffi_call_entry recorder" where
  "ffi_add_listener = recorder_add_listener"

definition ffi_remove_listener :: "nat \<Rightarrow> ffi_call_entry recorder \<Rightarrow> ffi_call_entry recorder" where
  "ffi_remove_listener = recorder_remove_listener"

text \<open>What the attribution reads of a plugin: its name, its directory in generic form and whether
  it is one of the built-in ones.\<close>

record plugin_dir =
  pd_name :: string
  pd_base :: string
  pd_internal :: bool

definition url_in_plugin :: "string \<Rightarrow> plugin_dir \<Rightarrow> bool" where
  "url_in_plugin url p \<longleftrightarrow> \<not> pd_internal p \<and> pd_base p \<noteq> [] \<and> find_str (pd_base p) url \<noteq> None"

definition frame_urls :: "json \<Rightarrow> string list" where
  "frame_urls holder =
     (case json_find ''stackTrace'' holder of
        None \<Rightarrow> []
      | Some st \<Rightarrow> (case json_find ''callFrames'' st of
          None \<Rightarrow> []
        | Some frames \<Rightarrow>
            List.map_filter (\<lambda>frame. Option.bind (json_find ''url'' frame) as_string)
              (json_elems frames)))"

text \<open>\<^verbatim>\<open>console_capture::attribute_plugin\<close>: the first plugin that matches the first frame with a
  match; \<open>None\<close> stands for a missing plugin manager.\<close>

fun first_plugin_of_urls :: "plugin_dir list \<Rightarrow> string list \<Rightarrow> string option" where
  "first_plugin_of_urls plugins [] = None"
| "first_plugin_of_urls plugins (url # urls) =
     (case find (url_in_plugin url) plugins of
        Some p \<Rightarrow> Some (pd_name p)
      | None \<Rightarrow> first_plugin_of_urls plugins urls)"

definition console_attribute_plugin :: "plugin_dir list option \<Rightarrow> json \<Rightarrow> string" where
  "console_attribute_plugin pm ev =
     (case pm of
        None \<Rightarrow> ''cloude''
      | Some plugins \<Rightarrow>
          (case first_plugin_of_urls plugins (frame_urls ev) of
             Some name \<Rightarrow> name | None \<Rightarrow> ''cloude''))"

text \<open>\<^verbatim>\<open>exception_capture::attribute_plugin\<close> tries the URL of the exception before the stack
  frames; a match with an empty name counts as no match.\<close>

definition check_url :: "plugin_dir list \<Rightarrow> string \<Rightarrow> string" where
  "check_url plugins url =
     (case find (url_in_plugin url) plugins of Some p \<Rightarrow> pd_name p | None \<Rightarrow> [])"

definition exception_attribute_plugin :: "plugin_dir list option \<Rightarrow> json \<Rightarrow> string" where
  "exception_attribute_plugin pm ev =
     (case pm of
        None \<Rightarrow> ''cloude''
      | Some plugins \<Rightarrow>
          (case json_find ''exceptionDetails'' ev of
             None \<Rightarrow> ''cloude''
           | Some details \<Rightarrow>
               let direct = (case Option.bind (json_find ''url'' details) as_string of
                               Some url \<Rightarrow> [url] | None \<Rightarrow> []) in
               (case find (\<lambda>n. n \<noteq> []) (map (check_url plugins) (direct @ frame_urls details)) of
                  Some name \<Rightarrow> name | None \<Rightarrow> ''cloude'')))"

definition on_console_event ::
    "plugin_dir list option \<Rightarrow> json \<Rightarrow> console_entry recorder \<Rightarrow> console_entry recorder \<times> nat list" where
  "on_console_event pm ev =
     recorder_record 512 console_wants \<lparr>co_plugin = console_attribute_plugin pm ev, co_raw = ev\<rparr>"

definition console_get_recent :: "console_entry recorder \<Rightarrow> string \<Rightarrow> nat \<Rightarrow> console_entry list" where
  "console_get_recent = recorder_get_recent 512 console_wants"

definition console_add_listener :: "string \<Rightarrow> nat \<Rightarrow> console_entry recorder \<Rightarrow> nat \<times> console_entry recorder" where
  "console_add_listener = recorder_add_listener"

definition console_remove_listener :: "nat \<Rightarrow> console_entry recorder \<Rightarrow> console_entry recorder" where
  "console_remove_listener = recorder_remove_listener"

definition on_exception_event ::
    "plugin_dir list option \<Rightarrow> json \<Rightarrow> exception_entry recorder \<Rightarrow> exception_entry recorder \<times> nat list" where
  "on_exception_event pm ev =
     recorder_record 256 exception_wants \<lparr>ex_plugin = exception_attribute_plugin pm ev, ex_raw = ev\<rparr>"

definition exception_get_recent :: "exception_entry recorder \<Rightarrow> string \<Rightarrow> nat \<Rightarrow> exception_entry list" where
  "exception_get_recent = recorder_get_recent 256 exception_wants"

definition exception_add_listener :: "string \<Rightarrow> nat \<Rightarrow> exception_entry recorder \<Rightarrow> nat \<times> exception_entry recorder" where
  "exception_add_listener = recorder_add_listener"

definition exception_remove_listener :: "nat \<Rightarrow> exception_entry recorder \<Rightarrow> exception_entry recorder" where
  "exception_remove_listener = recorder_remove_listener"

subsection \<open>Runs\<close>

datatype 'e rec_op = Record 'e | AddListener string nat | RemoveListener nat

fun recorder_step :: "nat \<Rightarrow> (string \<Rightarrow> 'e \<Rightarrow> bool) \<Rightarrow> 'e rec_op \<Rightarrow> 'e recorder \<Rightarrow> 'e recorder" where
  "recorder_step N wants (Record e) s = fst (recorder_record N wants e s)"
| "recorder_step N wants (AddListener p cb) s = snd (recorder_add_listener p cb s)"
| "recorder_step N wants (RemoveListener i) s = recorder_remove_listener i s"

fun recorded :: "'e rec_op list \<Rightarrow> 'e list" where
  "recorded [] = []"
| "recorded (Record e # ops) = e # recorded ops"
| "recorded (_ # ops) = recorded ops"

definition recorder_run :: "nat \<Rightarrow> (string \<Rightarrow> 'e \<Rightarrow> bool) \<Rightarrow> 'e rec_op list \<Rightarrow> 'e recorder \<Rightarrow> 'e recorder" where
  "recorder_run N wants ops s = fold (recorder_step N wants) ops s"

interpretation ffi_log: history_log 512 ring_empty "ring_push 512" "ring_recent 512" "ring_holds 512"
  by unfold_locales (simp_all add: ring_holds_empty ring_holds_push ring_recent_history)

interpretation exception_log: history_log 256 ring_empty "ring_push 256" "ring_recent 256" "ring_holds 256"
  by unfold_locales (simp_all add: ring_holds_empty ring_holds_push ring_recent_history)

definition recorder_ok :: "'e recorder \<Rightarrow> bool" where
  "recorder_ok s \<longleftrightarrow> registry_ok (rec_registry s)"

definition recorder_listeners :: "'e recorder \<Rightarrow> nat \<rightharpoonup> plugin_listener" where
  "recorder_listeners s = map_of (m_listeners (rec_registry s))"

interpretation rec_tab: listener_table recorder_ok recorder_listeners
  "\<lambda>(p, cb). recorder_add_listener p cb" recorder_remove_listener
proof (unfold_locales, goal_cases)
  case (1 s l)
  then show ?case
    using reg.add_fresh [of "rec_registry s" l]
    by (auto simp: recorder_ok_def recorder_listeners_def recorder_add_listener_def split: prod.splits)
next
  case (2 s l)
  then show ?case
    using reg.add_listeners [of "rec_registry s" l]
    by (auto simp: recorder_ok_def recorder_listeners_def recorder_add_listener_def split: prod.splits)
next
  case (3 s l)
  then show ?case
    using reg.add_ok [of "rec_registry s" l]
    by (auto simp: recorder_ok_def recorder_add_listener_def split: prod.splits)
qed (simp_all add: recorder_ok_def recorder_listeners_def recorder_remove_listener_def
    reg.remove_listeners reg.remove_ok)

subsection \<open>Lemmas\<close>

lemma recorder_init_ok [simp]: "recorder_ok recorder_init"
  by (simp add: recorder_ok_def recorder_init_def)

lemma step_ring_holds:
  assumes "0 < N" "ring_holds N (rec_ring s) h"
  shows "ring_holds N (rec_ring (recorder_step N wants op s)) (h @ recorded [op])"
  using assms
  by (cases op) (simp_all add: recorder_record_def Let_def ring_holds_push recorder_add_listener_def
      recorder_remove_listener_def split: prod.splits)

lemma recorded_append: "recorded (xs @ ys) = recorded xs @ recorded ys"
  by (induction xs rule: recorded.induct) auto

lemma run_ring_holds:
  assumes "0 < N"
  shows "ring_holds N (rec_ring (recorder_run N wants ops recorder_init)) (recorded ops)"
proof (induction ops rule: rev_induct)
  case Nil
  show ?case by (simp add: recorder_run_def recorder_init_def ring_holds_empty)
next
  case (snoc op ops)
  with step_ring_holds [OF assms snoc, of wants op] show ?case
    by (simp add: recorder_run_def recorded_append)
qed

lemma step_ok: "recorder_ok s \<Longrightarrow> recorder_ok (recorder_step N wants op s)"
  using rec_tab.add_ok [of s] rec_tab.remove_ok [of s]
  by (cases op) (auto simp: recorder_record_def Let_def recorder_ok_def)

lemma run_ok: "recorder_ok s \<Longrightarrow> recorder_ok (recorder_run N wants ops s)"
  unfolding recorder_run_def by (induction ops arbitrary: s) (simp_all add: step_ok)

lemma step_keeps_listener:
  assumes "recorder_ok s" "recorder_listeners s i = Some l" "op \<noteq> RemoveListener i"
  shows "recorder_listeners (recorder_step N wants op s) i = Some l"
  using assms rec_tab.add_keeps_others [OF assms(1,2)] rec_tab.remove_listeners [OF assms(1)]
  by (cases op) (auto simp: recorder_record_def Let_def recorder_listeners_def)

lemma run_keeps_listener:
  assumes "recorder_ok s" "recorder_listeners s i = Some l" "RemoveListener i \<notin> set ops"
  shows "recorder_listeners (recorder_run N wants ops s) i = Some l"
  using assms unfolding recorder_run_def
  by (induction ops arbitrary: s) (auto simp: step_ok step_keeps_listener)

lemma record_targets:
  assumes "recorder_ok s"
  shows "set (snd (recorder_record N wants e s)) =
    {cb. \<exists>i p. recorder_listeners s i = Some (p, cb) \<and> wants p e}"
proof -
  have "distinct (map fst (m_listeners (rec_registry s)))"
    using assms by (simp add: recorder_ok_def registry_ok_def)
  then show ?thesis
    by (force simp: recorder_record_def Let_def recorder_listeners_def)
qed

subsection \<open>Properties\<close>

text \<open>C24: after any interleaving of recordings with registrations and removals of listeners, the
  recent entries that each of the three recorders returns for a plugin are the last ones of that
  plugin among the last 512 (calls, console messages) or 256 (exceptions) entries ever
  recorded, oldest first, at most as many as asked for; the exceptions of all plugins are
  returned for an empty plugin name.\<close>

theorem recorders_return_recent_history:
  "ffi_get_recent (recorder_run 512 ffi_wants ops recorder_init) p mx =
     lastn mx (filter (\<lambda>e. fc_plugin e = p) (lastn 512 (recorded ops))) \<and>
   console_get_recent (recorder_run 512 console_wants ops' recorder_init) p mx =
     lastn mx (filter (\<lambda>e. co_plugin e = p) (lastn 512 (recorded ops'))) \<and>
   exception_get_recent (recorder_run 256 exception_wants ops'' recorder_init) p mx =
     lastn mx (filter (\<lambda>e. p = [] \<or> ex_plugin e = p) (lastn 256 (recorded ops'')))"
  by (simp add: ffi_log.recent_holds [OF run_ring_holds] exception_log.recent_holds [OF run_ring_holds]
      ffi_get_recent_def console_get_recent_def exception_get_recent_def
      recorder_get_recent_def ffi_wants_def [abs_def] console_wants_def [abs_def]
      exception_wants_def [abs_def])

text \<open>C32: recording a call invokes exactly the callbacks of the listeners that are registered for
  its plugin; a listener stays registered, under an id that no other listener gets, through
  every sequence of operations that does not remove that id, and removing the id removes it.\<close>

theorem ffi_listener_delivery:
  fixes ops1 ops2 :: "ffi_call_entry rec_op list"
  assumes "RemoveListener i \<notin> set ops2"
    and "ffi_add_listener p cb (recorder_run 512 ffi_wants ops1 recorder_init) = (i, s)"
  defines "s' \<equiv> recorder_run 512 ffi_wants ops2 s"
  shows "recorder_listeners (recorder_run 512 ffi_wants ops1 recorder_init) i = None \<and>
    recorder_listeners s' i = Some (p, cb) \<and>
    set (snd (ffi_record e s')) = {c. \<exists>j q. recorder_listeners s' j = Some (q, c) \<and> fc_plugin e = q} \<and>
    recorder_listeners (ffi_remove_listener i s') i = None"
proof -
  let ?s1 = "recorder_run 512 ffi_wants ops1 recorder_init"
  have ok1: "recorder_ok ?s1" by (simp add: run_ok)
  have add: "recorder_listeners ?s1 i = None" "recorder_listeners s i = Some (p, cb)" "recorder_ok s"
    using rec_tab.add_fresh [OF ok1, of "(p, cb)"] rec_tab.add_listeners [OF ok1, of "(p, cb)"]
      rec_tab.add_ok [OF ok1, of "(p, cb)"] assms(2)
    by (simp_all add: ffi_add_listener_def)
  have "recorder_ok s'" "recorder_listeners s' i = Some (p, cb)"
    unfolding s'_def using add assms(1) by (auto intro: run_ok run_keeps_listener)
  with add show ?thesis
    by (simp add: ffi_record_def record_targets ffi_wants_def ffi_remove_listener_def
        rec_tab.remove_listeners)
qed

definition sample_call :: ffi_call_entry where
  "sample_call = \<lparr>fc_plugin = ''p'', fc_method = ''m'', fc_direction = ''fe_to_be'', fc_args = [],
     fc_result = [], fc_duration_ms = 0, fc_timestamp = 0, fc_caller = []\<rparr>"

theorem ffi_listener_delivery_witness:
  "\<exists>s. ffi_add_listener ''p'' 7 (recorder_run 512 ffi_wants [AddListener ''q'' 3] recorder_init) = (2, s) \<and>
     recorder_listeners (recorder_run 512 ffi_wants [Record sample_call, RemoveListener 1] s) 2 =
       Some (''p'', 7)"
proof -
  let ?s1 = "recorder_run 512 ffi_wants [AddListener ''q'' 3] recorder_init"
  have i: "fst (ffi_add_listener ''p'' 7 ?s1) = 2"
    by (simp add: recorder_run_def recorder_add_listener_def ffi_add_listener_def registry_add_def
        recorder_init_def registry_empty_def)
  then have "ffi_add_listener ''p'' 7 ?s1 = (2, snd (ffi_add_listener ''p'' 7 ?s1))"
    by (simp add: prod_eq_iff)
  moreover have "RemoveListener 2 \<notin> set [Record sample_call, RemoveListener 1]" by simp
  ultimately show ?thesis
    using ffi_listener_delivery by blast
qed

end
