(* ===== verification/MepBuses.thy ===== *)
theory MepBuses
  imports Listeners
begin

text \<open>
  The two event buses: plugin crashes (\<^verbatim>\<open>src/mep/crash_event_bus.cc\<close>) and SDK readiness
  (\<^verbatim>\<open>src/mep/sdk_ready_bus.cc\<close>).  An operation returns the pairs of callback and event it
  delivers.  Callbacks are numbers; an exception thrown by a callback is swallowed.
\<close>

record crash_event =
  ce_plugin_name :: string
  ce_exit_code :: int
  ce_crash_dump_dir :: string
  ce_display_name :: string

record crash_event_bus =
  crash_registry :: "nat registry"
  m_pending :: "crash_event list"
  m_crash_buffer :: "crash_event list"

type_synonym 'e deliveries = "(nat \<times> 'e) list"

definition crash_init :: crash_event_bus where
  "crash_init = \<lparr>crash_registry = registry_empty, m_pending = [], m_crash_buffer = []\<rparr>"

definition crash_notify :: "crash_event \<Rightarrow> crash_event_bus \<Rightarrow> crash_event_bus \<times> crash_event deliveries" where
  "crash_notify ev s =
     (let s1 = s\<lparr>m_crash_buffer := m_crash_buffer s @ [ev]\<rparr> in
      if m_listeners (crash_registry s1) = [] then (s1\<lparr>m_pending := m_pending s1 @ [ev]\<rparr>, [])
      else (s1, map (\<lambda>(_, fn). (fn, ev)) (m_listeners (crash_registry s1))))"

definition crash_add_listener ::
    "nat \<Rightarrow> crash_event_bus \<Rightarrow> (nat \<times> crash_event_bus) \<times> crash_event deliveries" where
  "crash_add_listener fn s =
     (let (ident, r) = registry_add fn (crash_registry s); to_replay = m_pending s in
      ((ident, s\<lparr>crash_registry := r, m_pending := []\<rparr>), map (\<lambda>ev. (fn, ev)) to_replay))"

definition crash_remove_listener :: "nat \<Rightarrow> crash_event_bus \<Rightarrow> crash_event_bus" where
  "crash_remove_listener ident s = s\<lparr>crash_registry := registry_remove ident (crash_registry s)\<rparr>"

definition get_pending_crashes :: "crash_event_bus \<Rightarrow> crash_event list" where
  "get_pending_crashes s = m_crash_buffer s"

definition acknowledge_crash :: "string \<Rightarrow> crash_event_bus \<Rightarrow> crash_event_bus" where
  "acknowledge_crash plugin_name s =
     s\<lparr>m_crash_buffer := filter (\<lambda>ev. ce_plugin_name ev \<noteq> plugin_name) (m_crash_buffer s)\<rparr>"

record sdk_ready_event =
  sdk_version :: string
  cloude_version :: string
  api_total :: int
  api_missing :: "string list"

record sdk_ready_bus =
  sdk_registry :: "nat registry"
  m_last :: "sdk_ready_event option"

definition sdk_init :: sdk_ready_bus where
  "sdk_init = \<lparr>sdk_registry = registry_empty, m_last = None\<rparr>"

definition sdk_notify :: "sdk_ready_event \<Rightarrow> sdk_ready_bus \<Rightarrow> sdk_ready_bus \<times> sdk_ready_event deliveries" where
  "sdk_notify ev s =
     (let s1 = s\<lparr>m_last := Some ev\<rparr> in
      (s1, map (\<lambda>(_, fn). (fn, ev)) (m_listeners (sdk_registry s1))))"

definition sdk_add_listener ::
    "nat \<Rightarrow> sdk_ready_bus \<Rightarrow> (nat \<times> sdk_ready_bus) \<times> sdk_ready_event deliveries" where
  "sdk_add_listener fn s =
     (let (ident, r) = registry_add fn (sdk_registry s); replay = m_last s in
      ((ident, s\<lparr>sdk_registry := r\<rparr>), (case replay of Some ev \<Rightarrow> [(fn, ev)] | None \<Rightarrow> [])))"

definition sdk_remove_listener :: "nat \<Rightarrow> sdk_ready_bus \<Rightarrow> sdk_ready_bus" where
  "sdk_remove_listener ident s = s\<lparr>sdk_registry := registry_remove ident (sdk_registry s)\<rparr>"

definition sdk_get_last :: "sdk_ready_bus \<Rightarrow> sdk_ready_event option" where
  "sdk_get_last s = m_last s"

subsection \<open>Both buses are listener tables\<close>

definition crash_listeners :: "crash_event_bus \<Rightarrow> nat \<rightharpoonup> nat" where
  "crash_listeners s = map_of (m_listeners (crash_registry s))"

definition sdk_listeners :: "sdk_ready_bus \<Rightarrow> nat \<rightharpoonup> nat" where
  "sdk_listeners s = map_of (m_listeners (sdk_registry s))"

interpretation crash_tab: listener_table "\<lambda>s. registry_ok (crash_registry s)" crash_listeners
  "\<lambda>fn s. fst (crash_add_listener fn s)" crash_remove_listener
  by unfold_locales
    (auto simp: crash_listeners_def crash_add_listener_def crash_remove_listener_def Let_def
      case_prod_unfold reg.remove_listeners reg.remove_ok reg.add_fresh reg.add_ok reg.add_listeners)

interpretation sdk_tab: listener_table "\<lambda>s. registry_ok (sdk_registry s)" sdk_listeners
  "\<lambda>fn s. fst (sdk_add_listener fn s)" sdk_remove_listener
  by unfold_locales
    (auto simp: sdk_listeners_def sdk_add_listener_def sdk_remove_listener_def Let_def
      case_prod_unfold reg.remove_listeners reg.remove_ok reg.add_fresh reg.add_ok reg.add_listeners)

subsection \<open>Runs of the crash bus\<close>

datatype crash_op = Notify crash_event | Listen nat | Unlisten nat | Acknowledge string

fun crash_step :: "crash_op \<Rightarrow> crash_event_bus \<times> crash_event deliveries \<Rightarrow> crash_event_bus \<times> crash_event deliveries" where
  "crash_step (Notify ev) (s, ds) = (let (s', d) = crash_notify ev s in (s', ds @ d))"
| "crash_step (Listen fn) (s, ds) = (let ((_, s'), d) = crash_add_listener fn s in (s', ds @ d))"
| "crash_step (Unlisten i) (s, ds) = (crash_remove_listener i s, ds)"
| "crash_step (Acknowledge n) (s, ds) = (acknowledge_crash n s, ds)"

definition crash_run :: "crash_op list \<Rightarrow> crash_event_bus \<times> crash_event deliveries" where
  "crash_run ops = fold crash_step ops (crash_init, [])"

fun notified :: "crash_op list \<Rightarrow> crash_event list" where
  "notified [] = []"
| "notified (Notify ev # ops) = ev # notified ops"
| "notified (_ # ops) = notified ops"

fun unacknowledged :: "crash_op list \<Rightarrow> crash_event list" where
  "unacknowledged [] = []"
| "unacknowledged (Notify ev # ops) =
     (if Acknowledge (ce_plugin_name ev) \<in> set ops then [] else [ev]) @ unacknowledged ops"
| "unacknowledged (_ # ops) = unacknowledged ops"

lemma notified_snoc: "notified (ops @ [op]) = notified ops @ notified [op]"
  by (induction ops rule: notified.induct) auto

lemma unacknowledged_snoc:
  "unacknowledged (ops @ [op]) =
     (case op of
        Notify ev \<Rightarrow> unacknowledged ops @ [ev]
      | Acknowledge n \<Rightarrow> filter (\<lambda>ev. ce_plugin_name ev \<noteq> n) (unacknowledged ops)
      | _ \<Rightarrow> unacknowledged ops)"
  by (induction ops rule: unacknowledged.induct) (auto split: crash_op.splits)

lemma crash_run_snoc: "crash_run (ops @ [op]) = crash_step op (crash_run ops)"
  by (simp add: crash_run_def)

lemma crash_run_buffer: "m_crash_buffer (fst (crash_run ops)) = unacknowledged ops"
proof (induction ops rule: rev_induct)
  case Nil
  show ?case by (simp add: crash_run_def crash_init_def)
next
  case (snoc op ops)
  obtain s ds where s: "crash_run ops = (s, ds)" by (cases "crash_run ops")
  with snoc show ?case
    by (cases op) (auto simp: crash_run_snoc unacknowledged_snoc crash_notify_def Let_def
        crash_add_listener_def crash_remove_listener_def acknowledge_crash_def split: prod.splits)
qed

lemma crash_run_not_lost:
  "set (notified ops) = snd ` set (snd (crash_run ops)) \<union> set (m_pending (fst (crash_run ops)))"
proof (induction ops rule: rev_induct)
  case Nil
  show ?case by (simp add: crash_run_def crash_init_def)
next
  case (snoc op ops)
  obtain s ds where s: "crash_run ops = (s, ds)" by (cases "crash_run ops")
  show ?case
  proof (cases op)
    case (Notify ev)
    have "snd ` (\<lambda>(_, fn). (fn, ev)) ` set xs = {ev}" if "xs \<noteq> []" for xs :: "(nat \<times> nat) list"
      using that by (cases xs) auto
    with snoc s Notify show ?thesis
      by (auto simp: crash_run_snoc notified_snoc crash_notify_def Let_def image_Un)
  qed (use snoc s in \<open>auto simp: crash_run_snoc notified_snoc crash_add_listener_def Let_def
        case_prod_unfold crash_remove_listener_def acknowledge_crash_def image_image image_Un\<close>)
qed

subsection \<open>Properties\<close>

text \<open>C33: under every sequence of notifications, registrations, removals and acknowledgements, no
  crash is lost: each notified crash has been delivered to a listener or waits to be
  replayed to the next one, and the crashes that the frontend can ask for are exactly the
  notified ones that were not acknowledged afterwards, in order.\<close>

theorem crash_events_kept:
  "set (notified ops) = snd ` set (snd (crash_run ops)) \<union> set (m_pending (fst (crash_run ops))) \<and>
   get_pending_crashes (fst (crash_run ops)) = unacknowledged ops"
  using crash_run_not_lost crash_run_buffer by (simp add: get_pending_crashes_def)



text \<open>Only the first listener gets the earlier events: a second one misses a crash that was
  delivered before it came, and a crash acknowledged before any listener exists is still
  replayed to the first.\<close>

lemma crash_replay_limits:
  "snd (crash_run [Listen 1, Notify ev, Listen 2]) = [(1, ev)]"
  "snd (crash_run [Notify ev, Acknowledge (ce_plugin_name ev), Listen 1]) = [(1, ev)]"
  by (simp_all add: crash_run_def crash_init_def crash_notify_def crash_add_listener_def
      acknowledge_crash_def registry_add_def registry_empty_def Let_def)

end
