(* ===== verification/Framing.thy ===== *)
theory Framing
  imports Json
begin

text \<open>
  Length-prefixed frames on stream sockets: \<^verbatim>\<open>recv_all\<close>, \<^verbatim>\<open>send_all\<close>, \<^verbatim>\<open>read_frame\<close> and
  \<^verbatim>\<open>write_frame\<close> of \<^verbatim>\<open>src/mep/mep_server.cc\<close> (limit 4 MB) and of
  \<^verbatim>\<open>include/cloude/plugin_ipc.h\<close> (limit 16 MB), which repeat each other.

  The operating system decides how many bytes a \<^verbatim>\<open>recv\<close> or \<^verbatim>\<open>send\<close> transfers: the socket
  carries a schedule of such decisions, and the theorems hold for every schedule.  A
  \<^verbatim>\<open>uint32_t\<close> is laid out in memory low byte first (the platforms of the program).
\<close>

subsection \<open>Sockets\<close>

text \<open>The receiving end: the bytes that will still arrive before the peer closes, and how many of
  them the next calls deliver (at least one while there are any).\<close>

record in_sock =
  incoming :: "byte list"
  recv_plan :: "nat list"

text \<open>The sending end: the bytes accepted so far, and how many the next calls accept; the call
  fails when the plan says 0.\<close>

record out_sock =
  sent :: "byte list"
  send_plan :: "nat list"

definition sys_recv :: "nat \<Rightarrow> in_sock \<Rightarrow> byte list \<times> in_sock" where
  "sys_recv n s =
     (let want = (case recv_plan s of [] \<Rightarrow> n | k # _ \<Rightarrow> max 1 (min k n)) in
      (take want (incoming s), s\<lparr>incoming := drop want (incoming s), recv_plan := tl (recv_plan s)\<rparr>))"

definition sys_send :: "byte list \<Rightarrow> out_sock \<Rightarrow> nat \<times> out_sock" where
  "sys_send bs s =
     (let k = (case send_plan s of [] \<Rightarrow> length bs | k # _ \<Rightarrow> min k (length bs)) in
      (k, s\<lparr>sent := sent s @ take k bs, send_plan := tl (send_plan s)\<rparr>))"

subsection \<open>Whole buffers\<close>

function recv_all :: "nat \<Rightarrow> in_sock \<Rightarrow> byte list option \<times> in_sock" where
  "recv_all n s =
     (if n = 0 then (Some [], s)
      else let (got, s') = sys_recv n s in
        if got = [] then (None, s')
        else case recv_all (n - length got) s' of
               (None, s'') \<Rightarrow> (None, s'')
             | (Some rest, s'') \<Rightarrow> (Some (got @ rest), s''))"
  by auto
termination
  by (relation "measure fst") (auto simp: sys_recv_def Let_def)

function send_all :: "byte list \<Rightarrow> out_sock \<Rightarrow> bool \<times> out_sock" where
  "send_all bs s =
     (if bs = [] then (True, s)
      else let (k, s') = sys_send bs s in
        if k = 0 then (False, s') else send_all (drop k bs) s')"
  by auto
termination
  by (relation "measure (\<lambda>(bs, s). length bs)") auto

declare recv_all.simps [simp del] send_all.simps [simp del]

subsection \<open>Frames\<close>

definition le32 :: "nat \<Rightarrow> byte list" where
  "le32 n = [of_nat n, of_nat (n div 256), of_nat (n div 65536), of_nat (n div 16777216)]"

definition from_le32 :: "byte list \<Rightarrow> nat" where
  "from_le32 bs = unat (bs ! 0) + 256 * unat (bs ! 1) + 65536 * unat (bs ! 2) + 16777216 * unat (bs ! 3)"

definition read_frame :: "nat \<Rightarrow> in_sock \<Rightarrow> byte list option \<times> in_sock" where
  "read_frame limit s =
     (case recv_all 4 s of
        (None, s') \<Rightarrow> (None, s')
      | (Some len_le, s') \<Rightarrow>
          let len = from_le32 len_le in
          if len = 0 \<or> len > limit then (None, s') else recv_all len s')"

definition write_frame :: "byte list \<Rightarrow> out_sock \<Rightarrow> bool \<times> out_sock" where
  "write_frame payload s =
     (let len_le = le32 (length payload mod 2 ^ 32) in
      case send_all len_le s of
        (False, s') \<Rightarrow> (False, s')
      | (True, s') \<Rightarrow> send_all payload s')"

text \<open>The two protocols: \<^verbatim>\<open>MAX_MESSAGE_SIZE\<close> of the developer protocol and \<^verbatim>\<open>MAX_FRAME_SIZE\<close>
  of the plugin protocol.\<close>

definition MAX_MESSAGE_SIZE :: nat where
  "MAX_MESSAGE_SIZE = 4 * 1024 * 1024"

definition MAX_FRAME_SIZE :: nat where
  "MAX_FRAME_SIZE = 16 * 1024 * 1024"

definition mep_read_frame :: "in_sock \<Rightarrow> byte list option \<times> in_sock" where
  "mep_read_frame = read_frame MAX_MESSAGE_SIZE"

definition mep_write_frame :: "byte list \<Rightarrow> out_sock \<Rightarrow> bool \<times> out_sock" where
  "mep_write_frame = write_frame"

definition ipc_read_frame :: "in_sock \<Rightarrow> byte list option \<times> in_sock" where
  "ipc_read_frame = read_frame MAX_FRAME_SIZE"

definition ipc_write_frame :: "byte list \<Rightarrow> out_sock \<Rightarrow> bool \<times> out_sock" where
  "ipc_write_frame = write_frame"

text \<open>\<^verbatim>\<open>read_msg\<close> and \<^verbatim>\<open>write_msg\<close>: the message pack codec is the JSON library's; the decoder
  yields \<open>None\<close> for a discarded value.  What is relied on is that a value is encoded to at least
  one byte and decoded to itself.\<close>

record msgpack =
  to_msgpack :: "json \<Rightarrow> byte list"
  from_msgpack :: "byte list \<Rightarrow> json option"

definition msgpack_ok :: "msgpack \<Rightarrow> json \<Rightarrow> bool" where
  "msgpack_ok mp j \<longleftrightarrow> to_msgpack mp j \<noteq> [] \<and> from_msgpack mp (to_msgpack mp j) = Some j"

definition read_msg :: "msgpack \<Rightarrow> in_sock \<Rightarrow> json option \<times> in_sock" where
  "read_msg mp s =
     (case ipc_read_frame s of
        (None, s') \<Rightarrow> (None, s')
      | (Some buf, s') \<Rightarrow> (from_msgpack mp buf, s'))"

definition write_msg :: "msgpack \<Rightarrow> json \<Rightarrow> out_sock \<Rightarrow> bool \<times> out_sock" where
  "write_msg mp msg s = ipc_write_frame (to_msgpack mp msg) s"

subsection \<open>Lemmas\<close>

text \<open>However the bytes are chopped up, the loop returns the first \<open>n\<close> of them, and fails exactly
  when fewer arrive.\<close>

lemma sys_recv_split:
  "sys_recv n s = (got, s') \<Longrightarrow> 0 < n \<Longrightarrow>
     incoming s = got @ incoming s' \<and> length got \<le> n \<and> (got = [] \<longleftrightarrow> incoming s = [])"
  by (auto simp: sys_recv_def Let_def split: list.splits)

lemma recv_all_0: "recv_all 0 s = (Some [], s)"
  by (simp add: recv_all.simps)

lemma recv_all_step:
  "0 < n \<Longrightarrow> sys_recv n s = (got, s') \<Longrightarrow> recv_all n s =
     (if got = [] then (None, s')
      else case recv_all (n - length got) s' of
             (None, s'') \<Rightarrow> (None, s'') | (Some rest, s'') \<Rightarrow> (Some (got @ rest), s''))"
  by (subst recv_all.simps) simp

lemma recv_all_split:
  "n \<le> length (incoming s) \<Longrightarrow>
     \<exists>s'. recv_all n s = (Some (take n (incoming s)), s') \<and> incoming s' = drop n (incoming s)"
proof (induction n arbitrary: s rule: less_induct)
  case (less n)
  show ?case
  proof (cases "n = 0")
    case True
    then show ?thesis by (simp add: recv_all_0)
  next
    case False
    obtain got s1 where g: "sys_recv n s = (got, s1)" by fastforce
    have sp: "incoming s = got @ incoming s1" "length got \<le> n" "got = [] \<longleftrightarrow> incoming s = []"
      using sys_recv_split [OF g] False by blast+
    have ne: "got \<noteq> []"
      using sp(3) False less.prems by (metis le_zero_eq list.size(3))
    have len: "length (incoming s) = length got + length (incoming s1)" "0 < length got"
      using ne by (simp_all add: sp(1))
    have "n - length got < n" "n - length got \<le> length (incoming s1)"
      using len False less.prems by linarith+
    from less.IH [OF this] obtain s2 where
      "recv_all (n - length got) s1 = (Some (take (n - length got) (incoming s1)), s2)"
      "incoming s2 = drop (n - length got) (incoming s1)" by blast
    with False ne show ?thesis
      using sp(2) by (simp add: recv_all_step [OF _ g] sp(1))
  qed
qed

lemma recv_all_short: "length (incoming s) < n \<Longrightarrow> fst (recv_all n s) = None"
proof (induction n arbitrary: s rule: less_induct)
  case (less n)
  obtain got s1 where g: "sys_recv n s = (got, s1)" by fastforce
  show ?case
  proof (cases "got = []")
    case True
    with less.prems show ?thesis by (simp add: recv_all_step [OF _ g])
  next
    case False
    have sp: "incoming s = got @ incoming s1" "length got \<le> n"
      using sys_recv_split [OF g] less.prems by blast+
    have len: "length (incoming s) = length got + length (incoming s1)" "0 < length got"
      using False by (simp_all add: sp(1))
    have "n - length got < n" "length (incoming s1) < n - length got"
      using len less.prems by linarith+
    from less.IH [OF this] obtain s2 where "recv_all (n - length got) s1 = (None, s2)"
      by (metis prod.collapse)
    with False less.prems show ?thesis
      by (simp add: recv_all_step [OF _ g])
  qed
qed

lemma recv_all_incoming: "length (incoming (snd (recv_all n s))) \<le> length (incoming s)"
proof (cases "n \<le> length (incoming s)")
  case True
  then show ?thesis using recv_all_split [OF True] by auto
next
  case False
  have "length (incoming (snd (recv_all n s))) \<le> length (incoming s)" for n s
  proof (induction n s rule: recv_all.induct)
    case (1 n s)
    obtain got s1 where g: "sys_recv n s = (got, s1)" by fastforce
    have le: "length (incoming s1) \<le> length (incoming s)"
      using g by (auto simp: sys_recv_def Let_def)
    show ?case
    proof (cases "n = 0 \<or> got = []")
      case True
      with g le show ?thesis by (cases "n = 0") (auto simp: recv_all_0 recv_all_step)
    next
      case ne: False
      then have "length (incoming (snd (recv_all (n - length got) s1))) \<le> length (incoming s1)"
        using 1 g by metis
      with ne le g show ?thesis
        by (auto simp: recv_all_step [OF _ g] split: prod.splits option.splits)
    qed
  qed
  then show ?thesis .
qed

lemma mep_read_frame_shrinks:
  assumes "mep_read_frame s = (Some p, s')"
  shows "length (incoming s') < length (incoming s)"
proof -
  obtain l s1 where l: "recv_all 4 s = (Some l, s1)"
    using assms by (auto simp: mep_read_frame_def read_frame_def split: prod.splits option.splits)
  then have "4 \<le> length (incoming s)"
    using recv_all_short [of s 4] by (cases "length (incoming s) < 4") auto
  then have "length (incoming s1) < length (incoming s)"
    using recv_all_split [of 4 s] l by auto
  moreover have "s' = snd (recv_all (from_le32 l) s1)"
    using assms l by (auto simp: mep_read_frame_def read_frame_def Let_def split: if_splits)
  ultimately show ?thesis
    using recv_all_incoming [of "from_le32 l" s1] by simp
qed

text \<open>A send that reports success has passed on the whole buffer, and one that fails a prefix.\<close>

lemma send_all_sent:
  "send_all bs s = (ok, s') \<Longrightarrow> \<exists>k. sent s' = sent s @ take k bs \<and> (ok \<longrightarrow> length bs \<le> k)"
proof (induction bs s rule: send_all.induct)
  case (1 bs s)
  show ?case
  proof (cases "bs = []")
    case True
    with 1 show ?thesis by (auto simp: send_all.simps)
  next
    case False
    obtain k s1 where k: "sys_send bs s = (k, s1)" by fastforce
    have s1: "sent s1 = sent s @ take k bs" using k by (auto simp: sys_send_def Let_def)
    show ?thesis
    proof (cases "k = 0")
      case True
      with 1 False k s1 show ?thesis by (auto simp: send_all.simps [of bs s] intro!: exI [of _ 0])
    next
      case nz: False
      then have "send_all (drop k bs) s1 = (ok, s')"
        using 1(2) False k by (simp add: send_all.simps [of bs s])
      then obtain m where "sent s' = sent s1 @ take m (drop k bs)" "ok \<longrightarrow> length (drop k bs) \<le> m"
        using 1(1) False k nz by metis
      with s1 show ?thesis
        by (intro exI [of _ "k + m"]) (auto simp: take_add)
    qed
  qed
qed

lemma send_all_step:
  "bs \<noteq> [] \<Longrightarrow> sys_send bs s = (k, s') \<Longrightarrow>
     send_all bs s = (if k = 0 then (False, s') else send_all (drop k bs) s')"
  by (simp add: send_all.simps [of bs s])

lemma send_all_success:
  "0 \<notin> set (send_plan s) \<Longrightarrow>
     \<exists>s'. send_all bs s = (True, s') \<and> sent s' = sent s @ bs \<and> 0 \<notin> set (send_plan s')"
proof (induction "length bs" arbitrary: bs s rule: less_induct)
  case less
  show ?case
  proof (cases "bs = []")
    case True
    with less.prems show ?thesis by (simp add: send_all.simps)
  next
    case False
    obtain k s1 where k: "sys_send bs s = (k, s1)" by fastforce
    have k1: "0 < k" "sent s1 = sent s @ take k bs" "0 \<notin> set (send_plan s1)"
      using k False less.prems by (auto simp: sys_send_def Let_def split: list.splits)
    then have "length (drop k bs) < length bs" using False by simp
    from less.hyps [OF this k1(3)] obtain s2 where
      "send_all (drop k bs) s1 = (True, s2)" "sent s2 = sent s1 @ drop k bs" "0 \<notin> set (send_plan s2)"
      by blast
    with k1 show ?thesis
      by (simp add: send_all_step [OF False k])
  qed
qed

lemma le32_length [simp]: "length (le32 n) = 4"
  by (simp add: le32_def)

lemma le32_roundtrip: "n < 2 ^ 32 \<Longrightarrow> from_le32 (le32 n) = n"
proof -
  assume n: "n < 2 ^ 32"
  have digit: "unat (of_nat m :: byte) = m mod 256" for m
    by (simp add: unat_of_nat)
  have d: "n = n mod 256 + 256 * (n div 256)"
    "n div 256 = n div 256 mod 256 + 256 * (n div 65536)"
    "n div 65536 = n div 65536 mod 256 + 256 * (n div 16777216)"
    using mod_mult_div_eq [of n 256] mod_mult_div_eq [of "n div 256" 256] mod_mult_div_eq [of "n div 65536" 256]
    by (simp_all add: div_mult2_eq [symmetric])
  have "n div 16777216 mod 256 = n div 16777216"
    using n by (simp add: less_mult_imp_div_less)
  then have "from_le32 (le32 n) = n mod 256 + 256 * (n div 256 mod 256) +
      65536 * (n div 65536 mod 256) + 16777216 * (n div 16777216)"
    by (simp add: from_le32_def le32_def digit)
  with d show ?thesis by linarith
qed

text \<open>A frame on the wire.\<close>

definition frame :: "byte list \<Rightarrow> byte list" where
  "frame p = le32 (length p mod 2 ^ 32) @ p"

lemma write_frame_sent: "write_frame p s = (True, s') \<Longrightarrow> sent s' = sent s @ frame p"
  by (auto simp: write_frame_def frame_def Let_def split: prod.splits bool.splits dest!: send_all_sent)

lemma write_frame_success:
  assumes "0 \<notin> set (send_plan s)"
  shows "\<exists>s'. write_frame p s = (True, s') \<and> sent s' = sent s @ frame p \<and> 0 \<notin> set (send_plan s')"
proof -
  obtain s1 where s1: "send_all (le32 (length p mod 2 ^ 32)) s = (True, s1)"
    "sent s1 = sent s @ le32 (length p mod 2 ^ 32)" "0 \<notin> set (send_plan s1)"
    using send_all_success [OF assms] by blast
  obtain s2 where "send_all p s1 = (True, s2)" "sent s2 = sent s1 @ p" "0 \<notin> set (send_plan s2)"
    using send_all_success [OF s1(3)] by blast
  with s1 show ?thesis
    by (simp add: write_frame_def frame_def Let_def)
qed

lemma read_frame_frame:
  assumes "incoming s = frame p @ rest" "0 < length p" "length p \<le> limit" "limit < 2 ^ 32"
  shows "\<exists>s'. read_frame limit s = (Some p, s') \<and> incoming s' = rest"
proof -
  have len: "length p < 2 ^ 32" using assms by simp
  have inc: "incoming s = le32 (length p) @ p @ rest"
    using assms(1) len by (simp add: frame_def)
  obtain s1 where s1: "recv_all 4 s = (Some (le32 (length p)), s1)" "incoming s1 = p @ rest"
    using recv_all_split [of 4 s] by (auto simp: inc)
  obtain s2 where "recv_all (length p) s1 = (Some p, s2)" "incoming s2 = rest"
    using recv_all_split [of "length p" s1] by (auto simp: s1)
  with s1 assms len show ?thesis
    by (simp add: read_frame_def Let_def le32_roundtrip)
qed

lemma read_frame_oversized:
  assumes "incoming s = frame p @ rest" "length p < 2 ^ 32" "length p = 0 \<or> limit < length p"
  shows "fst (read_frame limit s) = None"
proof -
  have inc: "incoming s = le32 (length p) @ p @ rest"
    using assms by (simp add: frame_def)
  obtain s1 where "recv_all 4 s = (Some (le32 (length p)), s1)"
    using recv_all_split [of 4 s] by (auto simp: inc)
  with assms show ?thesis
    by (auto simp: read_frame_def Let_def le32_roundtrip)
qed

subsection \<open>The contract of a framed channel\<close>

fun write_seq :: "('p \<Rightarrow> out_sock \<Rightarrow> bool \<times> out_sock) \<Rightarrow> 'p list \<Rightarrow> out_sock \<Rightarrow> bool \<times> out_sock" where
  "write_seq wr [] s = (True, s)"
| "write_seq wr (p # ps) s =
     (case wr p s of (False, s') \<Rightarrow> (False, s') | (True, s') \<Rightarrow> write_seq wr ps s')"

fun read_seq :: "(in_sock \<Rightarrow> 'p option \<times> in_sock) \<Rightarrow> nat \<Rightarrow> in_sock \<Rightarrow> 'p list" where
  "read_seq rd 0 s = []"
| "read_seq rd (Suc n) s = (case rd s of (None, s') \<Rightarrow> [] | (Some p, s') \<Rightarrow> p # read_seq rd n s')"

locale framed_channel =
  fixes enc :: "'p \<Rightarrow> byte list" and fits :: "'p \<Rightarrow> bool"
    and rd :: "in_sock \<Rightarrow> 'p option \<times> in_sock" and wr :: "'p \<Rightarrow> out_sock \<Rightarrow> bool \<times> out_sock"
  assumes wr_sent: "wr p s = (True, s') \<Longrightarrow> sent s' = sent s @ enc p"
    and rd_enc: "fits p \<Longrightarrow> incoming r = enc p @ rest \<Longrightarrow>
      \<exists>r'. rd r = (Some p, r') \<and> incoming r' = rest"
begin

lemma write_seq_sent: "write_seq wr ps s = (True, s') \<Longrightarrow> sent s' = sent s @ concat (map enc ps)"
proof (induction ps arbitrary: s)
  case (Cons p ps)
  then obtain s1 where s1: "wr p s = (True, s1)" "write_seq wr ps s1 = (True, s')"
    by (auto split: prod.splits bool.splits)
  with Cons.IH [OF s1(2)] wr_sent [OF s1(1)] show ?case by simp
qed simp

lemma read_seq_enc:
  "\<forall>p \<in> set ps. fits p \<Longrightarrow> incoming r = concat (map enc ps) @ rest \<Longrightarrow> read_seq rd (length ps) r = ps"
proof (induction ps arbitrary: r)
  case (Cons p ps)
  then obtain r' where "rd r = (Some p, r')" "incoming r' = concat (map enc ps) @ rest"
    using rd_enc [of p r "concat (map enc ps) @ rest"] by auto
  with Cons show ?case by simp
qed simp

lemma channel_delivers:
  assumes "\<forall>p \<in> set ps. fits p" "write_seq wr ps s = (True, s')" "sent s = []"
    "incoming r = sent s' @ rest"
  shows "read_seq rd (length ps) r = ps"
  using read_seq_enc [OF assms(1), of r rest] write_seq_sent [OF assms(2)] assms(3,4) by simp

end

lemma limits: "MAX_MESSAGE_SIZE < 4294967296" "MAX_FRAME_SIZE < 4294967296"
  by (simp_all add: MAX_MESSAGE_SIZE_def MAX_FRAME_SIZE_def)

interpretation mep_chan: framed_channel frame "\<lambda>p. 0 < length p \<and> length p \<le> MAX_MESSAGE_SIZE"
  mep_read_frame mep_write_frame
  by unfold_locales
    (auto simp: mep_write_frame_def mep_read_frame_def write_frame_sent limits intro!: read_frame_frame)

interpretation ipc_chan: framed_channel frame "\<lambda>p. 0 < length p \<and> length p \<le> MAX_FRAME_SIZE"
  ipc_read_frame ipc_write_frame
  by unfold_locales
    (auto simp: ipc_write_frame_def ipc_read_frame_def write_frame_sent limits intro!: read_frame_frame)

lemma write_msg_sent: "write_msg mp j s = (True, s') \<Longrightarrow> sent s' = sent s @ frame (to_msgpack mp j)"
  by (simp add: write_msg_def ipc_chan.wr_sent)

lemma read_msg_frame:
  assumes "msgpack_ok mp j" "length (to_msgpack mp j) \<le> MAX_FRAME_SIZE"
    "incoming r = frame (to_msgpack mp j) @ rest"
  shows "\<exists>r'. read_msg mp r = (Some j, r') \<and> incoming r' = rest"
  using assms ipc_chan.rd_enc [of "to_msgpack mp j" r rest]
  by (auto simp: read_msg_def msgpack_ok_def)

subsection \<open>Properties\<close>

text \<open>C6: whatever the chunks in which the operating system accepts and delivers bytes, a reader of
  either protocol receives exactly the payloads a writer reported as written, in order, as long
  as each is non-empty and within the limit of the protocol.\<close>

theorem frames_delivered:
  "(list_all (\<lambda>p. 0 < length p \<and> length p \<le> MAX_MESSAGE_SIZE) ps \<and>
      write_seq mep_write_frame ps \<lparr>sent = [], send_plan = sp\<rparr> = (True, s') \<longrightarrow>
      read_seq mep_read_frame (length ps) \<lparr>incoming = sent s' @ rest, recv_plan = rp\<rparr> = ps) \<and>
   (list_all (\<lambda>p. 0 < length p \<and> length p \<le> MAX_FRAME_SIZE) qs \<and>
      write_seq ipc_write_frame qs \<lparr>sent = [], send_plan = sp\<rparr> = (True, t') \<longrightarrow>
      read_seq ipc_read_frame (length qs) \<lparr>incoming = sent t' @ rest, recv_plan = rp\<rparr> = qs)"
  using mep_chan.channel_delivers [of ps "\<lparr>sent = [], send_plan = sp\<rparr>" s' _ rest]
    ipc_chan.channel_delivers [of qs "\<lparr>sent = [], send_plan = sp\<rparr>" t' _ rest]
  by (simp add: list_all_iff)

theorem frames_delivered_witness:
  "read_seq mep_read_frame 2 \<lparr>incoming = sent (snd (write_seq mep_write_frame [[7], [8, 9]]
      \<lparr>sent = [], send_plan = [1, 2, 3]\<rparr>)) @ [5], recv_plan = [2, 1, 1]\<rparr> = [[7], [8, 9]]"
proof -
  let ?w = "write_seq mep_write_frame [[7], [8, 9]] \<lparr>sent = [], send_plan = [1, 2, 3]\<rparr>"
  have "?w = (True, snd ?w)"
    by (simp add: mep_write_frame_def write_frame_def le32_def send_all.simps sys_send_def Let_def)
  moreover have "list_all (\<lambda>p. 0 < length p \<and> length p \<le> MAX_MESSAGE_SIZE) [[7], [8, 9 :: byte]]"
    by (simp add: MAX_MESSAGE_SIZE_def)
  ultimately have "read_seq mep_read_frame (length [[7], [8, 9 :: byte]])
      \<lparr>incoming = sent (snd ?w) @ [5], recv_plan = [2, 1, 1]\<rparr> = [[7], [8, 9]]"
    using frames_delivered by blast
  then show ?thesis by (simp add: numeral_2_eq_2)
qed

text \<open>a reader refuses a frame that announces no byte or more than the limit, without reading
  its payload, and a connection that ends inside a frame; the writers do not check the limit,
  so a payload of 16 MB and one byte is sent and refused.\<close>

theorem frames_refused:
  "(length p < 2 ^ 32 \<and> (p = [] \<or> MAX_FRAME_SIZE < length p) \<longrightarrow>
      fst (ipc_read_frame \<lparr>incoming = frame p @ rest, recv_plan = rp\<rparr>) = None) \<and>
   (length bs < 4 \<longrightarrow> fst (read_frame limit \<lparr>incoming = bs, recv_plan = rp\<rparr>) = None)"
proof (intro conjI impI)
  assume "length p < 2 ^ 32 \<and> (p = [] \<or> MAX_FRAME_SIZE < length p)"
  then show "fst (ipc_read_frame \<lparr>incoming = frame p @ rest, recv_plan = rp\<rparr>) = None"
    unfolding ipc_read_frame_def by (intro read_frame_oversized [where rest = rest]) auto
next
  assume "length bs < 4"
  then show "fst (read_frame limit \<lparr>incoming = bs, recv_plan = rp\<rparr>) = None"
    using recv_all_short [of "\<lparr>incoming = bs, recv_plan = rp\<rparr>" 4]
    by (auto simp: read_frame_def split: prod.splits option.splits)
qed

theorem frames_refused_witness:
  "fst (ipc_read_frame \<lparr>incoming = frame (replicate 16777217 0) @ [], recv_plan = [3]\<rparr>) = None"
  using frames_refused [of "replicate 16777217 0" "[]" "[3]"] by (simp add: MAX_FRAME_SIZE_def)

end
