(* ===== verification/MepServer.thy ===== *)
theory MepServer
  imports Framing "HOL-Library.Multiset"
begin

text \<open>
  The developer protocol server: messages (\<^verbatim>\<open>src/mep/mep_message.cc\<close>), the router
  (\<^verbatim>\<open>src/mep/mep_router.cc\<close>) and the connection loop with its subscriptions
  (\<^verbatim>\<open>src/mep/mep_server.cc\<close>).  A handler is a function of the request and of the state it works on:
  the subscriptions of the connection and the rest of the program, of arbitrary type \<open>'x\<close>.  It
  returns a response, or leaves with an exception.
\<close>

subsection \<open>Messages\<close>

record request_t =
  rq_id :: string
  rq_method :: string
  rq_params :: json

record response_t =
  rs_id :: string
  rs_result :: json
  rs_error :: "string option"

definition request_from_json :: "json \<Rightarrow> request_t option" where
  "request_from_json j =
     (case Option.bind (json_find ''id'' j) as_string of
        None \<Rightarrow> None
      | Some i \<Rightarrow> (case Option.bind (json_find ''method'' j) as_string of
          None \<Rightarrow> None
        | Some m \<Rightarrow> Some \<lparr>rq_id = i, rq_method = m,
            rq_params = (case json_find ''params'' j of Some p \<Rightarrow> p | None \<Rightarrow> JNull)\<rparr>))"

definition request_to_json :: "request_t \<Rightarrow> json" where
  "request_to_json r =
     JObj [(''id'', JStr (rq_id r)), (''method'', JStr (rq_method r)), (''params'', rq_params r)]"

definition response_ok :: "string \<Rightarrow> json \<Rightarrow> response_t" where
  "response_ok i result = \<lparr>rs_id = i, rs_result = result, rs_error = None\<rparr>"

definition response_err :: "string \<Rightarrow> string \<Rightarrow> response_t" where
  "response_err i message = \<lparr>rs_id = i, rs_result = JNull, rs_error = Some message\<rparr>"

definition response_to_json :: "response_t \<Rightarrow> json" where
  "response_to_json r =
     JObj [(''error'', (case rs_error r of Some e \<Rightarrow> JStr e | None \<Rightarrow> JNull)),
           (''id'', JStr (rs_id r)), (''result'', rs_result r)]"

subsection \<open>Router\<close>

datatype outcome = Responds response_t | ThrowsStd string | ThrowsOther

type_synonym 's handler = "request_t \<Rightarrow> 's \<Rightarrow> outcome \<times> 's"

type_synonym 's router = "(string \<times> 's handler) list"

definition register_handler :: "string \<Rightarrow> 's handler \<Rightarrow> 's router \<Rightarrow> 's router" where
  "register_handler meth h r = (meth, h) # filter (\<lambda>(m, _). m \<noteq> meth) r"

definition dispatch :: "'s router \<Rightarrow> request_t \<Rightarrow> 's \<Rightarrow> response_t \<times> 's" where
  "dispatch r request s =
     (case map_of r (rq_method request) of
        None \<Rightarrow> (response_err (rq_id request) (''unknown method: '' @ rq_method request), s)
      | Some h \<Rightarrow>
          (case h request s of
             (Responds resp, s') \<Rightarrow> (resp, s')
           | (ThrowsStd e, s') \<Rightarrow> (response_err (rq_id request) (''handler threw: '' @ e), s')
           | (ThrowsOther, s') \<Rightarrow> (response_err (rq_id request) ''handler threw an unknown exception'', s')))"

subsection \<open>Subscriptions of a connection\<close>

text \<open>Cancel functions are numbers; \<open>cancelled\<close> is the list of those that have been called.\<close>

record client_subscriptions =
  cancel_map :: "(string \<times> nat) list"
  id_counter :: nat
  cancelled :: "nat list"

definition subs_init :: client_subscriptions where
  "subs_init = \<lparr>cancel_map = [], id_counter = 0, cancelled = []\<rparr>"

definition sub_id :: "nat \<Rightarrow> nat \<Rightarrow> string" where
  "sub_id client_fd n = ''sub-'' @ dec_of_nat client_fd @ ''-'' @ dec_of_nat n"

definition subscribe :: "nat \<Rightarrow> nat \<Rightarrow> client_subscriptions \<Rightarrow> string \<times> client_subscriptions" where
  "subscribe client_fd cancel_fn s =
     (let n = id_counter s + 1; i = sub_id client_fd n in
      (i, s\<lparr>cancel_map := (i, cancel_fn) # filter (\<lambda>(k, _). k \<noteq> i) (cancel_map s), id_counter := n\<rparr>))"

definition unsubscribe :: "string \<Rightarrow> client_subscriptions \<Rightarrow> bool \<times> client_subscriptions" where
  "unsubscribe i s =
     (case map_of (cancel_map s) i of
        None \<Rightarrow> (False, s)
      | Some fn \<Rightarrow> (True, s\<lparr>cancel_map := filter (\<lambda>(k, _). k \<noteq> i) (cancel_map s),
                             cancelled := cancelled s @ [fn]\<rparr>))"

definition cancel_all :: "client_subscriptions \<Rightarrow> client_subscriptions" where
  "cancel_all s = s\<lparr>cancelled := cancelled s @ map snd (cancel_map s), cancel_map := []\<rparr>"

subsection \<open>The connection loop\<close>

text \<open>\<open>running\<close> lists what the loop finds in \<^verbatim>\<open>m_running\<close> at the start of its rounds (true
  beyond the end).  The loop ends because every round consumes at least a length field.\<close>

definition running_now :: "bool list \<Rightarrow> bool" where
  "running_now running \<longleftrightarrow> running = [] \<or> hd running"

definition send_response :: "msgpack \<Rightarrow> response_t \<Rightarrow> out_sock \<Rightarrow> bool \<times> out_sock" where
  "send_response mp resp out = mep_write_frame (to_msgpack mp (response_to_json resp)) out"

function client_loop ::
    "msgpack \<Rightarrow> 's router \<Rightarrow> bool list \<Rightarrow> in_sock \<Rightarrow> out_sock \<Rightarrow> 's \<Rightarrow> out_sock \<times> 's" where
  "client_loop mp r running inp out s =
     (if \<not> running_now running then (out, s)
      else case mep_read_frame inp of
        (None, inp') \<Rightarrow> (out, s)
      | (Some payload, inp') \<Rightarrow>
          (case from_msgpack mp payload of
             None \<Rightarrow> (snd (send_response mp (response_err [] ''invalid msgpack'') out), s)
           | Some j \<Rightarrow>
               (case request_from_json j of
                  None \<Rightarrow> (snd (send_response mp (response_err [] ''malformed request'') out), s)
                | Some req \<Rightarrow>
                    (let (resp, s') = dispatch r req s; (sent_ok, out') = send_response mp resp out in
                     if sent_ok then client_loop mp r (tl running) inp' out' s' else (out', s')))))"
  by pat_completeness auto
termination
  by (relation "measure (\<lambda>(mp, r, running, inp, out, s). length (incoming inp))")
    (auto intro: mep_read_frame_shrinks [OF sym])

declare client_loop.simps [simp del]

definition handle_client ::
    "msgpack \<Rightarrow> (client_subscriptions \<times> 'x) router \<Rightarrow> bool list \<Rightarrow> in_sock \<Rightarrow> out_sock \<Rightarrow> 'x \<Rightarrow>
       out_sock \<times> client_subscriptions \<times> 'x" where
  "handle_client mp r running inp out x =
     (let (out', subs, x') = client_loop mp r running inp out (subs_init, x) in
      (out', cancel_all subs, x'))"

subsection \<open>Lemmas\<close>

lemma request_roundtrip: "request_from_json (request_to_json r) = Some r"
  by (simp add: request_from_json_def request_to_json_def json_find_def)

lemma sub_id_inj: "sub_id fd m = sub_id fd n \<longleftrightarrow> m = n"
  by (auto simp: sub_id_def) (metis digits_val_dec_of_nat of_nat_eq_iff)

text \<open>The ids in use are those of counter values already passed, each once.\<close>

definition subs_inv :: "nat \<Rightarrow> client_subscriptions \<Rightarrow> bool" where
  "subs_inv fd s \<longleftrightarrow> distinct (map fst (cancel_map s)) \<and>
     (\<forall>k \<in> fst ` set (cancel_map s). \<exists>n \<le> id_counter s. k = sub_id fd n)"

lemma subs_fresh:
  assumes "subs_inv fd s"
  shows "sub_id fd (Suc (id_counter s)) \<notin> fst ` set (cancel_map s)"
proof
  assume "sub_id fd (Suc (id_counter s)) \<in> fst ` set (cancel_map s)"
  with assms obtain n where "n \<le> id_counter s" "sub_id fd (Suc (id_counter s)) = sub_id fd n"
    unfolding subs_inv_def by blast
  then show False by (simp add: sub_id_inj)
qed

lemma filter_fresh_key: "k \<notin> fst ` set xs \<Longrightarrow> filter (\<lambda>(i, _). i \<noteq> k) xs = xs"
  by (induction xs) auto

lemma subscribe_inv:
  assumes "subs_inv fd s"
  shows "subs_inv fd (snd (subscribe fd fn s))"
    "cancel_map (snd (subscribe fd fn s)) = (sub_id fd (Suc (id_counter s)), fn) # cancel_map s"
    "cancelled (snd (subscribe fd fn s)) = cancelled s"
proof -
  note fresh = subs_fresh [OF assms]
  show m: "cancel_map (snd (subscribe fd fn s)) = (sub_id fd (Suc (id_counter s)), fn) # cancel_map s"
    using filter_fresh_key [OF fresh] by (simp add: subscribe_def Let_def)
  show "subs_inv fd (snd (subscribe fd fn s))"
    using assms fresh unfolding subs_inv_def m
    by (auto simp: subscribe_def Let_def) (metis fst_conv le_SucI)
  show "cancelled (snd (subscribe fd fn s)) = cancelled s"
    by (simp add: subscribe_def Let_def)
qed

lemma mset_filter_key:
  "distinct (map fst xs) \<Longrightarrow> map_of xs k = Some v \<Longrightarrow>
     mset (map snd xs) = add_mset v (mset (map snd (filter (\<lambda>(i, _). i \<noteq> k) xs)))"
proof (induction xs)
  case (Cons x xs)
  obtain i w where x: "x = (i, w)" by (cases x)
  show ?case
  proof (cases "i = k")
    case True
    with Cons.prems x show ?thesis by (simp add: filter_fresh_key del: mset_map mset_filter)
  next
    case False
    with Cons x show ?thesis by simp
  qed
qed simp

lemma unsubscribe_inv:
  assumes "subs_inv fd s"
  shows "subs_inv fd (snd (unsubscribe i s))"
    "mset (cancelled (snd (unsubscribe i s))) + mset (map snd (cancel_map (snd (unsubscribe i s)))) =
     mset (cancelled s) + mset (map snd (cancel_map s))"
  using assms mset_filter_key [of "cancel_map s" i]
  by (auto simp: unsubscribe_def subs_inv_def distinct_map split: option.splits intro: inj_on_subset)

datatype sub_op = Subscribe nat | Unsubscribe string

fun sub_step :: "nat \<Rightarrow> sub_op \<Rightarrow> client_subscriptions \<Rightarrow> client_subscriptions" where
  "sub_step fd (Subscribe fn) s = snd (subscribe fd fn s)"
| "sub_step fd (Unsubscribe i) s = snd (unsubscribe i s)"

fun subscribed :: "sub_op list \<Rightarrow> nat list" where
  "subscribed [] = []"
| "subscribed (Subscribe fn # ops) = fn # subscribed ops"
| "subscribed (Unsubscribe i # ops) = subscribed ops"

lemma sub_steps:
  "subs_inv fd s \<Longrightarrow>
     let s' = fold (sub_step fd) ops s in
     subs_inv fd s' \<and> mset (cancelled s') + mset (map snd (cancel_map s')) =
       mset (cancelled s) + mset (map snd (cancel_map s)) + mset (subscribed ops)"
proof (induction ops arbitrary: s)
  case (Cons op ops)
  show ?case
  proof (cases op)
    case (Subscribe fn)
    with Cons.IH [OF subscribe_inv(1) [OF Cons.prems, of fn]] subscribe_inv [OF Cons.prems, of fn]
    show ?thesis by (simp add: Let_def)
  next
    case (Unsubscribe i)
    with Cons.IH [OF unsubscribe_inv(1) [OF Cons.prems, of i]] unsubscribe_inv [OF Cons.prems, of i]
    show ?thesis by (simp add: Let_def)
  qed
qed simp

text \<open>The responses to a list of requests, one dispatch after the other.\<close>

fun answers :: "'s router \<Rightarrow> request_t list \<Rightarrow> 's \<Rightarrow> response_t list \<times> 's" where
  "answers r [] s = ([], s)"
| "answers r (req # reqs) s =
     (let (resp, s') = dispatch r req s; (resps, s'') = answers r reqs s' in (resp # resps, s''))"

lemma answers_length: "length (fst (answers r reqs s)) = length reqs"
  by (induction reqs arbitrary: s) (auto split: prod.splits simp: Let_def, metis fst_conv)

lemma client_loop_answers:
  assumes "0 \<notin> set (send_plan out)"
    and "\<forall>req \<in> set reqs. msgpack_ok mp (request_to_json req) \<and>
      length (to_msgpack mp (request_to_json req)) \<le> MAX_MESSAGE_SIZE"
    and "incoming inp = concat (map (\<lambda>req. frame (to_msgpack mp (request_to_json req))) reqs)"
  shows "\<exists>out'. client_loop mp r [] inp out s = (out', snd (answers r reqs s)) \<and>
    sent out' = sent out @
      concat (map (\<lambda>resp. frame (to_msgpack mp (response_to_json resp))) (fst (answers r reqs s)))"
  using assms
proof (induction reqs arbitrary: inp out s)
  case Nil
  then have "fst (mep_read_frame inp) = None"
    using recv_all_short [of inp 4]
    by (auto simp: mep_read_frame_def read_frame_def split: prod.splits option.splits)
  then show ?case
    by (subst client_loop.simps) (auto simp: running_now_def split: prod.splits option.splits)
next
  case (Cons req reqs)
  let ?p = "to_msgpack mp (request_to_json req)"
  have "from_msgpack mp ?p = Some (request_to_json req)" "0 < length ?p"
    using Cons.prems(2) by (auto simp: msgpack_ok_def)
  moreover obtain inp' where i: "mep_read_frame inp = (Some ?p, inp')"
    "incoming inp' = concat (map (\<lambda>req. frame (to_msgpack mp (request_to_json req))) reqs)"
    using mep_chan.rd_enc [of ?p inp] Cons.prems \<open>0 < length ?p\<close> by auto
  moreover obtain resp s' where d: "dispatch r req s = (resp, s')" by fastforce
  moreover obtain out1 where o: "send_response mp resp out = (True, out1)" "0 \<notin> set (send_plan out1)"
    "sent out1 = sent out @ frame (to_msgpack mp (response_to_json resp))"
    using write_frame_success [OF Cons.prems(1)] unfolding send_response_def mep_write_frame_def by blast
  moreover obtain out' where "client_loop mp r [] inp' out1 s' = (out', snd (answers r reqs s'))"
    "sent out' = sent out1 @
      concat (map (\<lambda>resp. frame (to_msgpack mp (response_to_json resp))) (fst (answers r reqs s')))"
    using Cons.IH [OF o(2) _ i(2), of s'] Cons.prems(2) by auto
  ultimately show ?case
    by (subst client_loop.simps)
      (simp add: running_now_def request_roundtrip Let_def case_prod_unfold)
qed

subsection \<open>Properties\<close>


definition ping :: request_t where
  "ping = \<lparr>rq_id = ''7'', rq_method = ''ping'', rq_params = JNull\<rparr>"

definition ping_msgpack :: msgpack where
  "ping_msgpack = \<lparr>to_msgpack = (\<lambda>_. [42]), from_msgpack = (\<lambda>_. Some (request_to_json ping))\<rparr>"


text \<open>C22: over a connection every cancel function handed to \<^verbatim>\<open>subscribe\<close> is called exactly once,
  by an \<^verbatim>\<open>unsubscribe\<close> of its id or at the end of the connection, in every order of
  operations.\<close>

theorem cancel_exactly_once:
  "mset (cancelled (cancel_all (fold (sub_step fd) ops subs_init))) = mset (subscribed ops)"
proof -
  have "subs_inv fd subs_init" by (simp add: subs_inv_def subs_init_def)
  from sub_steps [OF this, of ops] show ?thesis
    by (simp add: cancel_all_def Let_def subs_init_def)
qed

end
