(* ===== verification/CdpClient.thy ===== *)
theory CdpClient
  imports Json Listeners
begin

text \<open>
  The Chrome DevTools protocol client, \<^verbatim>\<open>src/engine/cdp_api.cc\<close>.

  Several threads work on one client: callers of \<^verbatim>\<open>send_host\<close>, the worker that takes incoming
  messages, the cleanup thread and the thread that shuts the client down.  Each critical section
  of the code is one operation here, so that \<^verbatim>\<open>send_host\<close> is split where it releases its lock
  (check and allocate, register, transmit), and completing a promise is separate from taking its
  request out of the table.  The worker and the cleanup thread look at the shutdown flag before they
  take the lock, so that these are two operations each.  An operation is a partial function on the client state; \<open>None\<close> means
  that it is not enabled.  The ids and event tokens are unbounded.
\<close>

datatype cdp_outcome = Value json | Failed string

text \<open>\<open>promise\<close> lists what the promise was set to; the library throws on a second set.\<close>

record async_request =
  timestamp :: int
  req_timeout :: int
  completed :: bool
  promise :: "cdp_outcome list"

text \<open>\<open>sending\<close> holds the ids of calls to \<^verbatim>\<open>send_host\<close> under way, with whether they are
  registered; \<open>working\<close> the message that the worker has found the flag clear for, \<open>cleaning\<close> the same of
  the cleanup thread; \<open>held\<close> the requests that a thread has taken and is about to complete;
  \<open>shut_down\<close> that \<^verbatim>\<open>shutdown\<close> has returned.\<close>

record cdp_client =
  m_next_id :: int
  m_shutdown :: bool
  shut_down :: bool
  m_pending_requests :: "(int \<times> async_request) list"
  requests :: "(int \<times> async_request) list"
  sending :: "(int \<times> bool) list"
  working :: "json option option"
  cleaning :: bool
  held :: "(int \<times> cdp_outcome) list"
  m_incoming_queue :: "string list"
  m_event_callbacks :: "(string \<times> (int \<times> nat) list) list"
  m_next_event_token :: int
  m_token_to_event :: "(int \<times> string) list"

definition cdp_init :: cdp_client where
  "cdp_init = \<lparr>m_next_id = 1, m_shutdown = False, shut_down = False, m_pending_requests = [],
     requests = [], sending = [], working = None, cleaning = False, held = [], m_incoming_queue = [], m_event_callbacks = [],
     m_next_event_token = 1, m_token_to_event = []\<rparr>"

definition erase_key :: "'k \<Rightarrow> ('k \<times> 'v) list \<Rightarrow> ('k \<times> 'v) list" where
  "erase_key k xs = filter (\<lambda>(i, _). i \<noteq> k) xs"

definition put_key :: "'k \<Rightarrow> 'v \<Rightarrow> ('k \<times> 'v) list \<Rightarrow> ('k \<times> 'v) list" where
  "put_key k v xs = (k, v) # erase_key k xs"

subsection \<open>Requests\<close>

text \<open>The guarded completion that every path ends in: only the first one to set the flag sets the
  promise.\<close>

definition complete_request :: "cdp_outcome \<Rightarrow> async_request \<Rightarrow> async_request" where
  "complete_request out r =
     (if completed r then r else r\<lparr>completed := True, promise := promise r @ [out]\<rparr>)"

definition complete :: "int \<Rightarrow> cdp_outcome \<Rightarrow> cdp_client \<Rightarrow> cdp_client" where
  "complete i out s =
     s\<lparr>requests := map (\<lambda>(k, r). (k, if k = i then complete_request out r else r)) (requests s)\<rparr>"

text \<open>\<^verbatim>\<open>send_host\<close>, up to the check of \<^verbatim>\<open>m_shutdown\<close>.\<close>

definition send_begin :: "int \<Rightarrow> int \<Rightarrow> cdp_client \<Rightarrow> cdp_client" where
  "send_begin now tmo s =
     (let i = m_next_id s;
          r = \<lparr>timestamp = now, req_timeout = tmo, completed = False, promise = []\<rparr>;
          s1 = s\<lparr>m_next_id := i + 1, requests := (i, r) # requests s\<rparr> in
      if m_shutdown s then complete i (Failed ''Client shutdown'') s1
      else s1\<lparr>sending := (i, False) # sending s1\<rparr>)"

text \<open>The JSON text put on the wire, with the session id at the top level when there is one; the
  serializer belongs to the JSON library.\<close>

definition send_payload :: "(json \<Rightarrow> string) \<Rightarrow> int \<Rightarrow> string \<Rightarrow> json \<Rightarrow> string option \<Rightarrow> string" where
  "send_payload dump i meth params sessionId =
     (let message = [(''id'', JInt i), (''method'', JStr meth), (''params'', params)] in
      dump (JObj (case sessionId of None \<Rightarrow> message | Some sid \<Rightarrow> obj_put ''sessionId'' (JStr sid) message)))"

definition send_register :: "int \<Rightarrow> cdp_client \<Rightarrow> cdp_client option" where
  "send_register i s =
     (case (map_of (sending s) i, map_of (requests s) i) of
        (Some False, Some r) \<Rightarrow>
          Some (s\<lparr>m_pending_requests := put_key i r (m_pending_requests s),
                  sending := put_key i True (sending s)\<rparr>)
      | _ \<Rightarrow> None)"

definition send_transmit :: "int \<Rightarrow> bool \<Rightarrow> cdp_client \<Rightarrow> cdp_client option" where
  "send_transmit i ok s =
     (case map_of (sending s) i of
        Some True \<Rightarrow>
          (let s1 = s\<lparr>sending := erase_key i (sending s)\<rparr> in
           Some (if ok then s1
                 else complete i (Failed ''Send failed'')
                        (s1\<lparr>m_pending_requests := erase_key i (m_pending_requests s1)\<rparr>)))
      | _ \<Rightarrow> None)"

text \<open>The outcome that a response message stands for.\<close>

definition response_outcome :: "json \<Rightarrow> cdp_outcome" where
  "response_outcome message =
     (case json_find ''error'' message of
        Some err \<Rightarrow>
          (case Option.bind (json_find ''message'' err) as_string of
             Some m \<Rightarrow> Failed m | None \<Rightarrow> Failed ''CDP Error'')
      | None \<Rightarrow> (case json_find ''result'' message of
          Some r \<Rightarrow> Value r | None \<Rightarrow> Failed ''Invalid CDP response''))"

text \<open>The parameters of an event message, with the session id merged in; assigning a member of
  anything but an object or null throws.\<close>

definition event_params :: "json \<Rightarrow> json option" where
  "event_params message =
     (let params = (case json_find ''params'' message of Some p \<Rightarrow> p | None \<Rightarrow> JObj []) in
      case Option.bind (json_find ''sessionId'' message) as_string of
        None \<Rightarrow> Some params
      | Some sid \<Rightarrow>
          (case params of
             JObj kvs \<Rightarrow> Some (JObj (obj_put ''sessionId'' (JStr sid) kvs))
           | JNull \<Rightarrow> Some (JObj [(''sessionId'', JStr sid)])
           | _ \<Rightarrow> None))"

text \<open>The serializer throws before anything is registered; the number is used up.\<close>

definition send_throws :: "cdp_client \<Rightarrow> cdp_client" where
  "send_throws s = s\<lparr>m_next_id := m_next_id s + 1\<rparr>"

text \<open>\<^verbatim>\<open>process_message\<close> up to the check of the flag, of a message that parses to \<open>parsed\<close>.\<close>

definition process_begin :: "json option \<Rightarrow> cdp_client \<Rightarrow> cdp_client option" where
  "process_begin parsed s =
     (if working s \<noteq> None then None else Some (if m_shutdown s then s else s\<lparr>working := Some parsed\<rparr>))"

text \<open>The rest of \<^verbatim>\<open>process_message\<close>: a response takes its request out of the table, an event yields the
  tasks for the callback pool.\<close>

definition process_message :: "cdp_client \<Rightarrow> (cdp_client \<times> (nat \<times> json) list) option" where
  "process_message s0 =
     (case working s0 of
        None \<Rightarrow> None
      | Some parsed \<Rightarrow>
          let s = s0\<lparr>working := None\<rparr> in
          Some (case parsed of
            None \<Rightarrow> (s, [])
          | Some message \<Rightarrow>
              (case map_option int32 (Option.bind (json_find ''id'' message) as_int) of
                 Some i \<Rightarrow>
                   (case map_of (m_pending_requests s) i of
                      Some _ \<Rightarrow> (s\<lparr>m_pending_requests := erase_key i (m_pending_requests s),
                                   held := (i, response_outcome message) # held s\<rparr>, [])
                    | None \<Rightarrow> (s, []))
               | None \<Rightarrow>
                   (case Option.bind (json_find ''method'' message) as_string of
                      None \<Rightarrow> (s, [])
                    | Some meth \<Rightarrow>
                        (case event_params message of
                           None \<Rightarrow> (s, [])
                         | Some params \<Rightarrow>
                             (s, map (\<lambda>(_, cb). (cb, params))
                                   (case map_of (m_event_callbacks s) meth of Some ls \<Rightarrow> ls | None \<Rightarrow> [])))))))"

text \<open>A whole call without another thread in between.\<close>

definition process_now :: "json option \<Rightarrow> cdp_client \<Rightarrow> cdp_client \<times> (nat \<times> json) list" where
  "process_now parsed s =
     (case process_begin parsed s of
        None \<Rightarrow> (s, [])
      | Some s1 \<Rightarrow> (case process_message s1 of None \<Rightarrow> (s1, []) | Some r \<Rightarrow> r))"

text \<open>The threads complete what they hold in any order.\<close>

definition finish_held :: "int \<Rightarrow> cdp_client \<Rightarrow> cdp_client option" where
  "finish_held i s =
     (case map_of (held s) i of
        None \<Rightarrow> None
      | Some out \<Rightarrow> Some (complete i out (s\<lparr>held := erase_key i (held s)\<rparr>)))"

definition is_stale :: "int \<Rightarrow> async_request \<Rightarrow> bool" where
  "is_stale now r \<longleftrightarrow> now - timestamp r > req_timeout r"

text \<open>The round of \<^verbatim>\<open>cleanup_loop\<close> up to the check of the flag, and the sweep itself.\<close>

definition cleanup_begin :: "cdp_client \<Rightarrow> cdp_client option" where
  "cleanup_begin s = (if m_shutdown s \<or> cleaning s then None else Some (s\<lparr>cleaning := True\<rparr>))"

definition cleanup_stale_requests :: "int \<Rightarrow> cdp_client \<Rightarrow> cdp_client option" where
  "cleanup_stale_requests now s =
     (if \<not> cleaning s then None
      else Some (s\<lparr>cleaning := False,
        held := map (\<lambda>(i, _). (i, Failed ''Request timeout''))
                  (filter (\<lambda>(_, r). is_stale now r) (m_pending_requests s)) @ held s,
        m_pending_requests := filter (\<lambda>(_, r). \<not> is_stale now r) (m_pending_requests s)\<rparr>))"

text \<open>\<^verbatim>\<open>shutdown\<close>: the flag first, and the rest once the worker and the cleanup thread have been
  joined, when neither of them is at work or holds a request any more.\<close>

definition shutdown_begin :: "cdp_client \<Rightarrow> cdp_client option" where
  "shutdown_begin s = (if m_shutdown s then None else Some (s\<lparr>m_shutdown := True\<rparr>))"

definition shutdown_finish :: "cdp_client \<Rightarrow> cdp_client option" where
  "shutdown_finish s =
     (if \<not> m_shutdown s \<or> shut_down s \<or> working s \<noteq> None \<or> cleaning s \<or> held s \<noteq> [] then None
      else Some ((fold (\<lambda>(i, _). complete i (Failed ''CDPClient shutdown'')) (m_pending_requests s) s)
        \<lparr>m_pending_requests := [], m_event_callbacks := [], m_token_to_event := [], shut_down := True\<rparr>))"

subsection \<open>The incoming queue\<close>

definition queue_limit :: nat where
  "queue_limit = 1000"

text \<open>\<open>None\<close> means that the caller waits for space.\<close>

definition handle_message :: "string \<Rightarrow> cdp_client \<Rightarrow> cdp_client option" where
  "handle_message payload s =
     (if m_shutdown s then Some s
      else if length (m_incoming_queue s) < queue_limit
        then Some (s\<lparr>m_incoming_queue := m_incoming_queue s @ [payload]\<rparr>)
      else None)"

text \<open>A round of the worker; \<open>parse\<close> is the parser of the JSON library.  An empty payload is
  skipped.\<close>

definition worker_round :: "(string \<Rightarrow> json option) \<Rightarrow> cdp_client \<Rightarrow> (cdp_client \<times> (nat \<times> json) list) option" where
  "worker_round parse s =
     (case m_incoming_queue s of
        [] \<Rightarrow> None
      | p # q \<Rightarrow>
          let s1 = s\<lparr>m_incoming_queue := q\<rparr> in
          Some (if p = [] then (s1, []) else process_now (parse p) s1))"

text \<open>After the loop the worker goes through what is left in the queue.\<close>

definition worker_drain :: "(string \<Rightarrow> json option) \<Rightarrow> cdp_client \<Rightarrow> cdp_client \<times> (nat \<times> json) list" where
  "worker_drain parse s =
     fold (\<lambda>p (st, tasks). let (st', ts) = process_now (parse p) st in (st', tasks @ ts))
       (m_incoming_queue s) (s\<lparr>m_incoming_queue := []\<rparr>, [])"

subsection \<open>Events\<close>

text \<open>The locked part of \<^verbatim>\<open>on\<close>, and the whole of it without another thread in between.\<close>

definition on_register :: "int \<Rightarrow> string \<Rightarrow> nat \<Rightarrow> cdp_client \<Rightarrow> cdp_client" where
  "on_register token event callback s =
     (let ls = (case map_of (m_event_callbacks s) event of Some ls \<Rightarrow> ls | None \<Rightarrow> []) in
      s\<lparr>m_event_callbacks := put_key event (ls @ [(token, callback)]) (m_event_callbacks s),
        m_token_to_event := put_key token event (m_token_to_event s)\<rparr>)"

definition cdp_on :: "string \<Rightarrow> nat \<Rightarrow> cdp_client \<Rightarrow> int \<times> cdp_client" where
  "cdp_on event callback s =
     (let token = m_next_event_token s; s1 = s\<lparr>m_next_event_token := token + 1\<rparr> in
      if m_shutdown s then (token, s1) else (token, on_register token event callback s1))"

definition cdp_off :: "int \<Rightarrow> cdp_client \<Rightarrow> cdp_client" where
  "cdp_off token s =
     (case map_of (m_token_to_event s) token of
        None \<Rightarrow> s
      | Some event \<Rightarrow>
          (let s1 = s\<lparr>m_token_to_event := erase_key token (m_token_to_event s)\<rparr> in
           case map_of (m_event_callbacks s1) event of
             None \<Rightarrow> s1
           | Some ls \<Rightarrow>
               (let ls' = filter (\<lambda>(t, _). t \<noteq> token) ls in
                if ls' = [] then s1\<lparr>m_event_callbacks := erase_key event (m_event_callbacks s1)\<rparr>
                else s1\<lparr>m_event_callbacks := put_key event ls' (m_event_callbacks s1)\<rparr>)))"

definition cdp_off_all :: "string \<Rightarrow> cdp_client \<Rightarrow> cdp_client" where
  "cdp_off_all event s =
     (case map_of (m_event_callbacks s) event of
        None \<Rightarrow> s
      | Some ls \<Rightarrow>
          s\<lparr>m_token_to_event := filter (\<lambda>(t, _). t \<notin> fst ` set ls) (m_token_to_event s),
            m_event_callbacks := erase_key event (m_event_callbacks s)\<rparr>)"

subsection \<open>Steps\<close>

inductive cdp_step :: "cdp_client \<Rightarrow> cdp_client \<Rightarrow> bool" where
  send_begin: "cdp_step s (send_begin now tmo s)"
| send_register: "send_register i s = Some s' \<Longrightarrow> cdp_step s s'"
| send_transmit: "send_transmit i ok s = Some s' \<Longrightarrow> cdp_step s s'"
| send_throws: "cdp_step s (send_throws s)"
| process_begin: "process_begin m s = Some s' \<Longrightarrow> cdp_step s s'"
| process_message: "process_message s = Some (s', tasks) \<Longrightarrow> cdp_step s s'"
| finish_held: "finish_held i s = Some s' \<Longrightarrow> cdp_step s s'"
| cleanup_begin: "cleanup_begin s = Some s' \<Longrightarrow> cdp_step s s'"
| cleanup: "cleanup_stale_requests now s = Some s' \<Longrightarrow> cdp_step s s'"
| shutdown_begin: "shutdown_begin s = Some s' \<Longrightarrow> cdp_step s s'"
| shutdown_finish: "shutdown_finish s = Some s' \<Longrightarrow> cdp_step s s'"
| handle_message: "handle_message p s = Some s' \<Longrightarrow> cdp_step s s'"
| dequeue: "cdp_step s (s\<lparr>m_incoming_queue := q\<rparr>)"
| on: "cdp_step s (snd (cdp_on e cb s))"
| on_register: "t < m_next_event_token s \<Longrightarrow> cdp_step s (on_register t e cb s)"
| off: "cdp_step s (cdp_off t s)"
| off_all: "cdp_step s (cdp_off_all e s)"

inductive cdp_steps :: "cdp_client \<Rightarrow> cdp_client \<Rightarrow> bool" where
  refl: "cdp_steps s s"
| step: "cdp_steps s s' \<Longrightarrow> cdp_step s' s'' \<Longrightarrow> cdp_steps s s''"

inductive_cases cdp_stepE: "cdp_step s s'"

subsection \<open>Every request is completed once or accounted for\<close>

definition open_ids :: "cdp_client \<Rightarrow> int set" where
  "open_ids s = {i. \<exists>r. (i, r) \<in> set (requests s) \<and> promise r = []}"

text \<open>The requests that some thread or the table still has in hand.\<close>

definition tracked :: "cdp_client \<Rightarrow> int set" where
  "tracked s = fst ` set (m_pending_requests s) \<union> fst ` set (held s) \<union> {i. map_of (sending s) i = Some False}"

definition requests_ok :: "cdp_client \<Rightarrow> bool" where
  "requests_ok s \<longleftrightarrow> distinct (map fst (requests s)) \<and> (\<forall>i \<in> fst ` set (requests s). i < m_next_id s) \<and>
     (\<forall>(i, r) \<in> set (requests s). (completed r \<longleftrightarrow> promise r \<noteq> []) \<and> length (promise r) \<le> 1)"

definition cdp_inv :: "cdp_client \<Rightarrow> bool" where
  "cdp_inv s \<longleftrightarrow> requests_ok s \<and> open_ids s \<subseteq> tracked s"

lemma erase_key_keys [simp]: "fst ` set (erase_key k xs) = fst ` set xs - {k}"
  by (force simp: erase_key_def)

lemma erase_key_map_of [simp]: "map_of (erase_key k xs) = (map_of xs)(k := None)"
  unfolding erase_key_def by (rule map_of_filter_neq)

lemma put_key_map_of [simp]: "map_of (put_key k v xs) = (map_of xs)(k \<mapsto> v)"
  by (simp add: put_key_def)

lemma put_key_keys [simp]: "fst ` set (put_key k v xs) = insert k (fst ` set xs)"
  by (auto simp: put_key_def)

lemma complete_fields [simp]:
  "m_pending_requests (complete i out s) = m_pending_requests s" "held (complete i out s) = held s"
  "sending (complete i out s) = sending s" "m_next_id (complete i out s) = m_next_id s"
  "m_shutdown (complete i out s) = m_shutdown s" "shut_down (complete i out s) = shut_down s"
  "map fst (requests (complete i out s)) = map fst (requests s)"
  by (auto simp: complete_def)

lemma complete_mem:
  "(k, r) \<in> set (requests (complete i out s)) \<longleftrightarrow>
     (\<exists>r0. (k, r0) \<in> set (requests s) \<and> r = (if k = i then complete_request out r0 else r0))"
  by (force simp: complete_def)

lemma complete_keys [simp]: "fst ` set (requests (complete i out s)) = fst ` set (requests s)"
  using arg_cong [OF complete_fields(7), of set] by (simp only: set_map)

lemma complete_requests_ok:
  assumes "requests_ok s"
  shows "requests_ok (complete i out s)"
proof -
  have "(completed r \<longleftrightarrow> promise r \<noteq> []) \<and> length (promise r) \<le> 1"
    if m: "(k, r) \<in> set (requests (complete i out s))" for k r
  proof -
    obtain r0 where "(k, r0) \<in> set (requests s)" "r = (if k = i then complete_request out r0 else r0)"
      using m unfolding complete_mem by blast
    with assms show ?thesis
      by (auto simp: requests_ok_def complete_request_def split: if_splits)
  qed
  with assms show ?thesis
    unfolding requests_ok_def complete_fields complete_keys by blast
qed

lemma complete_request_open:
  "(completed r \<longleftrightarrow> promise r \<noteq> []) \<Longrightarrow> promise (complete_request out r) \<noteq> []"
  by (auto simp: complete_request_def)

lemma complete_open_ids:
  assumes "requests_ok s"
  shows "open_ids (complete i out s) = open_ids s - {i}"
proof -
  have "promise (complete_request out r) \<noteq> []" if "(k, r) \<in> set (requests s)" for k r
    using assms that by (intro complete_request_open) (auto simp: requests_ok_def)
  then show ?thesis
    unfolding open_ids_def complete_mem by (auto split: if_splits)
qed

lemma complete_tracked [simp]: "tracked (complete i out s) = tracked s"
  by (simp add: tracked_def)

lemma fold_complete:
  assumes "requests_ok s"
  shows "requests_ok (fold (\<lambda>(i, _). complete i out) xs s) \<and>
    open_ids (fold (\<lambda>(i, _). complete i out) xs s) = open_ids s - fst ` set xs \<and>
    held (fold (\<lambda>(i, _). complete i out) xs s) = held s \<and>
    sending (fold (\<lambda>(i, _). complete i out) xs s) = sending s"
  using assms
proof (induction xs arbitrary: s)
  case (Cons x xs)
  then show ?case
    using complete_requests_ok [of s "fst x" out] complete_open_ids [of s "fst x" out]
    by (auto simp: case_prod_unfold)
qed simp

text \<open>Operations that leave the tables of requests alone.\<close>

lemma events_keep_requests [simp]:
  "requests (snd (cdp_on e cb s)) = requests s" "m_next_id (snd (cdp_on e cb s)) = m_next_id s"
  "tracked (snd (cdp_on e cb s)) = tracked s"
  "requests (cdp_off t s) = requests s" "m_next_id (cdp_off t s) = m_next_id s"
  "tracked (cdp_off t s) = tracked s"
  "requests (cdp_off_all e s) = requests s" "m_next_id (cdp_off_all e s) = m_next_id s"
  "tracked (cdp_off_all e s) = tracked s"
  "requests (on_register k e cb s) = requests s" "m_next_id (on_register k e cb s) = m_next_id s"
  "tracked (on_register k e cb s) = tracked s"
  by (auto simp: cdp_on_def on_register_def cdp_off_def cdp_off_all_def tracked_def Let_def split: option.splits)

lemma cdp_inv_same:
  assumes "cdp_inv s" "requests s' = requests s" "m_next_id s' = m_next_id s" "tracked s \<subseteq> tracked s'"
  shows "cdp_inv s'"
  using assms by (auto simp: cdp_inv_def requests_ok_def open_ids_def)

lemma complete_inv:
  assumes "requests_ok s" "open_ids s \<subseteq> insert i (tracked s)"
  shows "cdp_inv (complete i out s)"
  using assms complete_requests_ok [OF assms(1)] complete_open_ids [OF assms(1)]
  by (auto simp: cdp_inv_def)

lemma send_begin_inv:
  assumes "cdp_inv s"
  shows "cdp_inv (send_begin now tmo s)"
proof -
  let ?i = "m_next_id s"
  define r where "r = \<lparr>timestamp = now, req_timeout = tmo, completed = False, promise = []\<rparr>"
  define s1 where "s1 = s\<lparr>m_next_id := ?i + 1, requests := (?i, r) # requests s\<rparr>"
  have r: "promise r = []" "\<not> completed r" by (simp_all add: r_def)
  have inv: "requests_ok s" "open_ids s \<subseteq> tracked s" using assms by (auto simp: cdp_inv_def)
  have fresh: "?i \<notin> fst ` set (requests s)"
    using inv(1) by (auto simp: requests_ok_def)
  have "i < ?i + 1" if "i \<in> fst ` set (requests s)" for i
    using inv(1) that unfolding requests_ok_def by fastforce
  then have ok: "requests_ok s1"
    using inv(1) fresh r unfolding requests_ok_def s1_def by simp
  have op: "open_ids s1 = insert ?i (open_ids s)" "tracked s1 = tracked s"
    using r by (auto simp: open_ids_def s1_def tracked_def)
  show ?thesis
  proof (cases "m_shutdown s")
    case True
    then have "send_begin now tmo s = complete ?i (Failed ''Client shutdown'') s1"
      by (simp add: send_begin_def Let_def s1_def r_def)
    with complete_inv [OF ok, of ?i] op inv show ?thesis by auto
  next
    case False
    then have eq: "send_begin now tmo s = s1\<lparr>sending := (?i, False) # sending s1\<rparr>"
      by (simp add: send_begin_def Let_def s1_def r_def)
    have "tracked (s1\<lparr>sending := (?i, False) # sending s1\<rparr>) \<supseteq> insert ?i (tracked s1)"
      by (auto simp: tracked_def)
    with inv op have "open_ids s1 \<subseteq> tracked (s1\<lparr>sending := (?i, False) # sending s1\<rparr>)"
      by blast
    with ok show ?thesis
      unfolding eq cdp_inv_def by (simp add: requests_ok_def open_ids_def)
  qed
qed

lemma requests_ok_cong:
  "requests s' = requests s \<Longrightarrow> m_next_id s' = m_next_id s \<Longrightarrow> requests_ok s' = requests_ok s"
  "requests s' = requests s \<Longrightarrow> open_ids s' = open_ids s"
  by (simp_all add: requests_ok_def open_ids_def)

lemma send_register_inv:
  assumes "cdp_inv s" "send_register i s = Some s'"
  shows "cdp_inv s'"
proof -
  obtain r where s': "s' = s\<lparr>m_pending_requests := put_key i r (m_pending_requests s),
      sending := put_key i True (sending s)\<rparr>"
    using assms(2) by (auto simp: send_register_def split: option.splits bool.splits)
  have "tracked s \<subseteq> tracked s'"
    unfolding tracked_def s' by (simp del: map_of_eq_None_iff) blast
  then show ?thesis by (intro cdp_inv_same [OF assms(1)]) (simp_all add: s')
qed

lemma send_transmit_inv:
  assumes "cdp_inv s" "send_transmit i ok s = Some s'"
  shows "cdp_inv s'"
proof (cases ok)
  case True
  with assms show ?thesis
    by (auto simp: send_transmit_def Let_def tracked_def split: option.splits bool.splits
        intro!: cdp_inv_same [OF assms(1)])
next
  case False
  let ?s1 = "s\<lparr>sending := erase_key i (sending s), m_pending_requests := erase_key i (m_pending_requests s)\<rparr>"
  have "s' = complete i (Failed ''Send failed'') ?s1"
    using assms False by (auto simp: send_transmit_def Let_def split: option.splits bool.splits)
  moreover have "requests_ok ?s1" "open_ids ?s1 \<subseteq> insert i (tracked ?s1)"
    using assms by (auto simp: cdp_inv_def requests_ok_def open_ids_def tracked_def)
  ultimately show ?thesis by (simp add: complete_inv)
qed

lemma send_throws_inv: "cdp_inv s \<Longrightarrow> cdp_inv (send_throws s)"
  by (auto simp: cdp_inv_def send_throws_def requests_ok_def open_ids_def tracked_def)

lemma process_message_cases:
  assumes "process_message s = Some (s', tasks)"
  obtains "s' = s\<lparr>working := None\<rparr>"
    | i r out where "map_of (m_pending_requests s) i = Some r"
      "s' = s\<lparr>working := None, m_pending_requests := erase_key i (m_pending_requests s), held := (i, out) # held s\<rparr>"
  using assms by (auto simp: process_message_def Let_def split: option.splits)

lemma process_message_inv:
  assumes "cdp_inv s" "process_message s = Some (s', tasks)"
  shows "cdp_inv s'"
  using assms(2) by (rule process_message_cases) (auto simp: tracked_def intro!: cdp_inv_same [OF assms(1)])

lemma finish_held_inv:
  assumes "cdp_inv s" "finish_held i s = Some s'"
  shows "cdp_inv s'"
proof -
  let ?s = "s\<lparr>held := erase_key i (held s)\<rparr>"
  obtain out where h: "s' = complete i out ?s"
    using assms(2) by (auto simp: finish_held_def split: option.splits)
  have "requests_ok ?s" "open_ids ?s \<subseteq> insert i (tracked ?s)"
    using assms(1) by (auto simp: cdp_inv_def requests_ok_def open_ids_def tracked_def)
  then show ?thesis unfolding h by (rule complete_inv)
qed

lemma cleanup_inv: "cdp_inv s \<Longrightarrow> cleanup_stale_requests now s = Some s' \<Longrightarrow> cdp_inv s'"
  by (erule cdp_inv_same) (force simp: cleanup_stale_requests_def tracked_def split: if_splits)+

lemma shutdown_finish_inv:
  assumes "cdp_inv s" "shutdown_finish s = Some s'"
  shows "cdp_inv s'"
proof -
  let ?f = "fold (\<lambda>(i, _). complete i (Failed ''CDPClient shutdown'')) (m_pending_requests s) s"
  have ok: "requests_ok s" "open_ids s \<subseteq> tracked s" using assms(1) by (auto simp: cdp_inv_def)
  have s': "s' = ?f\<lparr>m_pending_requests := [], m_event_callbacks := [], m_token_to_event := [], shut_down := True\<rparr>"
    "held s = []"
    using assms(2) by (auto simp: shutdown_finish_def split: if_splits)
  have "requests_ok s'" "open_ids s' = open_ids ?f"
    using fold_complete [OF ok(1), of "Failed ''CDPClient shutdown''" "m_pending_requests s"]
      requests_ok_cong [of s' ?f] by (simp_all add: s'(1))
  then show ?thesis
    using fold_complete [OF ok(1), of "Failed ''CDPClient shutdown''" "m_pending_requests s"] ok s'
    by (auto simp: cdp_inv_def tracked_def)
qed

lemma cdp_step_inv: "cdp_step s s' \<Longrightarrow> cdp_inv s \<Longrightarrow> cdp_inv s'"
proof (induction rule: cdp_step.induct)
  case (shutdown_begin s s')
  then show ?case
    by (auto simp: shutdown_begin_def tracked_def split: if_splits intro!: cdp_inv_same [of s])
next
  case (handle_message p s s')
  then show ?case
    by (auto simp: handle_message_def tracked_def split: if_splits intro!: cdp_inv_same [of s])
next
  case (process_begin m s s')
  then show ?case
    by (auto simp: process_begin_def tracked_def split: if_splits intro!: cdp_inv_same [of s])
next
  case (cleanup_begin s s')
  then show ?case
    by (auto simp: cleanup_begin_def tracked_def split: if_splits intro!: cdp_inv_same [of s])
next
  case (on_register t s e cb)
  show ?case using on_register(2) by (rule cdp_inv_same) simp_all
next
  case (dequeue s q)
  then show ?case by (auto simp: tracked_def intro!: cdp_inv_same [of s])
next
  case (on s e cb)
  then show ?case by (rule cdp_inv_same) simp_all
next
  case (off s t)
  then show ?case by (rule cdp_inv_same) simp_all
next
  case (off_all s e)
  then show ?case by (rule cdp_inv_same) simp_all
qed (auto intro: send_begin_inv send_throws_inv send_register_inv send_transmit_inv process_message_inv finish_held_inv
    cleanup_inv shutdown_finish_inv)

lemma cdp_init_inv: "cdp_inv cdp_init"
  by (simp add: cdp_inv_def cdp_init_def requests_ok_def open_ids_def)

lemma cdp_steps_inv: "cdp_steps s s' \<Longrightarrow> cdp_inv s \<Longrightarrow> cdp_inv s'"
  by (induction rule: cdp_steps.induct) (auto intro: cdp_step_inv)

subsection \<open>A request registered after the shutdown\<close>

text \<open>The threads that could complete it are gone.\<close>

definition lost :: "int \<Rightarrow> cdp_client \<Rightarrow> bool" where
  "lost i s \<longleftrightarrow> requests_ok s \<and> m_shutdown s \<and> shut_down s \<and> i \<in> open_ids s \<and>
     i \<notin> fst ` set (held s) \<and> i \<notin> fst ` set (sending s) \<and> working s = None \<and> \<not> cleaning s"

lemma open_id_less: "requests_ok s \<Longrightarrow> i \<in> open_ids s \<Longrightarrow> i < m_next_id s"
  by (force simp: requests_ok_def open_ids_def)

lemma complete_busy: "working (complete i out s) = working s" "cleaning (complete i out s) = cleaning s"
  by (simp_all add: complete_def)

lemma lost_complete: "lost i s \<Longrightarrow> i \<noteq> j \<Longrightarrow> lost i (complete j out s)"
  by (auto simp: lost_def complete_requests_ok complete_open_ids complete_busy)

lemma lost_cong:
  assumes "lost i s" "requests s' = requests s" "m_next_id s' = m_next_id s" "m_shutdown s'" "shut_down s'"
    "fst ` set (held s') \<subseteq> fst ` set (held s)" "fst ` set (sending s') \<subseteq> fst ` set (sending s)"
    "working s' = working s" "cleaning s' = cleaning s"
  shows "lost i s'"
  using assms requests_ok_cong [of s' s] unfolding lost_def by auto

lemma lost_flags: "lost i s \<Longrightarrow> m_shutdown s \<and> shut_down s"
  by (simp add: lost_def)

lemma lost_send_begin:
  assumes "lost i s"
  shows "lost i (send_begin now tmo s)"
proof -
  define r where "r = \<lparr>timestamp = now, req_timeout = tmo, completed = False, promise = []\<rparr>"
  define s1 where "s1 = s\<lparr>m_next_id := m_next_id s + 1, requests := (m_next_id s, r) # requests s\<rparr>"
  have l: "requests_ok s" "i \<in> open_ids s" "m_shutdown s" using assms by (auto simp: lost_def)
  then have "i \<noteq> m_next_id s" using open_id_less by fastforce
  have "k < m_next_id s + 1" if "k \<in> fst ` set (requests s)" for k
    using l(1) that unfolding requests_ok_def by fastforce
  then have "requests_ok s1"
    using l(1) unfolding requests_ok_def s1_def r_def by auto
  moreover have "i \<in> open_ids s1" using l(2) by (auto simp: open_ids_def s1_def)
  ultimately have "lost i s1" using assms by (auto simp: lost_def s1_def)
  then have "lost i (complete (m_next_id s) (Failed ''Client shutdown'') s1)"
    using \<open>i \<noteq> m_next_id s\<close> by (rule lost_complete)
  then show ?thesis
    using l(3) by (simp add: send_begin_def Let_def s1_def r_def)
qed

lemma lost_send_transmit:
  assumes "lost i s" "send_transmit j ok s = Some s'"
  shows "lost i s'"
proof -
  have "j \<in> fst ` set (sending s)"
    using assms(2) by (auto simp: send_transmit_def split: option.splits bool.splits
        dest!: map_of_SomeD intro: rev_image_eqI)
  then have "i \<noteq> j" using assms(1) by (auto simp: lost_def)
  have "lost i (s\<lparr>sending := erase_key j (sending s)\<rparr>)"
    "lost i (s\<lparr>sending := erase_key j (sending s), m_pending_requests := erase_key j (m_pending_requests s)\<rparr>)"
    using lost_flags [OF assms(1)] by (intro lost_cong [OF assms(1)]; simp)+
  with \<open>i \<noteq> j\<close> assms(2) show ?thesis
    by (auto simp: send_transmit_def Let_def lost_complete split: option.splits bool.splits if_splits)
qed

lemma lost_send_register:
  assumes "lost i s" "send_register j s = Some s'"
  shows "lost i s'"
proof -
  obtain r where s': "s' = s\<lparr>m_pending_requests := put_key j r (m_pending_requests s),
      sending := put_key j True (sending s)\<rparr>" and "map_of (sending s) j = Some False"
    using assms(2) by (auto simp: send_register_def split: option.splits bool.splits)
  then have "j \<in> fst ` set (sending s)" by (force dest: map_of_SomeD)
  then show ?thesis
    using lost_flags [OF assms(1)] by (intro lost_cong [OF assms(1)]) (simp_all add: s')
qed

lemma lost_finish_held:
  assumes "lost i s" "finish_held j s = Some s'"
  shows "lost i s'"
proof -
  obtain out where h: "map_of (held s) j = Some out" "s' = complete j out (s\<lparr>held := erase_key j (held s)\<rparr>)"
    using assms(2) by (auto simp: finish_held_def split: option.splits)
  have "lost i (s\<lparr>held := erase_key j (held s)\<rparr>)"
    using lost_flags [OF assms(1)] by (intro lost_cong [OF assms(1)]) auto
  moreover have "i \<noteq> j" using assms(1) map_of_SomeD [OF h(1)] by (force simp: lost_def)
  ultimately show ?thesis unfolding h(2) by (rule lost_complete)
qed

lemma lost_send_throws: "lost i s \<Longrightarrow> lost i (send_throws s)"
  by (auto simp: lost_def send_throws_def requests_ok_def open_ids_def)

lemma lost_events:
  assumes "lost i s"
  shows "lost i (snd (cdp_on e cb s))" "lost i (cdp_off t s)" "lost i (cdp_off_all e s)"
    "lost i (s\<lparr>m_incoming_queue := q\<rparr>)" "lost i (on_register k e cb s)"
    "handle_message p s = Some s' \<Longrightarrow> lost i s'" "process_begin m s = Some s' \<Longrightarrow> lost i s'"
  using lost_flags [OF assms]
  by (intro lost_cong [OF assms]; simp add: cdp_on_def on_register_def cdp_off_def cdp_off_all_def Let_def
      process_begin_def handle_message_def split: option.splits if_splits)+

lemma lost_disabled:
  assumes "lost i s"
  shows "cleanup_begin s = None" "cleanup_stale_requests now s = None" "process_message s = None"
    "shutdown_begin s = None" "shutdown_finish s = None"
  using assms
  by (simp_all add: lost_def cleanup_begin_def cleanup_stale_requests_def process_message_def
      shutdown_begin_def shutdown_finish_def)

lemma lost_step: "cdp_step s s' \<Longrightarrow> lost i s \<Longrightarrow> lost i s'"
proof (induction rule: cdp_step.induct)
  case (on_register t s e cb)
  show ?case using on_register(2) by (rule lost_events(5))
qed (simp add: lost_disabled; fail
    | erule (1) lost_send_register lost_send_transmit lost_finish_held lost_events(6,7)
    | erule lost_send_begin lost_send_throws lost_events(1-4))+

lemma lost_steps: "cdp_steps s s' \<Longrightarrow> lost i s \<Longrightarrow> lost i s'"
  by (induction rule: cdp_steps.induct) (auto intro: lost_step)

subsection \<open>Event listeners\<close>

text \<open>The callback registered for an event under a token.\<close>

definition callback_of :: "cdp_client \<Rightarrow> string \<Rightarrow> int \<Rightarrow> nat option" where
  "callback_of s e t = (case map_of (m_event_callbacks s) e of None \<Rightarrow> None | Some ls \<Rightarrow> map_of ls t)"

text \<open>The two tables describe the same set of listeners, under tokens already given out.\<close>

definition events_ok :: "cdp_client \<Rightarrow> bool" where
  "events_ok s \<longleftrightarrow>
     (\<forall>t e. map_of (m_token_to_event s) t = Some e \<longleftrightarrow> callback_of s e t \<noteq> None) \<and>
     (\<forall>t. map_of (m_token_to_event s) t \<noteq> None \<longrightarrow> t < m_next_event_token s)"

text \<open>The listener that a token stands for, through both tables.\<close>

definition cdp_listeners :: "cdp_client \<Rightarrow> int \<rightharpoonup> string \<times> nat" where
  "cdp_listeners s t =
     (case map_of (m_token_to_event s) t of
        None \<Rightarrow> None | Some e \<Rightarrow> map_option (\<lambda>cb. (e, cb)) (callback_of s e t))"

lemma events_okD:
  assumes "events_ok s"
  shows "map_of (m_token_to_event s) t = Some e \<longleftrightarrow> callback_of s e t \<noteq> None"
    "map_of (m_token_to_event s) (m_next_event_token s) = None"
    "callback_of s e (m_next_event_token s) = None"
proof -
  show iff: "map_of (m_token_to_event s) t = Some e \<longleftrightarrow> callback_of s e t \<noteq> None" for t e
    using assms unfolding events_ok_def by blast
  show fresh: "map_of (m_token_to_event s) (m_next_event_token s) = None"
    using assms unfolding events_ok_def by (metis less_irrefl)
  show "callback_of s e (m_next_event_token s) = None"
    using iff [of "m_next_event_token s" e] fresh by simp
qed

lemma cdp_on_tables:
  assumes "\<not> m_shutdown s"
  shows "fst (cdp_on e cb s) = m_next_event_token s"
    "m_next_event_token (snd (cdp_on e cb s)) = m_next_event_token s + 1"
    "m_shutdown (snd (cdp_on e cb s)) = m_shutdown s"
    "map_of (m_token_to_event (snd (cdp_on e cb s))) t =
       (if t = m_next_event_token s then Some e else map_of (m_token_to_event s) t)"
    "callback_of s e (m_next_event_token s) = None \<Longrightarrow> callback_of (snd (cdp_on e cb s)) d t =
       (if d = e \<and> t = m_next_event_token s then Some cb else callback_of s d t)"
  using assms
  by (auto simp: cdp_on_def on_register_def Let_def callback_of_def map_add_def split: option.splits)

lemma map_of_filter_notin: "map_of (filter (\<lambda>(u, _). u \<notin> K) xs) t = (if t \<in> K then None else map_of xs t)"
  by (induction xs) auto

lemma map_of_filter_fst: "map_of (filter (\<lambda>(t, _). t \<noteq> k) ls) t = (if t = k then None else map_of ls t)"
  by (simp add: map_of_filter_neq)

lemma cdp_off_tables:
  "m_next_event_token (cdp_off k s) = m_next_event_token s" "m_shutdown (cdp_off k s) = m_shutdown s"
  "map_of (m_token_to_event (cdp_off k s)) t = (if t = k then None else map_of (m_token_to_event s) t)"
  "callback_of (cdp_off k s) d t =
     (if t = k \<and> map_of (m_token_to_event s) k = Some d then None else callback_of s d t)"
proof -
  have emp: "map_of ls t = None" if "filter (\<lambda>(t, _). t \<noteq> k) ls = []" "t \<noteq> k" for ls :: "(int \<times> nat) list"
    using map_of_filter_fst [of k ls t] that by simp
  show "callback_of (cdp_off k s) d t =
     (if t = k \<and> map_of (m_token_to_event s) k = Some d then None else callback_of s d t)"
    using emp by (auto simp: cdp_off_def Let_def callback_of_def map_of_filter_fst split: option.splits)
qed (auto simp: cdp_off_def Let_def split: option.splits)

lemma cdp_on_ok:
  assumes "events_ok s" "\<not> m_shutdown s"
  shows "events_ok (snd (cdp_on e cb s))"
  unfolding events_ok_def
proof (intro conjI allI impI)
  fix t d
  note tab = cdp_on_tables(4) [OF assms(2)] cdp_on_tables(5) [OF assms(2) events_okD(3) [OF assms(1)]]
  show "(map_of (m_token_to_event (snd (cdp_on e cb s))) t = Some d) =
      (callback_of (snd (cdp_on e cb s)) d t \<noteq> None)"
    by (cases "t = m_next_event_token s")
      (auto simp: tab events_okD(3) [OF assms(1)] events_okD(1) [OF assms(1)])
next
  fix t
  assume "map_of (m_token_to_event (snd (cdp_on e cb s))) t \<noteq> None"
  then have "t = m_next_event_token s \<or> map_of (m_token_to_event s) t \<noteq> None"
    by (auto simp: cdp_on_tables(4) [OF assms(2)] split: if_splits)
  then have "t \<le> m_next_event_token s"
    using assms(1) unfolding events_ok_def by (metis order.refl order_less_imp_le)
  then show "t < m_next_event_token (snd (cdp_on e cb s))"
    by (simp add: cdp_on_tables(2) [OF assms(2)])
qed

lemma cdp_off_ok:
  assumes "events_ok s"
  shows "events_ok (cdp_off k s)"
  using assms unfolding events_ok_def cdp_off_tables by (auto split: if_splits)

lemma cdp_on_listeners:
  assumes "events_ok s" "\<not> m_shutdown s"
  shows "cdp_listeners (snd (cdp_on e cb s)) t =
    (if t = fst (cdp_on e cb s) then Some (e, cb) else cdp_listeners s t)"
  by (simp add: cdp_listeners_def cdp_on_tables [OF assms(2)] events_okD(3) [OF assms(1)]
      split: option.splits)

lemma cdp_off_listeners:
  "cdp_listeners (cdp_off k s) t = (if t = k then None else cdp_listeners s t)"
  by (simp add: cdp_listeners_def cdp_off_tables split: option.splits)

interpretation cdp_tab: listener_table "\<lambda>s. events_ok s \<and> \<not> m_shutdown s" cdp_listeners
  "\<lambda>(e, cb). cdp_on e cb" cdp_off
proof (unfold_locales, goal_cases)
  case (1 s l)
  then show ?case
    by (simp add: case_prod_unfold cdp_on_tables cdp_listeners_def events_okD(2))
next
  case (2 s l)
  then show ?case
    by (auto simp: case_prod_unfold cdp_on_listeners fun_eq_iff)
next
  case (3 s l)
  then show ?case
    by (simp add: case_prod_unfold cdp_on_ok cdp_on_tables(3))
qed (simp_all add: fun_eq_iff cdp_off_listeners cdp_off_ok cdp_off_tables(2))

lemma cdp_off_all_listeners:
  assumes "events_ok s"
  shows "cdp_listeners (cdp_off_all e s) t =
    (case cdp_listeners s t of Some (d, cb) \<Rightarrow> if d = e then None else Some (d, cb) | None \<Rightarrow> None)"
proof (cases "map_of (m_event_callbacks s) e")
  case None
  then have "callback_of s e t = None" by (simp add: callback_of_def)
  with None show ?thesis
    by (auto simp: cdp_off_all_def cdp_listeners_def split: option.splits)
next
  case (Some ls)
  have in_ls: "t \<in> fst ` set ls \<longleftrightarrow> map_of (m_token_to_event s) t = Some e"
    using events_okD(1) [OF assms, of t e] Some by (simp add: callback_of_def map_of_eq_None_iff)
  show ?thesis
    by (auto simp: cdp_off_all_def cdp_listeners_def Some map_of_filter_notin in_ls callback_of_def split: option.splits)
qed

subsection \<open>Properties\<close>

text \<open>C5: in every interleaving of callers, worker, cleanup thread and shutdown, the promise of a
  request is set at most once, and a request whose promise is not set yet is in the table of
  pending requests, in the hands of a thread that is about to complete it, or of a caller that
  is about to register it; in particular all promises are set once nothing is under way and the
  table is empty.\<close>

theorem cdp_requests_accounted:
  assumes "cdp_steps cdp_init s" "(i, r) \<in> set (requests s)"
  shows "length (promise r) \<le> 1 \<and> (completed r \<longleftrightarrow> promise r \<noteq> []) \<and>
    (promise r = [] \<longrightarrow> i \<in> fst ` set (m_pending_requests s) \<union> fst ` set (held s) \<union>
       {i. map_of (sending s) i = Some False})"
proof -
  have "cdp_inv s" using assms(1) cdp_init_inv by (rule cdp_steps_inv)
  then have "requests_ok s" "open_ids s \<subseteq> tracked s" by (simp_all add: cdp_inv_def)
  with assms(2) show ?thesis
    by (fastforce simp: requests_ok_def open_ids_def tracked_def)
qed

text \<open>A response whose worker has passed the check of the flag when the shutdown begins.\<close>

definition racing :: cdp_client where
  "racing = cdp_init\<lparr>m_next_id := 2, m_shutdown := True,
     requests := [(1, \<lparr>timestamp = 5, req_timeout = 30, completed = False, promise = []\<rparr>)],
     held := [(1, Value JNull)]\<rparr>"

lemma racing_reachable: "cdp_steps cdp_init racing"
proof -
  define m where "m = JObj [(''id'', JInt 1), (''result'', JNull)]"
  define s1 where "s1 = send_begin 5 30 cdp_init"
  define s2 where "s2 = the (send_register 1 s1)"
  define s3 where "s3 = the (send_transmit 1 True s2)"
  define s4 where "s4 = the (process_begin (Some m) s3)"
  define s5 where "s5 = the (shutdown_begin s4)"
  note defs = s1_def s2_def s3_def s4_def s5_def send_begin_def send_register_def send_transmit_def process_begin_def
    shutdown_begin_def cdp_init_def put_key_def erase_key_def
  have 1: "cdp_steps cdp_init s1" unfolding s1_def by (rule cdp_steps.step [OF cdp_steps.refl cdp_step.send_begin])
  have "send_register 1 s1 = Some s2" by (simp add: defs)
  note 2 = cdp_steps.step [OF 1 cdp_step.send_register [OF this]]
  have "send_transmit 1 True s2 = Some s3" by (simp add: defs)
  note 3 = cdp_steps.step [OF 2 cdp_step.send_transmit [OF this]]
  have "process_begin (Some m) s3 = Some s4" by (simp add: defs)
  note 4 = cdp_steps.step [OF 3 cdp_step.process_begin [OF this]]
  have "shutdown_begin s4 = Some s5" by (simp add: defs)
  note 5 = cdp_steps.step [OF 4 cdp_step.shutdown_begin [OF this]]
  have "process_message s5 = Some (racing, [])"
    by (simp add: defs racing_def process_message_def m_def json_find_def response_outcome_def int32_def)
  then show ?thesis by (rule cdp_steps.step [OF 5 cdp_step.process_message])
qed

theorem cdp_requests_accounted_witness:
  "m_shutdown racing \<and> m_pending_requests racing = [] \<and> sending racing = [] \<and> 1 \<in> fst ` set (held racing)"
proof -
  have r: "(1, \<lparr>timestamp = 5, req_timeout = 30, completed = False, promise = []\<rparr>) \<in> set (requests racing)"
    and e: "m_shutdown racing" "m_pending_requests racing = []" "sending racing = []"
    by (simp_all add: racing_def cdp_init_def)
  show ?thesis using cdp_requests_accounted [OF racing_reachable r] e by (simp del: map_of_eq_None_iff)
qed

text \<open>C18: a caller of \<^verbatim>\<open>send_host\<close> that is overtaken by \<^verbatim>\<open>shutdown\<close> between its check of the flag
  and the registration of its request leaves a request that nothing will ever complete: the
  future it returns blocks forever, although the shutdown is meant to fail all requests.\<close>

theorem cdp_request_lost_after_shutdown:
  "\<exists>s. cdp_steps cdp_init s \<and> sending s = [] \<and> held s = [] \<and>
     Collect (cdp_steps s) \<subseteq> {s'. \<exists>r. (1, r) \<in> set (requests s') \<and> promise r = []}"
proof -
  define s1 where "s1 = send_begin 0 30000 cdp_init"
  define s2 where "s2 = the (shutdown_begin s1)"
  define s3 where "s3 = the (shutdown_finish s2)"
  define s4 where "s4 = the (send_register 1 s3)"
  define s5 where "s5 = the (send_transmit 1 True s4)"
  note defs = s1_def s2_def s3_def s4_def s5_def send_begin_def shutdown_begin_def shutdown_finish_def
    send_register_def send_transmit_def cdp_init_def put_key_def erase_key_def
  have "shutdown_begin s1 = Some s2" "shutdown_finish s2 = Some s3"
    "send_register 1 s3 = Some s4" "send_transmit 1 True s4 = Some s5"
    by (simp_all add: defs)
  then have "cdp_steps cdp_init s5"
    unfolding s1_def by (meson cdp_step.intros cdp_steps.intros)
  moreover have "lost 1 s5"
    by (simp add: lost_def defs requests_ok_def open_ids_def)
  then have "Collect (cdp_steps s5) \<subseteq> {s'. \<exists>r. (1, r) \<in> set (requests s') \<and> promise r = []}"
    using lost_steps unfolding lost_def open_ids_def by blast
  moreover have "sending s5 = []" "held s5 = []" by (simp_all add: defs)
  ultimately show ?thesis by blast
qed

text \<open>the two tables of event listeners stay consistent under registration and removal: a new
  token is unused and stands for exactly the listener registered, removing a token removes
  that listener only, and removing an event removes exactly the listeners of the event.\<close>

theorem cdp_listener_tables:
  assumes "events_ok s" "\<not> m_shutdown s" "cdp_on e cb s = (t, s')"
  shows "events_ok s' \<and> cdp_listeners s t = None \<and> cdp_listeners s' = (cdp_listeners s)(t \<mapsto> (e, cb)) \<and>
    events_ok (cdp_off k s) \<and> cdp_listeners (cdp_off k s) = (cdp_listeners s)(k := None) \<and>
    cdp_listeners (cdp_off t s') = cdp_listeners s \<and>
    (\<forall>u. cdp_listeners (cdp_off_all e s') u =
       (case cdp_listeners s' u of Some (d, c) \<Rightarrow> if d = e then None else Some (d, c) | None \<Rightarrow> None))"
proof -
  have ok: "events_ok s \<and> \<not> m_shutdown s" using assms by simp
  have ts: "t = fst (cdp_on e cb s)" "s' = snd (cdp_on e cb s)" using assms(3) by simp_all
  show ?thesis
    using cdp_tab.add_ok [OF ok, of "(e, cb)"] cdp_tab.add_fresh [OF ok, of "(e, cb)"]
      cdp_tab.add_listeners [OF ok, of "(e, cb)"] cdp_tab.remove_ok [OF ok, of k]
      cdp_tab.remove_listeners [OF ok, of k] cdp_tab.remove_undoes_add [OF ok, of "(e, cb)"]
      cdp_off_all_listeners [of s' e]
    by (simp add: ts)
qed

theorem cdp_listener_tables_witness:
  "cdp_listeners (cdp_off 1 (snd (cdp_on ''Page.x'' 3 cdp_init))) = cdp_listeners cdp_init"
proof -
  have "events_ok cdp_init" "\<not> m_shutdown cdp_init"
    by (simp_all add: events_ok_def callback_of_def cdp_init_def)
  moreover have "cdp_on ''Page.x'' 3 cdp_init = (1, snd (cdp_on ''Page.x'' 3 cdp_init))"
    by (simp add: cdp_on_def cdp_init_def Let_def)
  ultimately show ?thesis using cdp_listener_tables by blast
qed

text \<open>The loop that the worker runs after the shutdown, over the messages left in the queue, has no
  effect: \<^verbatim>\<open>process_message\<close> returns at once when the flag is set.\<close>

lemma worker_drain_drops: "m_shutdown s \<Longrightarrow> worker_drain parse s = (s\<lparr>m_incoming_queue := []\<rparr>, [])"
proof -
  assume sd: "m_shutdown s"
  have "fold (\<lambda>p (st, tasks). let (st', ts) = process_now (parse p) st in (st', tasks @ ts)) q
      (s\<lparr>m_incoming_queue := []\<rparr>, []) = (s\<lparr>m_incoming_queue := []\<rparr>, [])" for q
    using sd by (induction q) (auto simp: process_now_def process_begin_def process_message_def split: option.splits)
  then show ?thesis by (simp add: worker_drain_def)
qed

end
