(* ===== verification/Config.thy ===== *)
theory Config
  imports Json Listeners
begin

text \<open>
  The configuration store, \<^verbatim>\<open>src/system/config.cc\<close> and \<^verbatim>\<open>src/bindings/default_cfg.cc\<close>.

  The store is a JSON value with a file behind it.  Printing and parsing of JSON belong to the JSON
  library: they are the fields of \<open>json_text\<close>, with \<open>json_text_ok\<close> as what the code relies on.
  The file system is the three files the code touches; every change of it is an operation
  \<open>fs_op\<close>, and writing a file appends one character at a time, so that a prefix of the operations
  of a save is what an interrupted save leaves behind.  What the operating system decides (whether a
  file opens, how much is written, which renames succeed) is a \<open>save_plan\<close> or a \<open>load_plan\<close>.
  A listener is a pair of the type of the callable and the callable; the calls of listeners are
  collected in \<open>notified\<close>.
\<close>

subsection \<open>State\<close>

type_synonym members = "(string \<times> json) list"

type_synonym notification = "string \<times> json \<times> json"

record json_text =
  dump :: "int \<Rightarrow> json \<Rightarrow> string option"
  read_json :: "string \<Rightarrow> json option"

definition json_text_ok :: "json_text \<Rightarrow> json \<Rightarrow> bool" where
  "json_text_ok jt j \<longleftrightarrow> (\<forall>n s. dump jt n j = Some s \<longrightarrow> read_json jt s = Some j)"

record config_fs =
  cfg_file :: "string option"
  tmp_file :: "string option"
  backup_files :: "string list"

datatype fs_op = CreateTmp | WriteTmp char | RemoveTmp | RenameTmp | CreateCfg | WriteCfg char | CopyBackup

fun fs_apply :: "config_fs \<Rightarrow> fs_op \<Rightarrow> config_fs" where
  "fs_apply fs CreateTmp = fs\<lparr>tmp_file := Some []\<rparr>"
| "fs_apply fs (WriteTmp c) = fs\<lparr>tmp_file := map_option (\<lambda>s. s @ [c]) (tmp_file fs)\<rparr>"
| "fs_apply fs RemoveTmp = fs\<lparr>tmp_file := None\<rparr>"
| "fs_apply fs RenameTmp = (case tmp_file fs of None \<Rightarrow> fs | Some s \<Rightarrow> fs\<lparr>cfg_file := Some s, tmp_file := None\<rparr>)"
| "fs_apply fs CreateCfg = fs\<lparr>cfg_file := Some []\<rparr>"
| "fs_apply fs (WriteCfg c) = fs\<lparr>cfg_file := map_option (\<lambda>s. s @ [c]) (cfg_file fs)\<rparr>"
| "fs_apply fs CopyBackup = (case cfg_file fs of None \<Rightarrow> fs | Some s \<Rightarrow> fs\<lparr>backup_files := backup_files fs @ [s]\<rparr>)"

abbreviation fs_run :: "config_fs \<Rightarrow> fs_op list \<Rightarrow> config_fs" where
  "fs_run \<equiv> foldl fs_apply"

record config_manager =
  c_data :: json
  c_defaults :: members
  c_listeners :: "(nat \<times> nat) list"
  c_save_disabled :: bool
  c_fs :: config_fs
  notified :: "(nat \<times> notification) list"

record save_plan =
  tmp_opens :: bool
  written :: "nat option"
  tmp_removable :: bool
  renames :: "nat \<Rightarrow> bool"

record load_plan =
  stale_removable :: bool
  cfg_opens :: bool
  backup_works :: bool
  load_save :: save_plan

subsection \<open>Reading and writing values\<close>

text \<open>Equality of the JSON library: integers and floating point numbers compare by value.\<close>

fun json_eq :: "json \<Rightarrow> json \<Rightarrow> bool" where
  "json_eq (JInt i) (JFloat r) = (rat_of_int i = r)"
| "json_eq (JFloat r) (JInt i) = (r = rat_of_int i)"
| "json_eq (JArr xs) (JArr ys) = list_all2 json_eq xs ys"
| "json_eq (JObj kvs) (JObj kws) = list_all2 (\<lambda>(k, v) (l, w). k = l \<and> json_eq v w) kvs kws"
| "json_eq x y = (x = y)"

fun config_get :: "string list \<Rightarrow> json \<Rightarrow> json \<Rightarrow> json" where
  "config_get [] def current = def"
| "config_get [s] def current = (case json_find s current of None \<Rightarrow> def | Some v \<Rightarrow> v)"
| "config_get (s # t # r) def current =
     (case json_find s current of None \<Rightarrow> def | Some v \<Rightarrow> config_get (t # r) def v)"

text \<open>\<^verbatim>\<open>operator[]\<close> for writing: null becomes an object, any other non-object throws.\<close>

fun index_members :: "json \<Rightarrow> members result" where
  "index_members (JObj ms) = Return ms"
| "index_members JNull = Return []"
| "index_members _ = Throw ''type_error.305''"

text \<open>The walk of \<^verbatim>\<open>set\<close> down to the last segment, where the value found there and the new tree are
  returned.  The walk is never asked for with no segment.\<close>

fun set_walk :: "string list \<Rightarrow> json \<Rightarrow> json \<Rightarrow> (json \<times> json) result" where
  "set_walk [] value current = Return (JNull, current)"
| "set_walk [seg] value current =
     (let ms = json_members current;
          old_value = (case map_of ms seg of None \<Rightarrow> JNull | Some v \<Rightarrow> v) in
      Return (old_value, if json_eq old_value value then JObj ms else JObj (obj_put seg value ms)))"
| "set_walk (s # t # r) value current =
     rbind (index_members current) (\<lambda>ms.
       let child = (case map_of ms s of Some (JObj c) \<Rightarrow> JObj c | _ \<Rightarrow> JObj []) in
       rbind (set_walk (t # r) value child) (\<lambda>(old_value, child').
         Return (old_value, JObj (obj_put s child' ms))))"

definition join_segments :: "string list \<Rightarrow> string" where
  "join_segments segments = join_with CHR ''.'' segments"

subsection \<open>Listeners\<close>

definition register_listener :: "nat \<times> nat \<Rightarrow> config_manager \<Rightarrow> config_manager" where
  "register_listener l s = s\<lparr>c_listeners := c_listeners s @ [l]\<rparr>"

text \<open>\<^verbatim>\<open>target<void(...)>()\<close> asks for a function type, which is no type a \<^verbatim>\<open>std::function\<close> can hold:
  both calls return the null pointer, and only the types of the callables are compared.\<close>

definition unregister_listener :: "nat \<times> nat \<Rightarrow> config_manager \<Rightarrow> config_manager" where
  "unregister_listener l s = s\<lparr>c_listeners := filter (\<lambda>m. fst m \<noteq> fst l) (c_listeners s)\<rparr>"

definition notify_listeners :: "notification \<Rightarrow> config_manager \<Rightarrow> config_manager" where
  "notify_listeners n s = s\<lparr>notified := notified s @ map (\<lambda>l. (snd l, n)) (c_listeners s)\<rparr>"

subsection \<open>Saving\<close>

fun rename_loop :: "nat \<Rightarrow> nat \<Rightarrow> (nat \<Rightarrow> bool) \<Rightarrow> fs_op list" where
  "rename_loop 0 attempt ok = []"
| "rename_loop (Suc n) attempt ok =
     (if ok attempt then [RenameTmp] else rename_loop n (attempt + 1) ok)"

definition save_ops :: "json_text \<Rightarrow> save_plan \<Rightarrow> config_manager \<Rightarrow> fs_op list \<times> string option" where
  "save_ops jt p s =
     (if c_save_disabled s then ([], None)
      else if \<not> tmp_opens p then ([], None)
      else case dump jt 2 (c_data s) of
          None \<Rightarrow> ([CreateTmp], Some ''type_error.316'')
        | Some text \<Rightarrow>
            (case written p of
               Some n \<Rightarrow> (CreateTmp # map WriteTmp (take n text) @ (if tmp_removable p then [RemoveTmp] else []),
                         if tmp_removable p then None else Some ''filesystem_error'')
             | None \<Rightarrow> (CreateTmp # map WriteTmp text @ rename_loop 5 0 (renames p), None)))"

definition save_to_disk :: "json_text \<Rightarrow> save_plan \<Rightarrow> config_manager \<Rightarrow> config_manager \<times> string option" where
  "save_to_disk jt p s =
     (let (ops, err) = save_ops jt p s in (s\<lparr>c_fs := fs_run (c_fs s) ops\<rparr>, err))"

subsection \<open>Operations\<close>

definition config_set ::
    "json_text \<Rightarrow> save_plan \<Rightarrow> string list \<Rightarrow> json \<Rightarrow> bool \<Rightarrow> config_manager \<Rightarrow> config_manager \<times> string option" where
  "config_set jt p segments value skipPropagation s =
     (case set_walk segments value (c_data s) of
        Inl e \<Rightarrow> (s, Some e)
      | Inr (old_value, data) \<Rightarrow>
          (let s1 = s\<lparr>c_data := data\<rparr> in
           if \<not> json_eq old_value value \<and> \<not> skipPropagation
           then save_to_disk jt p (notify_listeners (join_segments segments, old_value, value) s1)
           else (s1, None)))"

fun merge_members :: "members \<Rightarrow> members \<Rightarrow> string \<Rightarrow> members \<times> notification list" where
  "merge_members current [] path = (current, [])"
| "merge_members current ((key, value) # incoming) path =
     (let fullKey = (if path = [] then key else path @ ''.'' @ key) in
      if is_object value
      then let existing = (case map_of current key of Some c \<Rightarrow> json_members c | None \<Rightarrow> []);
               (sub, ns1) = merge_members existing (json_members value) fullKey;
               (result, ns2) = merge_members (obj_put key (JObj sub) current) incoming path in
           (result, ns1 @ ns2)
      else if map_of current key = None
      then let (result, ns) = merge_members (obj_put key value current) incoming path in
           (result, (fullKey, JNull, value) # ns)
      else merge_members current incoming path)"

text \<open>At the root, the first write turns null into an object and throws on any other value that is
  not an object.\<close>

definition merge_default_config :: "json \<Rightarrow> members \<Rightarrow> (json \<times> notification list) result" where
  "merge_default_config current incoming =
     (if incoming = [] then Return (current, [])
      else rbind (index_members current) (\<lambda>ms.
        let (ms', ns) = merge_members ms incoming [] in Return (JObj ms', ns)))"

definition load_data :: "json_text \<Rightarrow> load_plan \<Rightarrow> config_manager \<Rightarrow> config_manager" where
  "load_data jt lp s =
     (case cfg_file (c_fs s) of
        None \<Rightarrow> s\<lparr>c_data := JObj []\<rparr>
      | Some text \<Rightarrow>
          if \<not> cfg_opens lp then s\<lparr>c_data := JObj [], c_save_disabled := True\<rparr>
          else (case read_json jt text of
                  Some j \<Rightarrow> s\<lparr>c_data := j\<rparr>
                | None \<Rightarrow> s\<lparr>c_data := JObj [],
                            c_fs := (if backup_works lp then fs_apply (c_fs s) CopyBackup else c_fs s)\<rparr>))"

definition load_from_disk :: "json_text \<Rightarrow> load_plan \<Rightarrow> config_manager \<Rightarrow> config_manager \<times> string option" where
  "load_from_disk jt lp s =
     (if tmp_file (c_fs s) \<noteq> None \<and> \<not> stale_removable lp then (s, Some ''filesystem_error'')
      else let s1 = load_data jt lp (s\<lparr>c_fs := fs_apply (c_fs s) RemoveTmp\<rparr>) in
        case merge_default_config (c_data s1) (c_defaults s1) of
          Inl e \<Rightarrow> (s1, Some e)
        | Inr (data, ns) \<Rightarrow> save_to_disk jt (load_save lp) (fold notify_listeners ns (s1\<lparr>c_data := data\<rparr>)))"

definition set_default_config :: "string \<Rightarrow> json \<Rightarrow> config_manager \<Rightarrow> config_manager" where
  "set_default_config key value s = s\<lparr>c_defaults := obj_put key value (c_defaults s)\<rparr>"

text \<open>\<^verbatim>\<open>items()\<close> of an array pairs the elements with their decimal positions, and of a scalar the value
  with the empty key.  \<^verbatim>\<open>old_data.value(k, null)\<close> throws unless the old data is an object; the
  handler then returns an empty object.\<close>

fun json_items :: "json \<Rightarrow> members" where
  "json_items (JObj ms) = ms"
| "json_items (JArr xs) = zip (map dec_of_nat [0..<length xs]) xs"
| "json_items JNull = []"
| "json_items j = [([], j)]"

definition set_all ::
    "json_text \<Rightarrow> save_plan \<Rightarrow> json \<Rightarrow> bool \<Rightarrow> config_manager \<Rightarrow> config_manager \<times> json" where
  "set_all jt p newConfig skipPropagation s =
     (let old_data = c_data s; s1 = s\<lparr>c_data := newConfig\<rparr>; items = json_items newConfig in
      if \<not> skipPropagation \<and> items \<noteq> [] \<and> \<not> is_object old_data then (s1, JObj [])
      else let s2 = (if skipPropagation then s1
                     else fold (\<lambda>(k, v). notify_listeners (k, config_get [k] JNull old_data, v)) items s1);
               (s3, err) = save_to_disk jt p s2 in
        (s3, if err = None then c_data s3 else JObj []))"

definition get_all :: "config_manager \<Rightarrow> json" where
  "get_all s = JObj (fold (\<lambda>(k, v). obj_put k v) (json_items (c_data s)) (c_defaults s))"

definition get_default_config :: "bool \<Rightarrow> members" where
  "get_default_config hasShownWelcomeModal =
     [(''general'', JObj
         [(''accentColor'', JStr ''DEFAULT_ACCENT_COLOR''),
          (''checkForCloudeUpdates'', JBool False),
          (''checkForPluginAndThemeUpdates'', JBool False),
          (''cloudeUpdateChannel'', JStr ''stable''),
          (''injectCSS'', JBool True),
          (''injectJavascript'', JBool True),
          (''onCloudeUpdate'', JInt 0),
          (''shouldShowThemePluginUpdateNotifications'', JBool False)]),
      (''misc'', JObj [(''hasShownWelcomeModal'', JBool hasShownWelcomeModal)]),
      (''network'', JObj
         [(''disabled'', JBool True), (''proxy'', JStr []), (''proxyPassword'', JStr []),
          (''proxyUsername'', JStr [])]),
      (''notifications'', JObj
         [(''showNotifications'', JBool True), (''showPluginNotifications'', JBool True),
          (''showUpdateNotifications'', JBool True)]),
      (''themes'', JObj
         [(''activeTheme'', JStr ''default''), (''allowedScripts'', JBool True),
          (''allowedStyles'', JBool True)])]"

text \<open>The constructor: a missing file is created with the defaults before the load.  The flag says
  whether the new file opens.\<close>

definition new_config_manager ::
    "json_text \<Rightarrow> bool \<Rightarrow> load_plan \<Rightarrow> bool \<Rightarrow> config_fs \<Rightarrow> config_manager \<times> string option" where
  "new_config_manager jt creates lp welcome fs =
     (let defaults = get_default_config welcome;
          s = \<lparr>c_data = JNull, c_defaults = defaults, c_listeners = [], c_save_disabled = False,
               c_fs = fs, notified = []\<rparr> in
      if cfg_file fs = None \<and> creates
      then (case dump jt 4 (JObj defaults) of
              None \<Rightarrow> (s\<lparr>c_fs := fs_apply fs CreateCfg\<rparr>, Some ''type_error.316'')
            | Some text \<Rightarrow>
                load_from_disk jt lp (s\<lparr>c_fs := fs_run fs (CreateCfg # map WriteCfg text)\<rparr>))
      else load_from_disk jt lp s)"

text \<open>The operations that a client may run after the start, for properties of whole sessions.\<close>

datatype config_op =
    OpSet save_plan "string list" json bool
  | OpSetAll save_plan json bool
  | OpSave save_plan
  | OpRegister "nat \<times> nat"
  | OpUnregister "nat \<times> nat"
  | OpSetDefault string json

fun config_step :: "json_text \<Rightarrow> config_manager \<Rightarrow> config_op \<Rightarrow> config_manager" where
  "config_step jt s (OpSet p segs v skip) = fst (config_set jt p segs v skip s)"
| "config_step jt s (OpSetAll p j skip) = fst (set_all jt p j skip s)"
| "config_step jt s (OpSave p) = fst (save_to_disk jt p s)"
| "config_step jt s (OpRegister l) = register_listener l s"
| "config_step jt s (OpUnregister l) = unregister_listener l s"
| "config_step jt s (OpSetDefault k v) = set_default_config k v s"

subsection \<open>Values at paths\<close>

fun json_at :: "string list \<Rightarrow> json \<Rightarrow> json option" where
  "json_at [] j = Some j"
| "json_at (s # r) j = (case json_find s j of None \<Rightarrow> None | Some v \<Rightarrow> json_at r v)"

lemma config_get_at:
  "p \<noteq> [] \<Longrightarrow> config_get p d j = (case json_at p j of None \<Rightarrow> d | Some v \<Rightarrow> v)"
  by (induction p d j rule: config_get.induct) (auto split: option.splits)

lemma json_find_simps [simp]:
  "json_find k (JObj ms) = map_of ms k" "json_find k JNull = None" "json_find k (JBool b) = None"
  "json_find k (JInt i) = None" "json_find k (JFloat r) = None" "json_find k (JStr s) = None"
  "json_find k (JArr xs) = None"
  by (simp_all add: json_find_def)

lemma json_eq_refl [simp]: "json_eq x x"
proof (induction x)
  case (JArr xs)
  then show ?case by (simp add: list.rel_refl_strong)
next
  case (JObj kvs)
  then show ?case by (auto intro!: list.rel_refl_strong)
qed simp_all

lemma json_eq_null [simp]: "json_eq JNull v \<longleftrightarrow> v = JNull"
  by (cases v) auto

lemma json_sorted_obj: "json_sorted (JObj ms) \<longleftrightarrow> obj_sorted ms \<and> (\<forall>(k, v) \<in> set ms. json_sorted v)"
  by (simp add: list_all_iff)

declare json_sorted.simps(2) [simp del]

lemma json_sorted_empty [simp]: "json_sorted (JObj [])"
  by (simp add: json_sorted_obj)

lemma json_sorted_child: "json_sorted (JObj ms) \<Longrightarrow> map_of ms k = Some v \<Longrightarrow> json_sorted v"
  by (metis (no_types, lifting) case_prodD json_sorted_obj map_of_SomeD)

lemma obj_put_set: "x \<in> set (obj_put k v ms) \<Longrightarrow> x = (k, v) \<or> x \<in> set ms"
  by (induction k v ms rule: obj_put.induct) (auto split: if_splits)

lemma json_sorted_put:
  "json_sorted (JObj ms) \<Longrightarrow> json_sorted v \<Longrightarrow> json_sorted (JObj (obj_put k v ms))"
  unfolding json_sorted_obj using obj_put_sorted obj_put_set by fastforce

lemma json_sorted_members: "json_sorted j \<Longrightarrow> json_sorted (JObj (json_members j))"
  by (cases j) auto

lemma json_sorted_keys: "json_sorted (JObj ms) \<Longrightarrow> obj_sorted ms"
  by (simp add: json_sorted_obj)

lemma index_members_ok:
  "index_members j = Inr ms \<longleftrightarrow> (j = JObj ms \<or> j = JNull \<and> ms = [])"
  by (cases j) auto

text \<open>What a walk does to the tree: the old value is what the path held, the path then holds the new
  value unless it compares equal to the old one, every path that branches off keeps its value, and
  the result is an object in key order.\<close>

lemma set_walk_spec:
  assumes "set_walk p v j = Inr (old, j')" "p \<noteq> []" "json_sorted j" "json_sorted v"
  shows "old = config_get p JNull j \<and> is_object j' \<and> json_sorted j' \<and>
    json_at p j' = (if json_eq old v then json_at p j else Some v)"
  using assms
proof (induction p v j arbitrary: old j' rule: set_walk.induct)
  case (2 seg w current)
  then have "json_sorted (JObj (json_members current))" by (simp add: json_sorted_members)
  with 2 show ?case
    by (auto simp: Let_def json_find_def obj_put_lookup json_sorted_put json_sorted_keys
        split: option.splits if_splits)
next
  case (3 s t r w current)
  obtain ms where ms: "index_members current = Inr ms"
    using 3(2) by (cases "index_members current") auto
  define child where "child = (case map_of ms s of Some (JObj c) \<Rightarrow> JObj c | _ \<Rightarrow> JObj [])"
  obtain child' where walk: "set_walk (t # r) w child = Inr (old, child')"
    and j': "j' = JObj (obj_put s child' ms)"
    using 3(2) ms by (cases "set_walk (t # r) w child") (auto simp: child_def Let_def)
  have srt: "json_sorted (JObj ms)"
    using ms 3(4) by (auto simp: index_members_ok)
  then have "json_sorted child"
    by (auto simp: child_def dest: json_sorted_child split: option.splits json.splits)
  from 3(1) [OF child_def walk _ this 3(5)]
  have IH: "old = config_get (t # r) JNull child" "json_sorted child'" "is_object child'"
    "json_at (t # r) child' = (if json_eq old w then json_at (t # r) child else Some w)"
    by auto
  have "json_at (s # t # r) current = json_at (t # r) child"
    using ms by (auto simp: child_def index_members_ok json_find_def split: option.splits json.splits)
  with IH j' srt show ?case
    by (auto simp: config_get_at obj_put_lookup json_sorted_put json_sorted_keys simp del: config_get.simps
        split: option.splits)
qed simp

lemma set_walk_frame:
  assumes "set_walk p v j = Inr (old, j')" "\<not> prefix p q" "\<not> prefix q p" "json_sorted j"
  shows "json_at q j' = json_at q j"
  using assms
proof (induction p v j arbitrary: q old j' rule: set_walk.induct)
  case (2 seg w current)
  then obtain a q' where q: "q = a # q'" "a \<noteq> seg" by (cases q) auto
  moreover have "obj_sorted (json_members current)"
    using 2 json_sorted_keys json_sorted_members by blast
  ultimately show ?case
    using 2 by (auto simp: Let_def json_find_def obj_put_lookup split: option.splits if_splits)
next
  case (3 s t r w current)
  obtain a q' where q: "q = a # q'" using 3 by (cases q) auto
  obtain ms where ms: "index_members current = Inr ms"
    using 3(2) by (cases "index_members current") auto
  define child where "child = (case map_of ms s of Some (JObj c) \<Rightarrow> JObj c | _ \<Rightarrow> JObj [])"
  obtain child' where walk: "set_walk (t # r) w child = Inr (old, child')"
    and j': "j' = JObj (obj_put s child' ms)"
    using 3(2) ms by (cases "set_walk (t # r) w child") (auto simp: child_def Let_def)
  have srt: "json_sorted (JObj ms)"
    using ms 3(5) by (auto simp: index_members_ok)
  then have cs: "json_sorted child"
    by (auto simp: child_def dest: json_sorted_child split: option.splits json.splits)
  have find: "json_find k current = map_of ms k" for k
    using ms by (auto simp: index_members_ok json_find_def)
  show ?case
  proof (cases "a = s")
    case True
    then have np: "\<not> prefix (t # r) q'" "\<not> prefix q' (t # r)"
      using 3(3,4) q by auto
    from 3(1) [OF child_def walk np cs] have "json_at q' child' = json_at q' child" .
    moreover have "q' \<noteq> []" using np by auto
    then have "json_at (s # q') current = json_at q' child"
      by (cases q') (auto simp: find child_def split: option.splits json.splits)
    ultimately show ?thesis
      using q True j' srt by (simp add: obj_put_lookup json_sorted_keys)
  next
    case False
    with q j' srt show ?thesis by (simp add: obj_put_lookup json_sorted_keys find)
  qed
qed simp

lemma set_walk_total:
  assumes "is_object j \<or> j = JNull"
  shows "\<exists>old j'. set_walk p v j = Inr (old, j')"
  using assms
proof (induction p v j rule: set_walk.induct)
  case (3 s t r w current)
  obtain ms where ms: "index_members current = Inr ms"
    using 3(2) by (cases current) auto
  have "\<exists>old j'. set_walk (t # r) w (case map_of ms s of Some (JObj c) \<Rightarrow> JObj c | _ \<Rightarrow> JObj []) = Inr (old, j')"
    by (rule 3(1) [OF refl]) (auto split: option.splits json.splits)
  with ms show ?case by auto
qed (auto simp: Let_def)

subsection \<open>Saving and crashing\<close>

lemma save_to_disk_keeps [simp]:
  "c_data (fst (save_to_disk jt p s)) = c_data s"
  "notified (fst (save_to_disk jt p s)) = notified s"
  "c_save_disabled (fst (save_to_disk jt p s)) = c_save_disabled s"
  "c_listeners (fst (save_to_disk jt p s)) = c_listeners s"
  "c_defaults (fst (save_to_disk jt p s)) = c_defaults s"
  by (simp_all add: save_to_disk_def split: prod.splits)

lemma save_disabled_noop: "c_save_disabled s \<Longrightarrow> save_to_disk jt p s = (s, None)"
  by (simp add: save_to_disk_def save_ops_def)

lemma notify_listeners_keeps [simp]:
  "c_data (notify_listeners n s) = c_data s" "c_fs (notify_listeners n s) = c_fs s"
  "c_save_disabled (notify_listeners n s) = c_save_disabled s"
  "c_defaults (notify_listeners n s) = c_defaults s"
  "c_listeners (notify_listeners n s) = c_listeners s"
  by (simp_all add: notify_listeners_def)

lemma fs_write_tmp:
  "fs_run fs (map WriteTmp t) = fs\<lparr>tmp_file := map_option (\<lambda>s. s @ t) (tmp_file fs)\<rparr>"
  by (induction t arbitrary: fs) (auto simp: option.map_comp comp_def option.map_ident)

lemma rename_loop_cases:
  "rename_loop n i ok = (if \<exists>k. i \<le> k \<and> k < i + n \<and> ok k then [RenameTmp] else [])"
proof (induction n arbitrary: i)
  case (Suc n)
  show ?case
    by (simp add: Suc) (metis Suc_leI le_eq_less_or_eq less_Suc_eq not_less_eq)
qed simp

text \<open>The configuration file is only ever replaced as a whole: before the last operation of a save,
  no operation touches it.\<close>

lemma fs_run_tmp_only:
  "list_all (\<lambda>op. op \<in> {CreateTmp, RemoveTmp} \<or> (\<exists>c. op = WriteTmp c)) ops \<Longrightarrow>
     cfg_file (fs_run fs ops) = cfg_file fs"
  by (induction ops arbitrary: fs) auto

lemma save_ops_prefix:
  "cfg_file (fs_run (c_fs s) (take n (fst (save_ops jt p s)))) = cfg_file (c_fs s) \<or>
   (\<exists>t. dump jt 2 (c_data s) = Some t \<and>
        cfg_file (fs_run (c_fs s) (take n (fst (save_ops jt p s)))) = Some t)"
proof -
  have tmp: "cfg_file (fs_run fs (take n (CreateTmp # map WriteTmp t @ us))) = cfg_file fs"
    if "us = [] \<or> us = [RemoveTmp] \<or> n \<le> Suc (length t)" for fs t us
    by (rule fs_run_tmp_only)
      (use that in \<open>auto simp: list_all_iff take_Cons' take_map dest: in_set_takeD split: if_splits\<close>)
  show ?thesis
  proof (cases "dump jt 2 (c_data s)")
    case None
    have "cfg_file (fs_run (c_fs s) (take n [CreateTmp])) = cfg_file (c_fs s)"
      by (cases n) auto
    with None show ?thesis
      by (auto simp: save_ops_def)
  next
    case (Some t)
    have full: "cfg_file (fs_run (c_fs s) (take n (CreateTmp # map WriteTmp t @ [RenameTmp]))) = Some t"
      if "\<not> n \<le> Suc (length t)"
      using that by (simp add: take_Cons' fs_write_tmp split: option.splits)
    have "cfg_file (fs_run (c_fs s) (take n (CreateTmp # map WriteTmp t @ rename_loop 5 0 ok))) =
      cfg_file (c_fs s) \<or>
      cfg_file (fs_run (c_fs s) (take n (CreateTmp # map WriteTmp t @ rename_loop 5 0 ok))) = Some t" for ok
      using tmp [where us = "[]" and fs = "c_fs s" and t = t]
        tmp [where us = "[RenameTmp]" and fs = "c_fs s" and t = t] full
      by (cases "rename_loop 5 0 ok = []"; cases "n \<le> Suc (length t)")
        (simp_all add: rename_loop_cases split: if_splits del: foldl_Cons take_Cons take_Suc_Cons)
    with Some show ?thesis
      using tmp [where us = "[]" and t = "take k t" for k] tmp [where us = "[RemoveTmp]" and t = "take k t" for k]
      by (auto simp: save_ops_def split: option.splits)
  qed
qed

lemma save_to_disk_complete:
  assumes "\<not> c_save_disabled s" "tmp_opens p" "written p = None" "k < 5" "renames p k"
    "dump jt 2 (c_data s) = Some t"
  shows "cfg_file (c_fs (fst (save_to_disk jt p s))) = Some t \<and> tmp_file (c_fs (fst (save_to_disk jt p s))) = None"
proof -
  have "rename_loop 5 0 (renames p) = [RenameTmp]"
    using assms(4,5) by (auto simp: rename_loop_cases)
  with assms show ?thesis
    by (simp add: save_to_disk_def save_ops_def fs_write_tmp)
qed

subsection \<open>Merging defaults\<close>

abbreviation merged :: "members \<Rightarrow> members \<Rightarrow> members" where
  "merged current incoming \<equiv> fst (merge_members current incoming [])"

lemma merge_step:
  "fst (merge_members cur ((k, v) # inc) path) =
     (if is_object v
      then fst (merge_members (obj_put k (JObj (fst (merge_members
             (case map_of cur k of Some c \<Rightarrow> json_members c | None \<Rightarrow> []) (json_members v)
             (if path = [] then k else path @ ''.'' @ k)))) cur) inc path)
      else if map_of cur k = None then fst (merge_members (obj_put k v cur) inc path)
      else fst (merge_members cur inc path))"
  by (simp add: Let_def split: prod.splits)

lemma merge_path_irrelevant: "fst (merge_members cur inc path) = fst (merge_members cur inc path')"
proof (induction cur inc path arbitrary: path' rule: merge_members.induct)
  case (2 cur k v inc path)
  define f f' where "f = (if path = [] then k else path @ ''.'' @ k)"
    and "f' = (if path' = [] then k else path' @ ''.'' @ k)"
  define ex where "ex = (case map_of cur k of Some c \<Rightarrow> json_members c | None \<Rightarrow> [])"
  show ?case
  proof (cases "is_object v")
    case True
    have sub: "fst (merge_members ex (json_members v) f) = fst (merge_members ex (json_members v) f')"
      using 2(1) [OF f_def True ex_def] .
    have "fst (merge_members (obj_put k (JObj (fst (merge_members ex (json_members v) f))) cur) inc path) =
        fst (merge_members (obj_put k (JObj (fst (merge_members ex (json_members v) f))) cur) inc path')"
      by (rule 2(2) [OF f_def True ex_def refl prod.collapse])
    then show ?thesis
      using True sub unfolding merge_step f_def [symmetric] f'_def [symmetric] ex_def [symmetric]
      by (simp only: if_True)
  next
    case False
    then show ?thesis
      unfolding merge_step using 2(3) [OF f_def False, of path'] 2(4) [OF f_def False, of path']
      by (cases "map_of cur k = None") auto
  qed
qed simp

lemma merged_step:
  "merged cur ((k, v) # inc) =
     (if is_object v
      then merged (obj_put k (JObj (merged
             (case map_of cur k of Some c \<Rightarrow> json_members c | None \<Rightarrow> []) (json_members v))) cur) inc
      else if map_of cur k = None then merged (obj_put k v cur) inc
      else merged cur inc)"
  unfolding merge_step [of cur k v inc "[]"]
    merge_path_irrelevant [of _ "json_members v" "if [] = [] then k else [] @ ''.'' @ k" "[]"] by (rule refl)

text \<open>What the merged object holds under a key.\<close>

lemma merged_lookup:
  assumes "obj_sorted cur" "distinct (map fst inc)"
  shows "map_of (merged cur inc) k =
    (case map_of inc k of
       None \<Rightarrow> map_of cur k
     | Some v \<Rightarrow> if is_object v
         then Some (JObj (merged (case map_of cur k of Some c \<Rightarrow> json_members c | None \<Rightarrow> []) (json_members v)))
         else Some (case map_of cur k of Some u \<Rightarrow> u | None \<Rightarrow> v))"
  using assms
proof (induction inc arbitrary: cur)
  case (Cons x inc)
  obtain l v where x: "x = (l, v)" by (cases x)
  have fresh: "map_of inc l = None" using Cons.prems x by (simp add: map_of_eq_None_iff)
  have IH: "map_of (merged c inc) k =
    (case map_of inc k of
       None \<Rightarrow> map_of c k
     | Some v \<Rightarrow> if is_object v
         then Some (JObj (merged (case map_of c k of Some c \<Rightarrow> json_members c | None \<Rightarrow> []) (json_members v)))
         else Some (case map_of c k of Some u \<Rightarrow> u | None \<Rightarrow> v))" if "obj_sorted c" for c
    using Cons that by simp
  show ?case
  proof (cases "l = k")
    case True
    with Cons.prems fresh show ?thesis
      unfolding x merged_step by (simp add: IH obj_put_sorted obj_put_lookup split: option.splits)
  next
    case False
    with Cons.prems show ?thesis
      unfolding x merged_step by (simp add: IH obj_put_sorted obj_put_lookup split: option.splits)
  qed
qed simp

lemma merged_sorted: "obj_sorted cur \<Longrightarrow> obj_sorted (merged cur inc)"
proof (induction inc arbitrary: cur)
  case (Cons x inc)
  then show ?case
    by (cases x) (simp add: merged_step obj_put_sorted del: merge_members.simps)
qed simp

lemma sorted_distinct_keys: "json_sorted (JObj ms) \<Longrightarrow> distinct (map fst ms)"
  using json_sorted_keys strict_sorted_iff by blast

lemma json_sorted_existing:
  "json_sorted (JObj ms) \<Longrightarrow> json_sorted (JObj (case map_of ms k of Some c \<Rightarrow> json_members c | None \<Rightarrow> []))"
  by (auto dest: json_sorted_child json_sorted_members split: option.splits)

text \<open>Merging at paths: a default that is not an object is present afterwards, with the value the user
  gave it if there is one, and every value of the user that does not stand where the defaults have
  an object is kept.\<close>

lemma merged_default_at:
  assumes "json_sorted (JObj user)" "json_sorted (JObj defs)"
    "json_at p (JObj defs) = Some v" "\<not> is_object v"
  shows "json_at p (JObj (merged user defs)) = Some (case json_at p (JObj user) of Some u \<Rightarrow> u | None \<Rightarrow> v)"
  using assms
proof (induction p arbitrary: user defs)
  case Nil
  then show ?case by (metis is_object.simps(1) json_at.simps(1) option.inject)
next
  case (Cons k p)
  obtain w where w: "map_of defs k = Some w" "json_at p w = Some v"
    using Cons.prems by (auto split: option.splits)
  define ex where "ex = (case map_of user k of Some c \<Rightarrow> json_members c | None \<Rightarrow> [])"
  note look = merged_lookup [OF json_sorted_keys [OF Cons.prems(1)] sorted_distinct_keys [OF Cons.prems(2)], of k]
  show ?case
  proof (cases "is_object w")
    case True
    then obtain wm where wm: "w = JObj wm" by (cases w) auto
    have "p \<noteq> []" using Cons.prems w wm by auto
    then have "json_at (k # p) (JObj user) = json_at p (JObj ex)"
      by (cases p) (auto simp: ex_def json_find_def split: option.splits)
    moreover have "json_at p (JObj (merged ex wm)) = Some (case json_at p (JObj ex) of Some u \<Rightarrow> u | None \<Rightarrow> v)"
      using Cons.IH [of ex wm] Cons.prems w wm json_sorted_existing [of user k]
        json_sorted_child [OF Cons.prems(2) w(1)] by (simp add: ex_def)
    ultimately show ?thesis
      using look w wm by (simp add: ex_def)
  next
    case False
    then have "p = []" using w by (cases p; cases w) (auto split: option.splits)
    with look w False show ?thesis by (auto split: option.splits)
  qed
qed

lemma merged_user_at:
  assumes "json_sorted (JObj user)" "json_sorted (JObj defs)"
    "json_at p (JObj user) = Some u" "\<And>o'. json_at p (JObj defs) \<noteq> Some (JObj o')"
  shows "json_at p (JObj (merged user defs)) = Some u"
  using assms
proof (induction p arbitrary: user defs)
  case Nil
  then show ?case by (metis json_at.simps(1))
next
  case (Cons k p)
  obtain c where c: "map_of user k = Some c" "json_at p c = Some u"
    using Cons.prems by (auto split: option.splits)
  note look = merged_lookup [OF json_sorted_keys [OF Cons.prems(1)] sorted_distinct_keys [OF Cons.prems(2)], of k]
  show ?case
  proof (cases "\<exists>wm. map_of defs k = Some (JObj wm)")
    case True
    then obtain wm where wm: "map_of defs k = Some (JObj wm)" ..
    have "p \<noteq> []" using Cons.prems(4) [of wm] wm by auto
    then obtain cm where cm: "c = JObj cm"
      using c by (cases p; cases c) auto
    have "json_at p (JObj (merged cm wm)) = Some u"
      using Cons.IH [of cm wm] Cons.prems(4) c cm wm json_sorted_child [OF Cons.prems(1) c(1)]
        json_sorted_child [OF Cons.prems(2) wm] by simp
    with look wm c cm show ?thesis by simp
  next
    case False
    then have "\<not> is_object w" if "map_of defs k = Some w" for w
      using that by (cases w) auto
    with look c show ?thesis by (auto split: option.splits)
  qed
qed

text \<open>Merging a second time changes nothing and calls no listener.\<close>

fun covers :: "members \<Rightarrow> members \<Rightarrow> bool" where
  "covers cur [] = True"
| "covers cur ((k, v) # inc) =
     ((case map_of cur k of
         None \<Rightarrow> False
       | Some u \<Rightarrow> is_object v \<longrightarrow> is_object u \<and> covers (json_members u) (json_members v)) \<and> covers cur inc)"

lemma covers_iff:
  "covers cur inc \<longleftrightarrow> (\<forall>(k, v) \<in> set inc. \<exists>u. map_of cur k = Some u \<and>
     (is_object v \<longrightarrow> is_object u \<and> covers (json_members u) (json_members v)))"
  by (induction inc) (auto split: option.splits)

lemma obj_put_same: "obj_sorted ms \<Longrightarrow> map_of ms k = Some v \<Longrightarrow> obj_put k v ms = ms"
proof (induction ms)
  case (Cons x ms)
  obtain l w where x: "x = (l, w)" by (cases x)
  have "l < k" if "l \<noteq> k"
    using Cons.prems that x by (auto dest!: map_of_SomeD)
  with Cons x show ?case by auto
qed simp

lemma merge_covered:
  "covers cur inc \<Longrightarrow> json_sorted (JObj cur) \<Longrightarrow> merge_members cur inc path = (cur, [])"
proof (induction cur inc path rule: merge_members.induct)
  case (2 cur k v inc path)
  obtain u where u: "map_of cur k = Some u" "is_object v \<longrightarrow> is_object u \<and> covers (json_members u) (json_members v)"
    using 2(5) by (auto split: option.splits)
  have rest: "covers cur inc" using 2(5) by simp
  show ?case
  proof (cases "is_object v")
    case True
    then have uo: "u = JObj (json_members u)" using u by (cases u) auto
    have "merge_members (json_members u) (json_members v) f = (json_members u, [])"
      if "f = (if path = [] then k else path @ ''.'' @ k)" for f
      using 2(1) [OF that True, of "json_members u"] u True json_sorted_child [OF 2(6) u(1)] uo by simp
    moreover have "obj_put k (JObj (json_members u)) cur = cur"
      using obj_put_same [OF json_sorted_keys [OF 2(6)] u(1)] uo by simp
    ultimately show ?thesis
      using 2(2) [OF refl True, of "json_members u"] True u rest 2(6) by (simp add: Let_def)
  next
    case False
    with 2(4) [OF refl False] u rest 2(6) show ?thesis by (simp add: Let_def)
  qed
qed simp

lemma merged_json_sorted:
  "json_sorted (JObj cur) \<Longrightarrow> json_sorted (JObj inc) \<Longrightarrow> json_sorted (JObj (fst (merge_members cur inc path)))"
proof (induction cur inc path rule: merge_members.induct)
  case (2 cur k v inc path)
  have v: "json_sorted v" "json_sorted (JObj inc)"
    using 2(6) by (auto simp: json_sorted_obj)
  note ex = json_sorted_existing [OF 2(5), of k]
  show ?case
  proof (cases "is_object v")
    case True
    have sub: "json_sorted (JObj (fst (merge_members (case map_of cur k of Some c \<Rightarrow> json_members c | None \<Rightarrow> [])
        (json_members v) (if path = [] then k else path @ ''.'' @ k))))"
      using 2(1) [OF refl True refl ex json_sorted_members [OF v(1)]] .
    show ?thesis
      using 2(2) [OF refl True refl refl prod.collapse json_sorted_put [OF 2(5) sub] v(2)] True
      unfolding merge_step by (simp only: if_True)
  next
    case False
    then show ?thesis
      unfolding merge_step using 2(3) [OF refl False] 2(4) [OF refl False] 2(5) v
      by (simp add: json_sorted_put)
  qed
qed simp

lemma member_size: "(k, v) \<in> set ms \<Longrightarrow> size_list (\<lambda>p. size (snd p)) (json_members v) < size_list (\<lambda>p. size (snd p)) ms"
  using json_members_size [of v] by (induction ms) auto

lemma merged_covers:
  "json_sorted (JObj user) \<Longrightarrow> json_sorted (JObj defs) \<Longrightarrow> covers (merged user defs) defs"
proof (induction defs arbitrary: user rule: measure_induct_rule [where f = "size_list (\<lambda>p. size (snd p))"])
  case (less defs)
  have "\<exists>u. map_of (merged user defs) k = Some u \<and>
     (is_object v \<longrightarrow> is_object u \<and> covers (json_members u) (json_members v))" if kv: "(k, v) \<in> set defs" for k v
  proof -
    have look: "map_of defs k = Some v"
      using kv sorted_distinct_keys [OF less.prems(2)] by (simp add: map_of_is_SomeI)
    note m = merged_lookup [OF json_sorted_keys [OF less.prems(1)] sorted_distinct_keys [OF less.prems(2)], of k]
    define ex where "ex = (case map_of user k of Some c \<Rightarrow> json_members c | None \<Rightarrow> [])"
    have "json_sorted (JObj ex)"
      unfolding ex_def by (rule json_sorted_existing [OF less.prems(1)])
    then have "covers (merged ex (json_members v)) (json_members v)"
      using less.IH [OF member_size [OF kv]]
        json_sorted_members [OF json_sorted_child [OF less.prems(2) look]] by blast
    moreover have "map_of (merged user defs) k = (if is_object v then Some (JObj (merged ex (json_members v)))
        else Some (case map_of user k of Some u \<Rightarrow> u | None \<Rightarrow> v))"
      unfolding m ex_def look option.case ..
    ultimately show ?thesis
      by (cases "is_object v") simp_all
  qed
  then show ?case by (intro iffD2 [OF covers_iff]) blast
qed

lemma merge_idempotent:
  "json_sorted (JObj user) \<Longrightarrow> json_sorted (JObj defs) \<Longrightarrow>
     merge_members (merged user defs) defs path = (merged user defs, [])"
  by (intro merge_covered merged_covers merged_json_sorted)

lemma default_config_sorted: "json_sorted (JObj (get_default_config b))"
  by (simp add: get_default_config_def json_sorted_obj)

subsection \<open>Sessions\<close>

lemma fold_notify_keeps [simp]:
  "c_data (fold notify_listeners ns s) = c_data s" "c_fs (fold notify_listeners ns s) = c_fs s"
  "c_save_disabled (fold notify_listeners ns s) = c_save_disabled s"
  by (induction ns arbitrary: s) simp_all

lemma fold_notify_items_keeps [simp]:
  "c_fs (fold (\<lambda>(k, v). notify_listeners (k, g k, v)) ns s) = c_fs s"
  "c_save_disabled (fold (\<lambda>(k, v). notify_listeners (k, g k, v)) ns s) = c_save_disabled s"
  "c_data (fold (\<lambda>(k, v). notify_listeners (k, g k, v)) ns s) = c_data s"
  by (induction ns arbitrary: s) auto

lemma config_step_disabled:
  "c_save_disabled s \<Longrightarrow> c_save_disabled (config_step jt s op) \<and> c_fs (config_step jt s op) = c_fs s"
  by (cases op)
    (auto simp: config_set_def set_all_def Let_def save_disabled_noop register_listener_def
      unregister_listener_def set_default_config_def split: sum.splits prod.splits)

lemma config_run_disabled:
  "c_save_disabled s \<Longrightarrow> c_fs (foldl (config_step jt) s ops) = c_fs s"
  by (induction ops arbitrary: s) (simp_all add: config_step_disabled)

subsection \<open>Properties\<close>



text \<open>C3: a save that is cut off after any number of its file operations (a character of the text
  is one operation) leaves a file from which the next start reads either the data of before or the
  new data in full, and a save that runs to its end with a successful rename leaves the new data.\<close>

theorem config_save_crash_safe:
  assumes "cfg_file (c_fs s) = Some t" "read_json jt t = Some old" "json_text_ok jt (c_data s)" "cfg_opens lp"
  shows "c_data (load_data jt lp (s\<lparr>c_fs := fs_run (c_fs s) (take n (fst (save_ops jt p s)))\<rparr>)) \<in> {old, c_data s} \<and>
    (\<not> c_save_disabled s \<and> tmp_opens p \<and> written p = None \<and> (\<exists>k < 5. renames p k) \<and> dump jt 2 (c_data s) \<noteq> None
     \<longrightarrow> c_data (load_data jt lp (fst (save_to_disk jt p s))) = c_data s)"
proof (intro conjI impI)
  show "c_data (load_data jt lp (s\<lparr>c_fs := fs_run (c_fs s) (take n (fst (save_ops jt p s)))\<rparr>)) \<in> {old, c_data s}"
    using save_ops_prefix [of s n jt p] assms by (auto simp: load_data_def json_text_ok_def)
next
  assume "\<not> c_save_disabled s \<and> tmp_opens p \<and> written p = None \<and> (\<exists>k < 5. renames p k) \<and> dump jt 2 (c_data s) \<noteq> None"
  then show "c_data (load_data jt lp (fst (save_to_disk jt p s))) = c_data s"
    using save_to_disk_complete [of s p _ jt] assms(3,4) by (auto simp: load_data_def json_text_ok_def)
qed

theorem config_save_crash_safe_witness:
  "let jt = \<lparr>dump = (\<lambda>_ j. if j = JInt 2 then Some ''2'' else None),
             read_json = (\<lambda>t. if t = ''1'' then Some (JInt 1) else if t = ''2'' then Some (JInt 2) else None)\<rparr>;
       p = \<lparr>tmp_opens = True, written = None, tmp_removable = True, renames = (\<lambda>k. k = 3)\<rparr>;
       lp = \<lparr>stale_removable = True, cfg_opens = True, backup_works = True, load_save = p\<rparr>;
       s = \<lparr>c_data = JInt 2, c_defaults = [], c_listeners = [], c_save_disabled = False,
            c_fs = \<lparr>cfg_file = Some ''1'', tmp_file = None, backup_files = []\<rparr>, notified = []\<rparr> in
   c_data (load_data jt lp (s\<lparr>c_fs := fs_run (c_fs s) (take 2 (fst (save_ops jt p s)))\<rparr>)) \<in> {JInt 1, c_data s} \<and>
   c_data (load_data jt lp (fst (save_to_disk jt p s))) = c_data s"
  unfolding Let_def
proof (intro conjI, goal_cases)
  case 1
  show ?case
    by (rule config_save_crash_safe [where t = "''1''", THEN conjunct1]) (simp_all add: json_text_ok_def)
next
  case 2
  show ?case
    by (rule config_save_crash_safe [where t = "''1''" and old = "JInt 1", THEN conjunct2, THEN mp])
      (auto simp: json_text_ok_def)
qed

text \<open>C35: when an existing file could not be opened at the start, nothing the program does in the
  session changes the file.\<close>

theorem config_locked_file_preserved:
  assumes "cfg_file (c_fs s) = Some t" "\<not> cfg_opens lp" "stale_removable lp"
  shows "cfg_file (c_fs (foldl (config_step jt) (fst (load_from_disk jt lp s)) ops)) = Some t"
proof -
  define s1 where "s1 = load_data jt lp (s\<lparr>c_fs := fs_apply (c_fs s) RemoveTmp\<rparr>)"
  have s1: "c_save_disabled s1" "cfg_file (c_fs s1) = Some t"
    using assms by (simp_all add: s1_def load_data_def)
  then have "c_save_disabled (fst (load_from_disk jt lp s)) \<and> c_fs (fst (load_from_disk jt lp s)) = c_fs s1"
    using assms unfolding load_from_disk_def Let_def s1_def [symmetric]
    by (auto simp: save_disabled_noop split: sum.splits)
  with s1 show ?thesis by (simp add: config_run_disabled)
qed

theorem config_locked_file_preserved_witness:
  "let p = \<lparr>tmp_opens = True, written = None, tmp_removable = True, renames = (\<lambda>_. True)\<rparr>;
       s = \<lparr>c_data = JNull, c_defaults = get_default_config True, c_listeners = [], c_save_disabled = False,
            c_fs = \<lparr>cfg_file = Some ''1'', tmp_file = Some ''x'', backup_files = []\<rparr>, notified = []\<rparr> in
   cfg_file (c_fs (foldl (config_step \<lparr>dump = (\<lambda>_ _. Some ''2''), read_json = (\<lambda>_. None)\<rparr>)
     (fst (load_from_disk \<lparr>dump = (\<lambda>_ _. Some ''2''), read_json = (\<lambda>_. None)\<rparr>
        \<lparr>stale_removable = True, cfg_opens = False, backup_works = True, load_save = p\<rparr> s))
     [OpSet p [''a'', ''b''] (JInt 1) False, OpSave p])) = Some ''1''"
  unfolding Let_def by (rule config_locked_file_preserved) simp_all

text \<open>C26: merging the defaults into the user's data succeeds on every object; afterwards every
  default setting is present, with the user's value if there is one and the default otherwise;
  every value of the user that does not stand where the defaults have an object is kept; and merging
  again changes nothing and calls no listener.\<close>

theorem config_merge_defaults:
  assumes "json_sorted (JObj user)" "json_sorted (JObj defs)" "defs \<noteq> []"
  shows "\<exists>ms ns. merge_default_config (JObj user) defs = Inr (JObj ms, ns) \<and>
    (\<forall>p v. json_at p (JObj defs) = Some v \<and> \<not> is_object v \<longrightarrow>
       json_at p (JObj ms) = Some (case json_at p (JObj user) of Some u \<Rightarrow> u | None \<Rightarrow> v)) \<and>
    (\<forall>p u. json_at p (JObj user) = Some u \<and> (\<forall>sub. json_at p (JObj defs) \<noteq> Some (JObj sub)) \<longrightarrow>
       json_at p (JObj ms) = Some u) \<and>
    merge_default_config (JObj ms) defs = Inr (JObj ms, [])"
proof -
  have "merge_default_config (JObj user) defs = Inr (JObj (merged user defs), snd (merge_members user defs []))"
    using assms(3) by (simp add: merge_default_config_def Let_def split: prod.splits)
  moreover have "merge_default_config (JObj (merged user defs)) defs = Inr (JObj (merged user defs), [])"
    using assms by (simp add: merge_default_config_def merge_idempotent)
  ultimately show ?thesis
    using merged_default_at [OF assms(1,2)] merged_user_at [OF assms(1,2)] by blast
qed

theorem config_merge_defaults_witness:
  "\<exists>ms ns. merge_default_config (JObj [(''network'', JInt 3), (''themes'', JObj [(''activeTheme'', JStr ''x'')])])
       (get_default_config True) = Inr (JObj ms, ns) \<and>
     json_at [''themes'', ''activeTheme''] (JObj ms) = Some (JStr ''x'') \<and>
     json_at [''network'', ''disabled''] (JObj ms) = Some (JBool True)"
proof -
  let ?u = "[(''network'', JInt 3), (''themes'', JObj [(''activeTheme'', JStr ''x'')])]"
  have "json_sorted (JObj ?u)" "get_default_config True \<noteq> []"
    by (simp_all add: json_sorted_obj get_default_config_def)
  from config_merge_defaults [OF this(1) default_config_sorted this(2)]
  obtain ms ns where "merge_default_config (JObj ?u) (get_default_config True) = Inr (JObj ms, ns)"
    and m: "\<And>p v. json_at p (JObj (get_default_config True)) = Some v \<Longrightarrow> \<not> is_object v \<Longrightarrow>
       json_at p (JObj ms) = Some (case json_at p (JObj ?u) of Some u \<Rightarrow> u | None \<Rightarrow> v)"
    by blast
  moreover have "json_at [''themes'', ''activeTheme''] (JObj ms) = Some (JStr ''x'')"
    by (subst m [where v = "JStr ''default''"]) (simp_all add: get_default_config_def)
  moreover have "json_at [''network'', ''disabled''] (JObj ms) = Some (JBool True)"
    by (subst m [where v = "JBool True"]) (simp_all add: get_default_config_def)
  ultimately show ?thesis by blast
qed

text \<open>a configuration file that holds valid JSON which is neither an object nor null makes the
  start throw, with the file left as it is, so that every later start throws too; only a file that
  is not JSON at all is reset.\<close>

theorem config_non_object_file_throws:
  assumes "cfg_file fs = Some t" "read_json jt t = Some j" "\<not> is_object j" "j \<noteq> JNull"
    and "cfg_opens lp" "stale_removable lp"
  shows "snd (new_config_manager jt creates lp welcome fs) = Some ''type_error.305'' \<and>
    cfg_file (c_fs (fst (new_config_manager jt creates lp welcome fs))) = Some t"
proof -
  have "index_members j = Inl ''type_error.305''"
    using assms(3,4) by (cases j) auto
  with assms show ?thesis
    by (simp add: new_config_manager_def load_from_disk_def load_data_def merge_default_config_def
        get_default_config_def Let_def)
qed

theorem config_non_object_file_throws_witness:
  "snd (new_config_manager \<lparr>dump = (\<lambda>_ _. None), read_json = (\<lambda>_. Some (JArr []))\<rparr> True
     \<lparr>stale_removable = True, cfg_opens = True, backup_works = True,
       load_save = \<lparr>tmp_opens = True, written = None, tmp_removable = True, renames = (\<lambda>_. True)\<rparr>\<rparr> False
     \<lparr>cfg_file = Some ''[]'', tmp_file = None, backup_files = []\<rparr>) = Some ''type_error.305''"
  by (rule conjunct1 [OF config_non_object_file_throws [where j = "JArr []"]]) simp_all

text \<open>Unregistering a listener also removes every other listener of the same callable type.\<close>

lemma unregister_removes_same_type:
  "(a, 2) \<notin> set (c_listeners (unregister_listener (a, 1) (register_listener (a, 2) s)))"
  by (simp add: unregister_listener_def register_listener_def)

end
