(* ===== verification/PluginConfig.thy ===== *)
theory PluginConfig
  imports Config Base64
begin

text \<open>
  The per-plugin settings, \<^verbatim>\<open>src/bindings/plugin_config.cc\<close>: what a plugin stores lives in the
  configuration store under \<^verbatim>\<open>plugins.<name>.config\<close>.  An operation returns the store, an exception
  or the pair of the success flag and the value, and the messages sent to the frontend and to the
  plugin's process.
\<close>

datatype origin = from_frontend | from_lua_child | from_external

datatype change_message = EvalJs string | NotifyChild string string json

record notify_targets =
  has_eval_js :: bool
  has_bm :: bool

type_synonym pc_outcome = "config_manager \<times> (bool \<times> json) result \<times> change_message list"

definition is_reserved_name :: "string \<Rightarrow> bool" where
  "is_reserved_name name \<longleftrightarrow> name = ''enabledPlugins''"

definition reserved_error :: "string \<Rightarrow> string" where
  "reserved_error name = ''reserved plugin name: '' @ name"

abbreviation plugin_path :: "string \<Rightarrow> string list" where
  "plugin_path name \<equiv> [''plugins'', name, ''config'']"

text \<open>\<^verbatim>\<open>json::size()\<close>.\<close>

fun json_size :: "json \<Rightarrow> nat" where
  "json_size JNull = 0"
| "json_size (JArr xs) = length xs"
| "json_size (JObj ms) = length ms"
| "json_size _ = 1"

definition validate_limits :: "json_text \<Rightarrow> string \<Rightarrow> string \<Rightarrow> json \<Rightarrow> config_manager \<Rightarrow> string result" where
  "validate_limits jt plugin_name key val s =
     (if is_reserved_name plugin_name then Return (reserved_error plugin_name)
      else if length key > 512 then Return ''config key too long (max 512 bytes)''
      else let current = config_get (plugin_path plugin_name) (JObj []) (c_data s) in
        if \<not> json_contains key current \<and> json_size current \<ge> 256
        then Return ''plugin config key limit exceeded (max 256)''
        else case dump jt (-1) val of
            None \<Rightarrow> Throw ''type_error.316''
          | Some t \<Rightarrow> if int (length t) > 262144 then Return ''plugin config value too large (max 256KB)''
                      else Return [])"

definition change_script :: "string \<Rightarrow> string \<Rightarrow> string \<Rightarrow> string" where
  "change_script plugin_name key value_json =
     ''window.__cloude_plugin_config_changed__ && window.__cloude_plugin_config_changed__(atob(''
     @ CHR 0x22 # Base64Encode plugin_name @ CHR 0x22 # ''), atob('' @ CHR 0x22 # Base64Encode key
     @ CHR 0x22 # ''), atob('' @ CHR 0x22 # Base64Encode value_json @ CHR 0x22 # ''))''"

definition notify_change ::
    "json_text \<Rightarrow> notify_targets \<Rightarrow> origin \<Rightarrow> string \<Rightarrow> string \<Rightarrow> json \<Rightarrow> change_message list result" where
  "notify_change jt t src plugin_name key val =
     (case (if val = JNull then Some ''null'' else dump jt (-1) val) of
        None \<Rightarrow> Throw ''type_error.316''
      | Some value_json \<Rightarrow> Return
          ((if src \<noteq> from_frontend \<and> has_eval_js t then [EvalJs (change_script plugin_name key value_json)] else []) @
           (if src \<noteq> from_lua_child \<and> has_bm t
            then [NotifyChild plugin_name ''config_changed'' (JObj [(''key'', JStr key), (''value'', val)])] else [])))"

definition pc_get :: "string \<Rightarrow> string \<Rightarrow> config_manager \<Rightarrow> bool \<times> json" where
  "pc_get plugin_name key s =
     (if is_reserved_name plugin_name then (False, JStr (reserved_error plugin_name))
      else if key = [] then (False, JStr ''missing key'')
      else (True, config_get (plugin_path plugin_name @ [key]) JNull (c_data s)))"

definition pc_get_all :: "string \<Rightarrow> config_manager \<Rightarrow> bool \<times> json" where
  "pc_get_all plugin_name s =
     (if is_reserved_name plugin_name then (False, JStr (reserved_error plugin_name))
      else (True, config_get (plugin_path plugin_name) (JObj []) (c_data s)))"

definition pc_success :: json where
  "pc_success = JObj [(''success'', JBool True)]"

text \<open>The tail that the three writers share: write without propagation, save, and pass the change on;
  an exception of a step ends the operation.\<close>

definition pc_store ::
    "json_text \<Rightarrow> save_plan \<Rightarrow> string list \<Rightarrow> json \<Rightarrow> change_message list result \<Rightarrow> config_manager \<Rightarrow> pc_outcome" where
  "pc_store jt sp path val messages s =
     (case config_set jt sp path val True s of
        (s1, Some e) \<Rightarrow> (s1, Throw e, [])
      | (s1, None) \<Rightarrow>
          (case save_to_disk jt sp s1 of
             (s2, Some e) \<Rightarrow> (s2, Throw e, [])
           | (s2, None) \<Rightarrow>
               (case messages of Inl e \<Rightarrow> (s2, Throw e, []) | Inr ms \<Rightarrow> (s2, Return (True, pc_success), ms))))"

definition pc_set ::
    "json_text \<Rightarrow> save_plan \<Rightarrow> notify_targets \<Rightarrow> origin \<Rightarrow> string \<Rightarrow> string \<Rightarrow> json \<Rightarrow> config_manager \<Rightarrow> pc_outcome" where
  "pc_set jt sp t src plugin_name key val s =
     (if key = [] then (s, Return (False, JStr ''missing key''), [])
      else case validate_limits jt plugin_name key val s of
          Inl e \<Rightarrow> (s, Throw e, [])
        | Inr err \<Rightarrow>
            if err \<noteq> [] then (s, Return (False, JStr err), [])
            else pc_store jt sp (plugin_path plugin_name @ [key]) val (notify_change jt t src plugin_name key val) s)"

text \<open>\<^verbatim>\<open>config.erase(key)\<close> throws unless the value is an object.\<close>

definition pc_del ::
    "json_text \<Rightarrow> save_plan \<Rightarrow> notify_targets \<Rightarrow> origin \<Rightarrow> string \<Rightarrow> string \<Rightarrow> config_manager \<Rightarrow> pc_outcome" where
  "pc_del jt sp t src plugin_name key s =
     (if is_reserved_name plugin_name then (s, Return (False, JStr (reserved_error plugin_name)), [])
      else if key = [] then (s, Return (False, JStr ''missing key''), [])
      else let config = config_get (plugin_path plugin_name) (JObj []) (c_data s) in
        if \<not> is_object config then (s, Throw ''type_error.307'', [])
        else pc_store jt sp (plugin_path plugin_name) (JObj (obj_erase key (json_members config)))
               (notify_change jt t src plugin_name key JNull) s)"

definition pc_delete_all :: "json_text \<Rightarrow> save_plan \<Rightarrow> string \<Rightarrow> config_manager \<Rightarrow> pc_outcome" where
  "pc_delete_all jt sp plugin_name s =
     (if plugin_name = [] then (s, Return (False, JStr ''missing pluginName''), [])
      else if is_reserved_name plugin_name then (s, Return (False, JStr (reserved_error plugin_name)), [])
      else pc_store jt sp (plugin_path plugin_name) (JObj []) (Return []) s)"

datatype pc_op =
    PcSet save_plan notify_targets origin string string json
  | PcDel save_plan notify_targets origin string string
  | PcDeleteAll save_plan string

fun pc_step :: "json_text \<Rightarrow> config_manager \<Rightarrow> pc_op \<Rightarrow> pc_outcome" where
  "pc_step jt s (PcSet sp t src name key val) = pc_set jt sp t src name key val s"
| "pc_step jt s (PcDel sp t src name key) = pc_del jt sp t src name key s"
| "pc_step jt s (PcDeleteAll sp name) = pc_delete_all jt sp name s"

fun op_plugin :: "pc_op \<Rightarrow> string" where
  "op_plugin (PcSet sp t src name key val) = name"
| "op_plugin (PcDel sp t src name key) = name"
| "op_plugin (PcDeleteAll sp name) = name"

fun op_sorted :: "pc_op \<Rightarrow> bool" where
  "op_sorted (PcSet sp t src name key val) = json_sorted val"
| "op_sorted _ = True"

subsection \<open>Limits\<close>

definition member_within :: "json_text \<Rightarrow> string \<times> json \<Rightarrow> bool" where
  "member_within jt m \<longleftrightarrow> length (fst m) \<le> 512 \<and>
     (case dump jt (-1) (snd m) of None \<Rightarrow> False | Some t \<Rightarrow> int (length t) \<le> 262144)"

definition within_limits :: "json_text \<Rightarrow> string \<Rightarrow> json \<Rightarrow> bool" where
  "within_limits jt name data \<longleftrightarrow>
     (case json_at (plugin_path name) data of
        Some (JObj c) \<Rightarrow> length c \<le> 256 \<and> list_all (member_within jt) c
      | _ \<Rightarrow> True)"

definition store_ok :: "config_manager \<Rightarrow> bool" where
  "store_ok s \<longleftrightarrow> is_object (c_data s) \<and> json_sorted (c_data s)"

subsection \<open>Lemmas\<close>

lemma set_walk_container:
  assumes "set_walk (p @ [k]) v j = Inr (old, j')" "json_sorted j"
  defines "c \<equiv> (case json_at p j of Some x \<Rightarrow> json_members x | None \<Rightarrow> [])"
  shows "json_at p j' = Some (JObj (if json_eq old v then c else obj_put k v c)) \<and>
    old = (case map_of c k of None \<Rightarrow> JNull | Some x \<Rightarrow> x)"
  using assms(1,2) unfolding c_def
proof (induction p arbitrary: j old j')
  case (Cons s p)
  obtain t r where tr: "p @ [k] = t # r" by (cases "p @ [k]") auto
  have walk1: "set_walk ((s # p) @ [k]) v j = rbind (index_members j) (\<lambda>ms.
       let child = (case map_of ms s of Some (JObj c) \<Rightarrow> JObj c | _ \<Rightarrow> JObj []) in
       rbind (set_walk (p @ [k]) v child) (\<lambda>(old_value, child').
         Return (old_value, JObj (obj_put s child' ms))))"
    unfolding append_Cons tr set_walk.simps ..
  obtain ms where ms: "index_members j = Inr ms"
    using Cons.prems(1) unfolding walk1 by (cases "index_members j") auto
  define child where "child = (case map_of ms s of Some (JObj c) \<Rightarrow> JObj c | _ \<Rightarrow> JObj [])"
  obtain child' where walk: "set_walk (p @ [k]) v child = Inr (old, child')"
    and j': "j' = JObj (obj_put s child' ms)"
    using Cons.prems(1) unfolding walk1 ms
    by (cases "set_walk (p @ [k]) v child") (auto simp: child_def Let_def)
  have srt: "json_sorted (JObj ms)"
    using ms Cons.prems(2) by (auto simp: index_members_ok)
  then have cs: "json_sorted child"
    by (auto simp: child_def dest: json_sorted_child split: option.splits json.splits)
  have "json_find s j = map_of ms s"
    using ms by (auto simp: index_members_ok)
  then have c: "(case json_at (s # p) j of Some x \<Rightarrow> json_members x | None \<Rightarrow> []) =
      (case json_at p child of Some x \<Rightarrow> json_members x | None \<Rightarrow> [])"
    by (cases p) (auto simp: child_def split: option.splits json.splits)
  have "json_at (s # p) j' = json_at p child'"
    using j' srt by (simp add: obj_put_lookup json_sorted_keys)
  with Cons.IH [OF walk cs] show ?case
    unfolding c by simp
qed (simp add: Let_def split: if_splits)

lemma config_set_skip:
  assumes "store_ok s"
  obtains old data where "set_walk p v (c_data s) = Inr (old, data)"
    "config_set jt sp p v True s = (s\<lparr>c_data := data\<rparr>, None)"
proof -
  obtain old data where "set_walk p v (c_data s) = Inr (old, data)"
    using set_walk_total assms unfolding store_ok_def by blast
  with that show ?thesis by (simp add: config_set_def)
qed

text \<open>What the shared tail leaves in the store, whichever of its steps throws.\<close>

lemma pc_store_data:
  assumes "store_ok s" "set_walk p v (c_data s) = Inr (old, data)"
  shows "c_data (fst (pc_store jt sp p v ms s)) = data"
proof -
  obtain s2 e where eq: "save_to_disk jt sp (s\<lparr>c_data := data\<rparr>) = (s2, e)" by fastforce
  have "c_data s2 = data"
    using arg_cong [OF eq, of "\<lambda>x. c_data (fst x)"] by simp
  with assms eq show ?thesis
    by (auto simp: pc_store_def config_set_def split: option.splits sum.splits)
qed

lemma pc_store_spec:
  assumes "store_ok s" "p \<noteq> []" "json_sorted v" and s'_def: "s' = fst (pc_store jt sp p v ms s)"
  shows "store_ok s'" "json_eq (config_get p JNull (c_data s')) v"
    "\<not> prefix p q \<Longrightarrow> \<not> prefix q p \<Longrightarrow> json_at q (c_data s') = json_at q (c_data s)"
proof -
  obtain old data where w: "set_walk p v (c_data s) = Inr (old, data)"
    using config_set_skip [OF assms(1)] by metis
  then have d: "c_data s' = data" unfolding s'_def using pc_store_data assms(1) by blast
  have srt: "json_sorted (c_data s)" using assms(1) by (simp add: store_ok_def)
  note spec = set_walk_spec [OF w assms(2) srt assms(3)]
  then show "store_ok s'" by (simp add: store_ok_def d)
  show "json_eq (config_get p JNull (c_data s')) v"
    using spec assms(2) d by (auto simp: config_get_at split: if_splits option.splits)
  show "json_at q (c_data s') = json_at q (c_data s)" if "\<not> prefix p q" "\<not> prefix q p"
    using set_walk_frame [OF w that srt] d by simp
qed

lemma obj_put_length: "obj_sorted ms \<Longrightarrow> length (obj_put k v ms) = (if map_of ms k = None then length ms + 1 else length ms)"
proof (induction ms)
  case (Cons x ms)
  obtain l w where x: "x = (l, w)" by (cases x)
  have "map_of ms k = None" if "k < l"
    using Cons.prems that x by (auto simp: map_of_eq_None_iff)
  with Cons x show ?case by auto
qed simp

lemma reserved_error_nonempty: "reserved_error name \<noteq> []"
  by (simp add: reserved_error_def)

lemma pc_set_cases:
  assumes "fst (pc_set jt sp t src name key val s) \<noteq> s"
  defines "current \<equiv> config_get (plugin_path name) (JObj []) (c_data s)"
  shows "\<not> is_reserved_name name \<and> member_within jt (key, val) \<and>
    (json_contains key current \<or> json_size current < 256) \<and>
    pc_set jt sp t src name key val s =
       pc_store jt sp (plugin_path name @ [key]) val (notify_change jt t src name key val) s"
proof -
  have key: "key \<noteq> []" using assms(1) by (auto simp: pc_set_def)
  have v: "validate_limits jt name key val s = Return []"
  proof (cases "validate_limits jt name key val s")
    case (Inr err)
    with assms(1) key show ?thesis by (cases err) (simp_all add: pc_set_def)
  qed (use assms(1) key in \<open>simp add: pc_set_def\<close>)
  have nr: "\<not> is_reserved_name name"
    using v reserved_error_nonempty by (auto simp: validate_limits_def)
  have len: "length key \<le> 512"
    using v nr by (simp add: validate_limits_def split: if_splits)
  have cnt: "json_contains key current \<or> json_size current < 256"
    using v nr len unfolding current_def validate_limits_def Let_def by (simp only: simp_thms if_False split: if_splits) auto
  have "case dump jt (-1) val of None \<Rightarrow> False | Some t \<Rightarrow> int (length t) \<le> 262144"
    using v nr len cnt unfolding current_def [symmetric] validate_limits_def Let_def
    by (cases "dump jt (-1) val") (auto split: if_splits)
  with v key nr len cnt show ?thesis
    by (simp add: pc_set_def member_within_def)
qed

lemma pc_del_cases:
  assumes "fst (pc_del jt sp t src name key s) \<noteq> s"
  obtains c where "\<not> is_reserved_name name" "config_get (plugin_path name) (JObj []) (c_data s) = JObj c"
    "pc_del jt sp t src name key s =
       pc_store jt sp (plugin_path name) (JObj (obj_erase key c)) (notify_change jt t src name key JNull) s"
proof (cases "config_get (plugin_path name) (JObj []) (c_data s)")
  case (JObj c)
  with assms that show ?thesis
    by (auto simp: pc_del_def Let_def split: if_splits)
qed (use assms in \<open>auto simp: pc_del_def Let_def split: if_splits\<close>)

lemma pc_delete_all_cases:
  assumes "fst (pc_delete_all jt sp name s) \<noteq> s"
  shows "\<not> is_reserved_name name \<and>
    pc_delete_all jt sp name s = pc_store jt sp (plugin_path name) (JObj []) (Return []) s"
  using assms by (auto simp: pc_delete_all_def split: if_splits)

lemma json_at_sorted: "json_sorted j \<Longrightarrow> json_at p j = Some v \<Longrightarrow> json_sorted v"
proof (induction p arbitrary: j)
  case (Cons k p)
  then show ?case
    by (cases j) (auto split: option.splits dest: json_sorted_child)
qed simp

lemma erased_sorted: "json_sorted (JObj c) \<Longrightarrow> json_sorted (JObj (obj_erase k c))"
  using obj_erase_sorted [of c k] by (auto simp: json_sorted_obj obj_erase_def)

text \<open>Every operation writes below the path of its plugin or not at all.\<close>

lemma pc_step_store:
  assumes "store_ok s" "op_sorted op" "fst (pc_step jt s op) \<noteq> s"
  obtains p v ms sp where "fst (pc_step jt s op) = fst (pc_store jt sp p v ms s)" "prefix (plugin_path (op_plugin op)) p"
    "json_sorted v" "\<not> is_reserved_name (op_plugin op)"
proof (cases op)
  case (PcSet sp t src name key val)
  have "fst (pc_set jt sp t src name key val s) \<noteq> s" using assms(3) PcSet by simp
  from pc_set_cases [OF this] show ?thesis
    by (intro that [of sp "plugin_path name @ [key]" val "notify_change jt t src name key val"])
      (use PcSet assms(2) in auto)
next
  case (PcDel sp t src name key)
  have "fst (pc_del jt sp t src name key s) \<noteq> s" using assms(3) PcDel by simp
  then show ?thesis
  proof (cases rule: pc_del_cases)
    case (1 c)
    have "json_sorted (JObj c)"
      using 1(2) assms(1) json_at_sorted [of "c_data s" "plugin_path name"]
      by (auto simp: config_get_at store_ok_def simp del: config_get.simps json_at.simps split: option.splits)
    then show ?thesis
      by (intro that [of sp "plugin_path name" "JObj (obj_erase key c)" "notify_change jt t src name key JNull"])
        (use 1 PcDel erased_sorted in auto)
  qed
next
  case (PcDeleteAll sp name)
  then have "fst (pc_delete_all jt sp name s) \<noteq> s" using assms(3) by simp
  from pc_delete_all_cases [OF this] show ?thesis
    by (intro that [of sp "plugin_path name" "JObj []" "Return []"]) (use PcDeleteAll in auto)
qed

lemma prefix_branch:
  "prefix a p \<Longrightarrow> \<not> prefix a q \<Longrightarrow> \<not> prefix q a \<Longrightarrow> \<not> prefix p q \<and> \<not> prefix q p"
  using prefix_order.trans prefix_same_cases by blast

lemma pc_step_frame:
  assumes "store_ok s" "op_sorted op"
  shows "store_ok (fst (pc_step jt s op))"
    and "\<not> prefix (plugin_path (op_plugin op)) q \<Longrightarrow> \<not> prefix q (plugin_path (op_plugin op)) \<Longrightarrow>
      json_at q (c_data (fst (pc_step jt s op))) = json_at q (c_data s)"
proof -
  have "store_ok (fst (pc_step jt s op)) \<and>
    (\<not> prefix (plugin_path (op_plugin op)) q \<longrightarrow> \<not> prefix q (plugin_path (op_plugin op)) \<longrightarrow>
      json_at q (c_data (fst (pc_step jt s op))) = json_at q (c_data s))"
  proof (cases "fst (pc_step jt s op) = s")
    case False
    then obtain p v ms sp where st: "fst (pc_step jt s op) = fst (pc_store jt sp p v ms s)"
      "prefix (plugin_path (op_plugin op)) p" "json_sorted v"
      using pc_step_store [OF assms] by metis
    have "p \<noteq> []" using st(2) by auto
    note spec = pc_store_spec [OF assms(1) this st(3,1)]
    with prefix_branch [OF st(2), of q] show ?thesis by blast
  qed (simp add: assms(1))
  then show "store_ok (fst (pc_step jt s op))"
    and "\<not> prefix (plugin_path (op_plugin op)) q \<Longrightarrow> \<not> prefix q (plugin_path (op_plugin op)) \<Longrightarrow>
      json_at q (c_data (fst (pc_step jt s op))) = json_at q (c_data s)" by blast+
qed

lemma json_members_cases: "json_members j = [] \<or> j = JObj (json_members j)"
  by (cases j) auto

lemma obj_put_all: "list_all P ms \<Longrightarrow> P (k, v) \<Longrightarrow> list_all P (obj_put k v ms)"
  using obj_put_set unfolding list_all_iff by fast

lemma pc_set_within:
  assumes "store_ok s" "within_limits jt name (c_data s)"
  shows "within_limits jt name (c_data (fst (pc_set jt sp t src name key val s)))"
proof (cases "fst (pc_set jt sp t src name key val s) = s")
  case False
  note cs = pc_set_cases [OF False]
  define c where "c = (case json_at (plugin_path name) (c_data s) of Some x \<Rightarrow> json_members x | None \<Rightarrow> [])"
  obtain old data where w: "set_walk (plugin_path name @ [key]) val (c_data s) = Inr (old, data)"
    using config_set_skip [OF assms(1)] by metis
  then have d: "c_data (fst (pc_set jt sp t src name key val s)) = data"
    using cs pc_store_data [OF assms(1)] by metis
  have srt: "json_sorted (c_data s)" using assms(1) by (simp add: store_ok_def)
  have at: "json_at (plugin_path name) data = Some (JObj (if json_eq old val then c else obj_put key val c))"
    using set_walk_container [OF w srt] unfolding c_def by blast
  have "obj_sorted c"
    using json_at_sorted [OF srt, of "plugin_path name"] unfolding c_def
    by (cases "json_at (plugin_path name) (c_data s)")
      (auto intro: json_sorted_keys json_sorted_members simp del: json_at.simps)
  moreover have cc: "c = [] \<or> json_at (plugin_path name) (c_data s) = Some (JObj c)"
    unfolding c_def using json_members_cases by (metis option.case_eq_if option.collapse)
  ultimately have lim: "length c \<le> 256" "list_all (member_within jt) c" "obj_sorted c"
    using assms(2) by (auto simp: within_limits_def simp del: json_at.simps)
  have "config_get (plugin_path name) (JObj []) (c_data s) =
      (case json_at (plugin_path name) (c_data s) of None \<Rightarrow> JObj [] | Some v \<Rightarrow> v)"
    by (rule config_get_at) simp
  then have "length (obj_put key val c) \<le> 256"
    using cs lim cc
    by (auto simp: obj_put_length json_contains_def simp del: json_at.simps config_get.simps split: if_splits)
  moreover have "list_all (member_within jt) (obj_put key val c)"
    using cs lim by (simp add: obj_put_all)
  ultimately show ?thesis
    unfolding d within_limits_def at using lim by simp
qed (simp add: assms(2))

lemma pc_replace_within:
  assumes "store_ok s" "within_limits jt name (c_data s)" "length c \<le> 256" "list_all (member_within jt) c"
    "json_sorted (JObj c)"
  shows "within_limits jt name (c_data (fst (pc_store jt sp (plugin_path name) (JObj c) ms s)))"
proof -
  obtain old data where w: "set_walk (plugin_path name) (JObj c) (c_data s) = Inr (old, data)"
    using config_set_skip [OF assms(1)] by metis
  have "plugin_path name \<noteq> []" "json_sorted (c_data s)"
    using assms(1) by (simp_all add: store_ok_def)
  from set_walk_spec [OF w this assms(5)]
  have "json_at (plugin_path name) data = json_at (plugin_path name) (c_data s) \<or>
    json_at (plugin_path name) data = Some (JObj c)" by argo
  then show ?thesis
    unfolding pc_store_data [OF assms(1) w] within_limits_def
    using assms(2-4) by (auto simp: within_limits_def simp del: json_at.simps)
qed

lemma erase_within:
  "length c \<le> 256 \<Longrightarrow> list_all (member_within jt) c \<Longrightarrow>
     length (obj_erase k c) \<le> 256 \<and> list_all (member_within jt) (obj_erase k c)"
  using le_trans [OF length_filter_le] by (auto simp: obj_erase_def list_all_iff)

lemma pc_step_within:
  assumes "store_ok s" "op_sorted op" "\<And>name. within_limits jt name (c_data s)"
  shows "within_limits jt name (c_data (fst (pc_step jt s op)))"
proof (cases "name = op_plugin op")
  case False
  then have "json_at (plugin_path name) (c_data (fst (pc_step jt s op))) = json_at (plugin_path name) (c_data s)"
    by (intro pc_step_frame(2) [OF assms(1,2)]) auto
  with assms(3) [of name] show ?thesis unfolding within_limits_def by simp
next
  case True
  show ?thesis
  proof (cases op)
    case (PcSet sp t src n key val)
    with True assms show ?thesis by (simp add: pc_set_within)
  next
    case (PcDel sp t src n key)
    show ?thesis
    proof (cases "fst (pc_del jt sp t src n key s) = s")
      case False
      then show ?thesis
      proof (cases rule: pc_del_cases)
        case (1 c)
        have at: "c = [] \<or> json_at (plugin_path n) (c_data s) = Some (JObj c)"
          using 1(2) config_get_at [of "plugin_path n" "JObj []" "c_data s"]
          by (auto simp del: config_get.simps json_at.simps split: option.splits)
        then have "length c \<le> 256 \<and> list_all (member_within jt) c \<and> json_sorted (JObj c)"
          using assms(3) [of n] json_at_sorted [of "c_data s"] assms(1)
          by (auto simp: within_limits_def store_ok_def simp del: json_at.simps)
        then show ?thesis
          using pc_replace_within [OF assms(1,3), where c = "obj_erase key c"] erase_within [of c jt key]
            erased_sorted [of c key] 1(3) True PcDel by simp
      qed
    qed (use PcDel assms in simp)
  next
    case (PcDeleteAll sp n)
    show ?thesis
    proof (cases "fst (pc_delete_all jt sp n s) = s")
      case False
      from pc_delete_all_cases [OF False] show ?thesis
        using pc_replace_within [OF assms(1,3), where c = "[]"] True PcDeleteAll by simp
    qed (use PcDeleteAll assms in simp)
  qed
qed

subsection \<open>Properties\<close>

abbreviation pc_run :: "json_text \<Rightarrow> config_manager \<Rightarrow> pc_op list \<Rightarrow> config_manager" where
  "pc_run jt \<equiv> foldl (\<lambda>s op. fst (pc_step jt s op))"

text \<open>C11: whatever plugins write, delete and clear, in any order and whatever the saves do, no plugin
  ever has more than 256 settings, a key longer than 512 bytes or a value that prints to more than
  256 KB, and the store stays a JSON object in key order.\<close>

theorem plugin_config_limits:
  assumes "store_ok s" "\<forall>name. within_limits jt name (c_data s)" "list_all op_sorted ops"
  shows "store_ok (pc_run jt s ops) \<and> within_limits jt name (c_data (pc_run jt s ops))"
  using assms
proof (induction ops arbitrary: s)
  case (Cons op ops)
  then show ?case
    using pc_step_frame(1) [of s op jt] pc_step_within [of s op jt] by simp
qed simp

theorem plugin_config_limits_witness:
  "within_limits \<lparr>dump = (\<lambda>_ _. Some ''1''), read_json = (\<lambda>_. None)\<rparr> ''p''
     (c_data (pc_run \<lparr>dump = (\<lambda>_ _. Some ''1''), read_json = (\<lambda>_. None)\<rparr>
        \<lparr>c_data = JObj [], c_defaults = [], c_listeners = [], c_save_disabled = True,
         c_fs = \<lparr>cfg_file = None, tmp_file = None, backup_files = []\<rparr>, notified = []\<rparr>
        [PcSet \<lparr>tmp_opens = True, written = None, tmp_removable = True, renames = (\<lambda>_. True)\<rparr>
           \<lparr>has_eval_js = True, has_bm = True\<rparr> from_frontend ''p'' ''k'' (JInt 1)]))"
  by (rule conjunct2 [OF plugin_config_limits]) (simp_all add: store_ok_def within_limits_def)

text \<open>C10: an operation of one plugin changes no setting of another plugin and not the list of enabled
  plugins, and an operation under the reserved name is refused without any change.\<close>

theorem plugin_config_isolated:
  assumes "store_ok s" "op_sorted op"
  shows "(\<forall>other key. other \<noteq> op_plugin op \<longrightarrow>
      pc_get_all other (fst (pc_step jt s op)) = pc_get_all other s \<and>
      pc_get other key (fst (pc_step jt s op)) = pc_get other key s) \<and>
    config_get [''plugins'', ''enabledPlugins''] d (c_data (fst (pc_step jt s op))) =
      config_get [''plugins'', ''enabledPlugins''] d (c_data s) \<and>
    (is_reserved_name (op_plugin op) \<longrightarrow> fst (pc_step jt s op) = s \<and> (\<exists>e. fst (snd (pc_step jt s op)) = Return (False, JStr e)))"
proof (intro conjI allI impI)
  fix other key
  assume ne: "other \<noteq> op_plugin op"
  then have "json_at (plugin_path other) (c_data (fst (pc_step jt s op))) = json_at (plugin_path other) (c_data s)"
    "json_at (plugin_path other @ [key]) (c_data (fst (pc_step jt s op))) = json_at (plugin_path other @ [key]) (c_data s)"
    by (auto intro!: pc_step_frame(2) [OF assms] simp del: json_at.simps)
  then show "pc_get_all other (fst (pc_step jt s op)) = pc_get_all other s"
    "pc_get other key (fst (pc_step jt s op)) = pc_get other key s"
    unfolding pc_get_all_def pc_get_def by (simp_all only: config_get_at append_Cons list.distinct not_False_eq_True)
next
  show "config_get [''plugins'', ''enabledPlugins''] d (c_data (fst (pc_step jt s op))) =
      config_get [''plugins'', ''enabledPlugins''] d (c_data s)"
  proof (cases "is_reserved_name (op_plugin op)")
    case True
    then show ?thesis using pc_step_store [OF assms] by metis
  next
    case False
    then have "json_at [''plugins'', ''enabledPlugins''] (c_data (fst (pc_step jt s op))) =
        json_at [''plugins'', ''enabledPlugins''] (c_data s)"
      by (intro pc_step_frame(2) [OF assms]) (auto simp: is_reserved_name_def)
    then show ?thesis by (simp add: config_get_at del: config_get.simps json_at.simps)
  qed
next
  assume "is_reserved_name (op_plugin op)"
  then show "fst (pc_step jt s op) = s" "\<exists>e. fst (snd (pc_step jt s op)) = Return (False, JStr e)"
    by (cases op; simp add: pc_set_def validate_limits_def pc_del_def pc_delete_all_def reserved_error_def)+
qed

theorem plugin_config_isolated_witness:
  "let s = \<lparr>c_data = JObj [(''plugins'', JObj [(''a'', JObj [(''config'', JObj [(''k'', JInt 1)])])])],
        c_defaults = [], c_listeners = [], c_save_disabled = True,
        c_fs = \<lparr>cfg_file = None, tmp_file = None, backup_files = []\<rparr>, notified = []\<rparr> in
   pc_get_all ''a'' (fst (pc_step \<lparr>dump = (\<lambda>_ _. Some ''1''), read_json = (\<lambda>_. None)\<rparr> s
     (PcDeleteAll \<lparr>tmp_opens = True, written = None, tmp_removable = True, renames = (\<lambda>_. True)\<rparr> ''b''))) =
   pc_get_all ''a'' s"
  unfolding Let_def
  by (rule plugin_config_isolated [THEN conjunct1, rule_format, THEN conjunct1])
    (simp_all add: store_ok_def json_sorted_obj)

text \<open>a successful write is read back (up to the equality of the JSON library), and the writer is
  not told of its own change: a change made by the frontend is not sent to the frontend and one made
  by the plugin's process is not sent to the process.\<close>

theorem plugin_config_set_get:
  assumes "store_ok s" "json_sorted val" "pc_set jt sp t src name key val s = (s', Return (True, r), ms)"
  shows "(\<exists>v. pc_get name key s' = (True, v) \<and> json_eq v val) \<and>
    list_all (\<lambda>m. case m of EvalJs _ \<Rightarrow> src \<noteq> from_frontend
       | NotifyChild n _ j \<Rightarrow> src \<noteq> from_lua_child \<and> n = name \<and> j = JObj [(''key'', JStr key), (''value'', val)]) ms"
proof -
  have key: "key \<noteq> []" using assms(3) by (auto simp: pc_set_def)
  obtain err where v: "validate_limits jt name key val s = Inr err"
    using assms(3) key by (cases "validate_limits jt name key val s") (auto simp: pc_set_def)
  then have err: "err = []" using assms(3) key by (auto simp: pc_set_def split: if_splits)
  then have nr: "\<not> is_reserved_name name"
    using v by (auto simp: validate_limits_def reserved_error_def)
  have st: "pc_set jt sp t src name key val s =
      pc_store jt sp (plugin_path name @ [key]) val (notify_change jt t src name key val) s"
    using key v err by (simp add: pc_set_def)
  then have s': "s' = fst (pc_store jt sp (plugin_path name @ [key]) val (notify_change jt t src name key val) s)"
    using arg_cong [OF assms(3), of fst] unfolding st by simp
  have "json_eq (config_get (plugin_path name @ [key]) JNull (c_data s')) val"
    by (rule pc_store_spec(2) [OF assms(1) _ assms(2) s']) simp
  moreover have "notify_change jt t src name key val = Return ms"
    using assms(3) unfolding st pc_store_def by (auto split: prod.splits option.splits sum.splits)
  then have "list_all (\<lambda>m. case m of EvalJs _ \<Rightarrow> src \<noteq> from_frontend
       | NotifyChild n _ j \<Rightarrow> src \<noteq> from_lua_child \<and> n = name \<and> j = JObj [(''key'', JStr key), (''value'', val)]) ms"
    by (auto simp: notify_change_def split: option.splits if_splits)
  ultimately show ?thesis using key nr by (simp add: pc_get_def del: config_get.simps)
qed

theorem plugin_config_set_get_witness:
  "let s = \<lparr>c_data = JObj [], c_defaults = [], c_listeners = [], c_save_disabled = True,
        c_fs = \<lparr>cfg_file = None, tmp_file = None, backup_files = []\<rparr>, notified = []\<rparr>;
       s' = fst (pc_set \<lparr>dump = (\<lambda>_ _. Some ''1''), read_json = (\<lambda>_. None)\<rparr>
         \<lparr>tmp_opens = True, written = None, tmp_removable = True, renames = (\<lambda>_. True)\<rparr>
         \<lparr>has_eval_js = True, has_bm = True\<rparr> from_frontend ''p'' ''k'' (JInt 1) s) in
   \<exists>v. pc_get ''p'' ''k'' s' = (True, v) \<and> json_eq v (JInt 1)"
proof -
  let ?jt = "\<lparr>dump = (\<lambda>_ _. Some ''1''), read_json = (\<lambda>_. None)\<rparr>"
  let ?sp = "\<lparr>tmp_opens = True, written = None, tmp_removable = True, renames = (\<lambda>_. True)\<rparr>"
  let ?t = "\<lparr>has_eval_js = True, has_bm = True\<rparr>"
  let ?s = "\<lparr>c_data = JObj [], c_defaults = [], c_listeners = [], c_save_disabled = True,
        c_fs = \<lparr>cfg_file = None, tmp_file = None, backup_files = []\<rparr>, notified = []\<rparr>"
  have "store_ok ?s" by (simp add: store_ok_def)
  moreover have "pc_set ?jt ?sp ?t from_frontend ''p'' ''k'' (JInt 1) ?s =
     (fst (pc_set ?jt ?sp ?t from_frontend ''p'' ''k'' (JInt 1) ?s), Return (True, pc_success),
      [NotifyChild ''p'' ''config_changed'' (JObj [(''key'', JStr ''k''), (''value'', JInt 1)])])"
    by (simp add: pc_set_def validate_limits_def is_reserved_name_def json_contains_def pc_store_def
        config_set_def save_disabled_noop notify_change_def)
  ultimately show ?thesis
    unfolding Let_def by (intro conjunct1 [OF plugin_config_set_get]) simp_all
qed

end
