(* ===== verification/BackendConfig.thy ===== *)
theory BackendConfig
  imports Config Crypto
begin

text \<open>
  The configuration as the frontend sees it, \<^verbatim>\<open>Core_GetBackendConfig\<close> and
  \<^verbatim>\<open>Core_SetBackendConfig\<close> of \<^verbatim>\<open>src/bindings/entry_point.cc\<close>, and the reader of the proxy
  password, \<^verbatim>\<open>apply_proxy\<close> of \<^verbatim>\<open>src/system/http.cc\<close>.  The stored password is replaced by a
  sentinel on the way out; on the way in, the sentinel stands for the stored value and anything else
  is encrypted.
\<close>

definition STORED_SENTINEL :: string where
  "STORED_SENTINEL = ''__SET__''"

abbreviation pw_path :: "string list" where
  "pw_path \<equiv> [''network'', ''proxyPassword'']"

text \<open>Replacing a member of a value that is known to contain it.\<close>

definition put_member :: "string \<Rightarrow> json \<Rightarrow> json \<Rightarrow> json" where
  "put_member k v j = JObj (obj_put k v (json_members j))"

definition put_password :: "json \<Rightarrow> json \<Rightarrow> json" where
  "put_password pw cfg =
     (case json_find ''network'' cfg of
        None \<Rightarrow> cfg
      | Some network \<Rightarrow> put_member ''network'' (put_member ''proxyPassword'' pw network) cfg)"

definition erase_password :: "json \<Rightarrow> json" where
  "erase_password cfg =
     (case json_find ''network'' cfg of
        None \<Rightarrow> cfg
      | Some network \<Rightarrow> put_member ''network'' (JObj (obj_erase ''proxyPassword'' (json_members network))) cfg)"

definition Core_GetBackendConfig :: "config_manager \<Rightarrow> json" where
  "Core_GetBackendConfig s =
     (let cfg = get_all s in
      case json_at pw_path cfg of
        Some (JStr stored) \<Rightarrow> put_password (JStr (if stored = [] then [] else STORED_SENTINEL)) cfg
      | _ \<Rightarrow> cfg)"

text \<open>The JSON in the argument is parsed by the JSON library; the model starts from the parsed value.
  \<^verbatim>\<open>get<std::string>()\<close> throws on a password that is not a string.\<close>

definition incoming_config :: "platform \<Rightarrow> crypto_env \<Rightarrow> json \<Rightarrow> json \<Rightarrow> json result" where
  "incoming_config pf env data incoming =
     (case json_at pw_path incoming of
        None \<Rightarrow> Return incoming
      | Some (JStr pw) \<Rightarrow>
          if pw = STORED_SENTINEL then Return (put_password (config_get pw_path (JStr []) data) incoming)
          else if pw \<noteq> [] then
            (let encrypted = encrypt pf env pw in
             if encrypted \<noteq> [] then Return (put_password (JStr encrypted) incoming)
             else Return (erase_password incoming))
          else Return incoming
      | Some _ \<Rightarrow> Throw ''type_error.302'')"

definition Core_SetBackendConfig ::
    "json_text \<Rightarrow> save_plan \<Rightarrow> platform \<Rightarrow> crypto_env \<Rightarrow> json \<Rightarrow> bool \<Rightarrow> config_manager \<Rightarrow> config_manager \<times> json result" where
  "Core_SetBackendConfig jt sp pf env incoming skipPropagation s =
     (case incoming_config pf env (c_data s) incoming of
        Inl e \<Rightarrow> (s, Throw e)
      | Inr cfg \<Rightarrow> (let (s', j) = set_all jt sp cfg skipPropagation s in (s', Return j)))"

text \<open>The user and password text handed to the transfer library, if any.\<close>

definition get_proxy_url :: "json \<Rightarrow> string result" where
  "get_proxy_url data =
     (case as_string (config_get [''network'', ''proxy''] (JStr []) data) of
        None \<Rightarrow> Throw ''type_error.302'' | Some p \<Rightarrow> Return p)"

definition apply_proxy :: "platform \<Rightarrow> crypto_env \<Rightarrow> json \<Rightarrow> (string \<times> string option) option result" where
  "apply_proxy pf env data =
     rbind (get_proxy_url data) (\<lambda>proxy.
       if proxy = [] then Return None
       else case (as_string (config_get [''network'', ''proxyUsername''] (JStr []) data),
                  as_string (config_get pw_path (JStr []) data)) of
           (Some username, Some stored_pw) \<Rightarrow>
             if username = [] then Return (Some (proxy, None))
             else Return (Some (proxy, Some (username @ '':'' @
                    (if is_encrypted stored_pw then decrypt pf env stored_pw else stored_pw))))
         | _ \<Rightarrow> Throw ''type_error.302'')"

subsection \<open>Lemmas\<close>

lemma json_find_members: "json_find k j = map_of (json_members j) k"
  by (simp add: json_find_def)

lemma put_member_find:
  "json_sorted j \<Longrightarrow> json_find k' (put_member k v j) = (if k' = k then Some v else json_find k' j)"
  using json_sorted_keys [OF json_sorted_members]
  by (simp add: put_member_def obj_put_lookup json_find_members)

lemma put_member_sorted: "json_sorted j \<Longrightarrow> json_sorted v \<Longrightarrow> json_sorted (put_member k v j)"
  by (simp add: put_member_def json_sorted_put json_sorted_members)

lemma json_find_sorted: "json_sorted j \<Longrightarrow> json_find k j = Some v \<Longrightarrow> json_sorted v"
  by (cases j) (auto dest: json_sorted_child)

text \<open>What the tree holds after the password was replaced or erased.\<close>

lemma put_password_at:
  assumes "json_sorted cfg" "json_at pw_path cfg = Some old"
  shows "json_at pw_path (put_password pw cfg) = Some pw"
    and "\<not> prefix pw_path q \<Longrightarrow> \<not> prefix q pw_path \<Longrightarrow> json_at q (put_password pw cfg) = json_at q cfg"
proof -
  obtain n where n: "json_find ''network'' cfg = Some n" "json_find ''proxyPassword'' n = Some old"
    using assms(2) by (auto split: option.splits)
  have ns: "json_sorted n" using json_find_sorted [OF assms(1) n(1)] .
  show "json_at pw_path (put_password pw cfg) = Some pw"
    using n ns assms(1) by (simp add: put_password_def put_member_find)
  show "json_at q (put_password pw cfg) = json_at q cfg" if np: "\<not> prefix pw_path q" "\<not> prefix q pw_path"
  proof -
    obtain a q' where q: "q = a # q'" using np(2) by (cases q) auto
    show ?thesis
      using np n ns assms(1) by (cases q') (auto simp: q put_password_def put_member_find)
  qed
qed

lemma erase_password_at:
  assumes "json_sorted cfg"
  shows "json_at pw_path (erase_password cfg) = None"
  using assms by (auto simp: erase_password_def put_member_find obj_erase_lookup split: option.splits)

lemma fold_put_lookup:
  "obj_sorted ms \<Longrightarrow> distinct (map fst kvs) \<Longrightarrow>
     map_of (fold (\<lambda>(k, v). obj_put k v) kvs ms) k = (case map_of kvs k of Some v \<Rightarrow> Some v | None \<Rightarrow> map_of ms k)"
proof (induction kvs arbitrary: ms)
  case (Cons x kvs)
  obtain l v where x: "x = (l, v)" by (cases x)
  have "map_of kvs l = None" using Cons.prems x by (simp add: map_of_eq_None_iff)
  with Cons x show ?case
    by (auto simp: obj_put_sorted obj_put_lookup split: option.splits)
qed simp

lemma fold_put_json_sorted:
  "json_sorted (JObj ms) \<Longrightarrow> \<forall>(k, v) \<in> set kvs. json_sorted v \<Longrightarrow>
     json_sorted (JObj (fold (\<lambda>(k, v). obj_put k v) kvs ms))"
  by (induction kvs arbitrary: ms) (auto simp: json_sorted_put)

lemma get_all_object:
  assumes "is_object (c_data s)" "json_sorted (c_data s)" "json_sorted (JObj (c_defaults s))"
  shows "json_sorted (get_all s)"
    "json_find k (get_all s) = (case json_find k (c_data s) of Some v \<Rightarrow> Some v | None \<Rightarrow> map_of (c_defaults s) k)"
proof -
  obtain ms where ms: "c_data s = JObj ms" using assms(1) by (cases "c_data s") auto
  show "json_sorted (get_all s)"
    using assms ms by (auto simp: get_all_def json_sorted_obj intro!: fold_put_json_sorted [unfolded json_sorted_obj])
  show "json_find k (get_all s) = (case json_find k (c_data s) of Some v \<Rightarrow> Some v | None \<Rightarrow> map_of (c_defaults s) k)"
    using assms ms by (simp add: get_all_def fold_put_lookup json_sorted_keys sorted_distinct_keys)
qed

lemma set_all_data [simp]: "c_data (fst (set_all jt p j skip s)) = j"
proof -
  have "c_data x = c_data y" if "save_to_disk jt p y = (x, e)" for x y e
    using arg_cong [OF that, of "\<lambda>r. c_data (fst r)"] by simp
  then show ?thesis
    by (auto simp: set_all_def Let_def split: prod.splits)
qed

lemma Core_SetBackendConfig_data:
  "incoming_config pf env (c_data s) incoming = Inr cfg \<Longrightarrow>
     c_data (fst (Core_SetBackendConfig jt sp pf env incoming skip s)) = cfg"
  using set_all_data [of jt sp cfg skip s] by (simp add: Core_SetBackendConfig_def case_prod_unfold Let_def)

subsection \<open>Properties\<close>



text \<open>C8: a new password is never stored in the clear: it is stored as a blob that decrypts to the
  password, and the proxy set up from the stored configuration gets the user name and the password;
  when encryption fails the member is removed instead.\<close>

theorem proxy_password_stored_encrypted:
  assumes "crypto_ok pf env" "json_sorted incoming" "json_at pw_path incoming = Some (JStr pw)"
    and "pw \<noteq> []" "pw \<noteq> STORED_SENTINEL"
    and "data' = c_data (fst (Core_SetBackendConfig jt sp pf env incoming skip s))"
  shows "if source_fails pf env pw then json_at pw_path data' = None
    else (\<exists>c. json_at pw_path data' = Some (JStr c) \<and> is_encrypted c \<and> decrypt pf env c = pw) \<and>
      (\<forall>proxy user. json_at [''network'', ''proxy''] incoming = Some (JStr proxy) \<and>
         json_at [''network'', ''proxyUsername''] incoming = Some (JStr user) \<and> proxy \<noteq> [] \<and> user \<noteq> [] \<longrightarrow>
         apply_proxy pf env data' = Return (Some (proxy, Some (user @ '':'' @ pw))))"
proof (cases "source_fails pf env pw")
  case True
  then have "incoming_config pf env (c_data s) incoming = Inr (erase_password incoming)"
    using encrypt_outcomes [OF assms(1,4)] assms(3-5) by (simp add: incoming_config_def Let_def del: json_at.simps)
  with True show ?thesis
    unfolding assms(6) by (simp add: Core_SetBackendConfig_data erase_password_at assms(2) del: json_at.simps)
next
  case False
  define c where "c = encrypt pf env pw"
  have c: "is_encrypted c" "decrypt pf env c = pw"
    using encrypt_outcomes [OF assms(1,4)] False by (simp_all add: c_def)
  then have "c \<noteq> []" by (auto simp: is_encrypted_def)
  then have "incoming_config pf env (c_data s) incoming = Inr (put_password (JStr c) incoming)"
    using assms(3-5) by (simp add: incoming_config_def Let_def c_def del: json_at.simps)
  then have d: "data' = put_password (JStr c) incoming"
    unfolding assms(6) by (rule Core_SetBackendConfig_data)
  note at = put_password_at [OF assms(2,3), where pw = "JStr c"]
  have "apply_proxy pf env data' = Return (Some (proxy, Some (user @ '':'' @ pw)))"
    if "json_at [''network'', ''proxy''] incoming = Some (JStr proxy)"
      "json_at [''network'', ''proxyUsername''] incoming = Some (JStr user)" "proxy \<noteq> []" "user \<noteq> []" for proxy user
    using that c at(1) at(2) [where q = "[''network'', ''proxy'']"]
      at(2) [where q = "[''network'', ''proxyUsername'']"]
    by (simp add: d apply_proxy_def get_proxy_url_def config_get_at del: config_get.simps json_at.simps)
  with False c at(1) show ?thesis by (simp add: d del: json_at.simps)
qed

theorem proxy_password_stored_encrypted_witness:
  "let s = \<lparr>c_data = JObj [], c_defaults = [], c_listeners = [], c_save_disabled = True,
        c_fs = \<lparr>cfg_file = None, tmp_file = None, backup_files = []\<rparr>, notified = []\<rparr>;
      data' = c_data (fst (Core_SetBackendConfig \<lparr>dump = (\<lambda>_ _. None), read_json = (\<lambda>_. None)\<rparr>
        \<lparr>tmp_opens = True, written = None, tmp_removable = True, renames = (\<lambda>_. True)\<rparr> Linux clear_env
        (JObj [(''network'', JObj [(''proxy'', JStr ''p:1''), (''proxyPassword'', JStr ''pw''), (''proxyUsername'', JStr ''u'')])])
        True s)) in
   \<exists>c. json_at pw_path data' = Some (JStr c) \<and> is_encrypted c \<and> decrypt Linux clear_env c = ''pw''"
  unfolding Let_def
  using proxy_password_stored_encrypted [OF clear_env_ok(1) [of Linux] _ _ _ _ refl, of
      "JObj [(''network'', JObj [(''proxy'', JStr ''p:1''), (''proxyPassword'', JStr ''pw''), (''proxyUsername'', JStr ''u'')])]"
      "''pw''"] clear_env_ok(2)
  by (simp add: json_sorted_obj STORED_SENTINEL_def)

end
