(* ===== verification/ConfigLocks.thy ===== *)
theory ConfigLocks
  imports Prelude
begin

text \<open>
  The locks of the configuration store, \<^verbatim>\<open>src/system/config.cc\<close>: the recursive \<^verbatim>\<open>_mutex\<close> that
  guards the data and the plain \<^verbatim>\<open>_save_mutex\<close> that serialises the writes of the file.  A thread is
  the sequence of lock operations of the member function it runs; \<^verbatim>\<open>lock_guard\<close> unlocks in the
  reverse order at the end of its scope.
\<close>

datatype cfg_mutex = Data_mutex | Save_mutex

datatype lock_op = Lock cfg_mutex | Unlock cfg_mutex

definition save_to_disk_locks :: "lock_op list" where
  "save_to_disk_locks = [Lock Save_mutex, Lock Data_mutex, Unlock Data_mutex, Unlock Save_mutex]"

definition notify_listeners_locks :: "lock_op list" where
  "notify_listeners_locks = [Lock Data_mutex, Unlock Data_mutex]"

text \<open>\<^verbatim>\<open>set\<close> with a changed value and without \<^verbatim>\<open>skipPropagation\<close>; \<^verbatim>\<open>set_all\<close> and
  \<^verbatim>\<open>load_from_disk\<close> save under the data lock in the same way.\<close>

definition set_locks :: "lock_op list" where
  "set_locks = Lock Data_mutex # notify_listeners_locks @ save_to_disk_locks @ [Unlock Data_mutex]"

definition set_skip_locks :: "lock_op list" where
  "set_skip_locks = [Lock Data_mutex, Unlock Data_mutex]"

record lock_state =
  threads :: "lock_op list list"
  holders :: "(cfg_mutex \<times> nat) list"

text \<open>The recursive mutex is free for the thread that holds it already.\<close>

definition may_lock :: "cfg_mutex \<Rightarrow> nat \<Rightarrow> (cfg_mutex \<times> nat) list \<Rightarrow> bool" where
  "may_lock m i hs \<longleftrightarrow> list_all (\<lambda>(m', j). m' \<noteq> m \<or> (m = Data_mutex \<and> j = i)) hs"

definition thread_step :: "nat \<Rightarrow> lock_state \<Rightarrow> lock_state option" where
  "thread_step i s =
     (if i < length (threads s) then
        (case threads s ! i of
           [] \<Rightarrow> None
         | Lock m # ops \<Rightarrow>
             if may_lock m i (holders s)
             then Some \<lparr>threads = (threads s)[i := ops], holders = (m, i) # holders s\<rparr> else None
         | Unlock m # ops \<Rightarrow> Some \<lparr>threads = (threads s)[i := ops], holders = remove1 (m, i) (holders s)\<rparr>)
      else None)"

inductive lock_steps :: "lock_state \<Rightarrow> lock_state \<Rightarrow> bool" where
  lock_refl: "lock_steps s s"
| lock_next: "lock_steps s t \<Longrightarrow> thread_step i t = Some u \<Longrightarrow> lock_steps s u"

definition start :: "lock_op list list \<Rightarrow> lock_state" where
  "start ts = \<lparr>threads = ts, holders = []\<rparr>"

text \<open>Some thread has work left and no thread can take a step.\<close>

definition deadlocked :: "lock_state \<Rightarrow> bool" where
  "deadlocked s \<longleftrightarrow> list_ex (\<lambda>ops. ops \<noteq> []) (threads s) \<and>
     list_all (\<lambda>i. thread_step i s = None) [0..<length (threads s)]"

subsection \<open>Plain saves\<close>

text \<open>Threads that only save, or only write without propagation, never block each other for good: the
  data lock is only asked for by a thread that holds the save lock or no lock.\<close>

fun ops_ok :: "lock_op list \<Rightarrow> cfg_mutex list \<Rightarrow> bool" where
  "ops_ok ops hs \<longleftrightarrow>
     (ops, hs) \<in> {(save_to_disk_locks, []), (tl save_to_disk_locks, [Save_mutex]),
        (drop 2 save_to_disk_locks, [Data_mutex, Save_mutex]), (drop 3 save_to_disk_locks, [Save_mutex]),
        ([], []), (set_skip_locks, []), (tl set_skip_locks, [Data_mutex])}"

definition held_by :: "nat \<Rightarrow> (cfg_mutex \<times> nat) list \<Rightarrow> cfg_mutex list" where
  "held_by i hs = map fst (filter (\<lambda>(m, j). j = i) hs)"

definition locks_inv :: "lock_state \<Rightarrow> bool" where
  "locks_inv s \<longleftrightarrow> (\<forall>i < length (threads s). ops_ok (threads s ! i) (held_by i (holders s))) \<and>
     (\<forall>(m, i) \<in> set (holders s). i < length (threads s)) \<and> distinct (map fst (holders s))"

lemmas op_defs = save_to_disk_locks_def set_skip_locks_def

lemma held_by_Cons: "held_by i ((m, j) # hs) = (if j = i then m # held_by i hs else held_by i hs)"
  by (simp add: held_by_def)

lemma held_by_remove1:
  "distinct (map fst hs) \<Longrightarrow> held_by i (remove1 (m, j) hs) = (if j = i then remove1 m (held_by i hs) else held_by i hs)"
proof (induction hs)
  case (Cons h hs)
  obtain m' j' where h: "h = (m', j')" by (cases h)
  have "m \<notin> set (held_by i hs)" if "m = m'" for i
    using Cons.prems that h by (auto simp: held_by_def)
  with Cons h show ?case
    by (auto simp: held_by_Cons remove1_idem)
qed (simp add: held_by_def)

lemma may_lock_fresh:
  "may_lock m i hs \<Longrightarrow> m \<notin> set (held_by i hs) \<Longrightarrow> m \<notin> fst ` set hs"
  by (auto simp: may_lock_def held_by_def list_all_iff)

lemma locks_inv_step:
  assumes "locks_inv s" "thread_step i s = Some s'"
  shows "locks_inv s'"
proof -
  have i: "i < length (threads s)"
    using assms(2) by (auto simp: thread_step_def split: if_splits)
  have ok: "ops_ok (threads s ! i) (held_by i (holders s))"
    using assms(1) i by (simp add: locks_inv_def)
  show ?thesis
  proof (cases "threads s ! i")
    case (Cons op ops)
    show ?thesis
    proof (cases op)
      case (Lock m)
      then have m: "may_lock m i (holders s)" and s': "s' = \<lparr>threads = (threads s)[i := ops], holders = (m, i) # holders s\<rparr>"
        using assms(2) Cons i by (auto simp: thread_step_def split: if_splits)
      have "ops_ok ops (m # held_by i (holders s)) \<and> m \<notin> set (held_by i (holders s))"
        using ok unfolding Cons Lock by (auto simp: op_defs)
      with assms(1) i m may_lock_fresh [OF m] show ?thesis
        by (auto simp: locks_inv_def s' held_by_Cons nth_list_update simp del: ops_ok.simps)
    next
      case (Unlock m)
      then have s': "s' = \<lparr>threads = (threads s)[i := ops], holders = remove1 (m, i) (holders s)\<rparr>"
        using assms(2) Cons i by (auto simp: thread_step_def split: if_splits)
      have "ops_ok ops (remove1 m (held_by i (holders s)))"
        using ok unfolding Cons Unlock by (auto simp: op_defs)
      moreover have "distinct (map fst (remove1 (m, i) (holders s)))"
        using assms(1) unfolding locks_inv_def
        by (metis distinct_map distinct_remove1 inj_on_subset set_remove1_subset)
      ultimately show ?thesis
        using assms(1) i set_remove1_subset [of "(m, i)" "holders s"]
        by (auto simp: locks_inv_def s' held_by_remove1 nth_list_update simp del: ops_ok.simps)
    qed
  qed (use assms(2) i in \<open>simp add: thread_step_def\<close>)
qed

lemma locks_inv_steps: "lock_steps s t \<Longrightarrow> locks_inv s \<Longrightarrow> locks_inv t"
  by (induction rule: lock_steps.induct) (auto intro: locks_inv_step)

lemma holder_next:
  assumes "locks_inv s" "(m, i) \<in> set (holders s)"
  shows "i < length (threads s)" "threads s ! i \<noteq> []"
    "m = Data_mutex \<Longrightarrow> \<exists>m' ops. threads s ! i = Unlock m' # ops"
    "hd (threads s ! i) = Lock m' \<Longrightarrow> m' = Data_mutex"
proof -
  show i: "i < length (threads s)"
    using assms by (auto simp: locks_inv_def)
  have m: "m \<in> set (held_by i (holders s))"
    using assms(2) by (force simp: held_by_def)
  have ok: "ops_ok (threads s ! i) (held_by i (holders s))"
    using assms(1) i by (simp add: locks_inv_def)
  show "threads s ! i \<noteq> []" "m = Data_mutex \<Longrightarrow> \<exists>m' ops. threads s ! i = Unlock m' # ops"
    "hd (threads s ! i) = Lock m' \<Longrightarrow> m' = Data_mutex"
    using ok m by (auto simp: op_defs)
qed

lemma locks_progress:
  assumes "locks_inv s" "i < length (threads s)" "threads s ! i \<noteq> []"
  shows "\<exists>j < length (threads s). thread_step j s \<noteq> None"
proof (cases "\<exists>j. (Data_mutex, j) \<in> set (holders s)")
  case True
  then obtain j where j: "(Data_mutex, j) \<in> set (holders s)" ..
  then obtain m' ops where "threads s ! j = Unlock m' # ops"
    using holder_next(3) [OF assms(1)] by blast
  with holder_next(1) [OF assms(1) j] have "thread_step j s \<noteq> None"
    by (simp add: thread_step_def)
  with holder_next(1) [OF assms(1) j] show ?thesis by blast
next
  case noData: False
  show ?thesis
  proof (cases "holders s")
    case Nil
    obtain op ops where "threads s ! i = op # ops" using assms(3) by (cases "threads s ! i") auto
    with Nil assms(2) have "thread_step i s \<noteq> None"
      by (cases op) (auto simp: thread_step_def may_lock_def)
    with assms(2) show ?thesis by blast
  next
    case (Cons h hs)
    obtain m j where j: "(m, j) \<in> set (holders s)" using Cons by (cases h) auto
    note n = holder_next [OF assms(1) j]
    obtain op ops where ops: "threads s ! j = op # ops" using n(2) by (cases "threads s ! j") auto
    have "may_lock Data_mutex j (holders s)"
      using noData by (auto simp: may_lock_def list_all_iff)
    with ops n(1) n(4) have "thread_step j s \<noteq> None"
      by (cases op) (auto simp: thread_step_def)
    with n(1) show ?thesis by blast
  qed
qed

lemma start_inv:
  assumes "set ts \<subseteq> {save_to_disk_locks, set_skip_locks}"
  shows "locks_inv (start ts)"
  using assms nth_mem by (fastforce simp: locks_inv_def start_def held_by_def)

subsection \<open>Properties\<close>

text \<open>C13: any number of threads that save the configuration or write it without propagation, in any
  interleaving, never reach a deadlock.\<close>

theorem config_saves_never_deadlock:
  assumes "set ts \<subseteq> {save_to_disk_locks, set_skip_locks}" "lock_steps (start ts) s"
  shows "\<not> deadlocked s"
proof
  assume d: "deadlocked s"
  then obtain ops where "ops \<in> set (threads s)" "ops \<noteq> []"
    by (auto simp: deadlocked_def list_ex_iff)
  then obtain i where "i < length (threads s)" "threads s ! i \<noteq> []"
    by (auto simp: in_set_conv_nth)
  from locks_progress [OF locks_inv_steps [OF assms(2) start_inv [OF assms(1)]] this] d show False
    by (auto simp: deadlocked_def list_all_iff)
qed

theorem config_saves_never_deadlock_witness:
  "\<not> deadlocked \<lparr>threads = [tl save_to_disk_locks, set_skip_locks], holders = [(Save_mutex, 0)]\<rparr>"
proof (rule config_saves_never_deadlock [of "[save_to_disk_locks, set_skip_locks]"])
  show "lock_steps (start [save_to_disk_locks, set_skip_locks])
      \<lparr>threads = [tl save_to_disk_locks, set_skip_locks], holders = [(Save_mutex, 0)]\<rparr>"
    by (rule lock_next [OF lock_refl, where i = 0])
      (simp add: thread_step_def start_def op_defs may_lock_def)
qed simp

text \<open>C14: a thread that writes a setting and one that saves the configuration can lock each other out
  for good: the writer asks for the save lock while it holds the data lock, and the saver asks for
  the data lock while it holds the save lock.\<close>

theorem config_set_save_deadlock:
  "\<exists>s. lock_steps (start [set_locks, save_to_disk_locks]) s \<and> deadlocked s"
proof -
  define f where "f is = foldl (\<lambda>s i. Option.bind s (thread_step i)) (Some (start [set_locks, save_to_disk_locks])) is"
    for "is"
  have run: "f is = Some s \<Longrightarrow> lock_steps (start [set_locks, save_to_disk_locks]) s" for "is" s
  proof (induction "is" arbitrary: s rule: rev_induct)
    case (snoc i "is")
    then obtain t where "f is = Some t" "thread_step i t = Some s"
      by (auto simp: f_def bind_eq_Some_conv)
    with snoc show ?case by (blast intro: lock_next)
  qed (auto simp: f_def intro: lock_refl)
  have "f [0, 0, 0, 1] = Some \<lparr>threads = [save_to_disk_locks @ [Unlock Data_mutex], tl save_to_disk_locks],
      holders = [(Save_mutex, 1), (Data_mutex, 0)]\<rparr>"
    by (simp add: f_def start_def thread_step_def set_locks_def notify_listeners_locks_def op_defs may_lock_def)
  moreover have "deadlocked \<lparr>threads = [save_to_disk_locks @ [Unlock Data_mutex], tl save_to_disk_locks],
      holders = [(Save_mutex, 1), (Data_mutex, 0)]\<rparr>"
    by (simp add: deadlocked_def thread_step_def op_defs may_lock_def upt_rec)
  ultimately show ?thesis using run by blast
qed

end
