(* ===== verification/SharedMemory.thy ===== *)
theory SharedMemory
  imports Prelude
begin

text \<open>
  The arena that the loader and the browser process share, \<^verbatim>\<open>src/state/shared_memory.cc\<close> and
  \<^verbatim>\<open>shared_memory.h\<close>: a bump allocator with a table of patch lists by plugin name.

  The arena is its bytes; a pointer into it is the offset that \<^verbatim>\<open>SHM_PTR\<close> adds to the base.  All
  fields of the structures are little-endian 32-bit words, so a structure is a run of words at known
  offsets: the header has \<^verbatim>\<open>size\<close> at 0, \<^verbatim>\<open>used\<close> at 4 and the table at 8 (\<^verbatim>\<open>keys_off\<close>, \<^verbatim>\<open>values_off\<close>,
  \<^verbatim>\<open>count\<close>, \<^verbatim>\<open>capacity\<close>); a list has 12 bytes, a patch 20, a transform 8.  Mapping the region is
  left to the operating system.
\<close>

unbundle bit_operations_syntax

type_synonym u32 = "32 word"

type_synonym mem = "nat \<Rightarrow> byte"

subsection \<open>Memory access\<close>

definition rd32 :: "mem \<Rightarrow> nat \<Rightarrow> u32" where
  "rd32 m a = ucast (m a) OR push_bit 8 (ucast (m (a + 1))) OR push_bit 16 (ucast (m (a + 2)))
     OR push_bit 24 (ucast (m (a + 3)))"

definition wr32 :: "nat \<Rightarrow> u32 \<Rightarrow> mem \<Rightarrow> mem" where
  "wr32 a v m = m(a := ucast v, a + 1 := ucast (drop_bit 8 v), a + 2 := ucast (drop_bit 16 v),
     a + 3 := ucast (drop_bit 24 v))"

abbreviation rdn :: "mem \<Rightarrow> nat \<Rightarrow> nat" where
  "rdn m a \<equiv> unat (rd32 m a)"

text \<open>\<^verbatim>\<open>memcpy\<close> and \<^verbatim>\<open>memmove\<close> read the source as it was before.\<close>

definition memcpy :: "nat \<Rightarrow> nat \<Rightarrow> nat \<Rightarrow> mem \<Rightarrow> mem" where
  "memcpy d s n m = (\<lambda>a. if d \<le> a \<and> a < d + n then m (s + (a - d)) else m a)"

definition memzero :: "nat \<Rightarrow> nat \<Rightarrow> mem \<Rightarrow> mem" where
  "memzero d n m = (\<lambda>a. if d \<le> a \<and> a < d + n then 0 else m a)"

definition put_str :: "nat \<Rightarrow> string \<Rightarrow> mem \<Rightarrow> mem" where
  "put_str d s m = (\<lambda>a. if d \<le> a \<and> a < d + length s then byte_of_char (s ! (a - d))
     else if a = d + length s then 0 else m a)"

text \<open>\<^verbatim>\<open>strcmp\<close> of the string at an offset with a C string (which holds no NUL) gives zero.\<close>

fun str_eq :: "mem \<Rightarrow> nat \<Rightarrow> string \<Rightarrow> bool" where
  "str_eq m a [] = (m a = 0)"
| "str_eq m a (c # s) = (m a = byte_of_char c \<and> str_eq m (a + 1) s)"

text \<open>What \<^verbatim>\<open>c_str()\<close> passes on of a string.\<close>

definition c_str :: "string \<Rightarrow> string" where
  "c_str s = takeWhile (\<lambda>c. c \<noteq> CHR 0x00) s"

abbreviation arena_size :: "mem \<Rightarrow> u32" where "arena_size m \<equiv> rd32 m 0"
abbreviation arena_used :: "mem \<Rightarrow> u32" where "arena_used m \<equiv> rd32 m 4"
abbreviation keys_off :: "mem \<Rightarrow> nat" where "keys_off m \<equiv> rdn m 8"
abbreviation values_off :: "mem \<Rightarrow> nat" where "values_off m \<equiv> rdn m 12"
abbreviation map_count :: "mem \<Rightarrow> nat" where "map_count m \<equiv> rdn m 16"
abbreviation map_capacity :: "mem \<Rightarrow> nat" where "map_capacity m \<equiv> rdn m 20"

subsection \<open>Allocation\<close>

definition screate_header :: "u32 \<Rightarrow> mem \<Rightarrow> mem" where
  "screate_header sz m = wr32 4 24 (wr32 0 sz m)"

definition salloc :: "u32 \<Rightarrow> mem \<Rightarrow> u32 \<times> mem" where
  "salloc sz m =
     (let sz' = (sz + 7) AND NOT 7 in
      if arena_used m + sz' > arena_size m then (0, m)
      else (arena_used m, wr32 4 (arena_used m + sz') m))"

definition shm_strdup :: "string \<Rightarrow> mem \<Rightarrow> u32 \<times> mem" where
  "shm_strdup str m =
     (let len = of_nat (length str) + 1; (off, m1) = salloc len m in
      if off = 0 then (0, m1) else (off, put_str (unat off) str m1))"

subsection \<open>The table\<close>

definition hashmap_init :: "mem \<Rightarrow> mem" where
  "hashmap_init m =
     (let m1 = wr32 16 0 (wr32 20 16 m);
          (k, m2) = salloc (16 * 4) m1;
          m3 = memzero (unat k) (16 * 4) (wr32 8 k m2);
          (v, m4) = salloc (16 * 12) m3 in
      memzero (unat v) (16 * 12) (wr32 12 v m4))"

fun find_key :: "mem \<Rightarrow> string \<Rightarrow> nat \<Rightarrow> nat \<Rightarrow> nat option" where
  "find_key m key i 0 = None"
| "find_key m key i (Suc n) =
     (if str_eq m (rdn m (keys_off m + 4 * i)) key then Some i else find_key m key (i + 1) n)"

definition hashmap_get :: "string \<Rightarrow> mem \<Rightarrow> nat option" where
  "hashmap_get key m = map_option (\<lambda>i. values_off m + 12 * i) (find_key m key 0 (map_count m))"

definition hashmap_grow :: "mem \<Rightarrow> bool \<times> mem" where
  "hashmap_grow m =
     (let cap = map_capacity m; new_capacity = rd32 m 20 * 2;
          (k, m1) = salloc (new_capacity * 4) m;
          (v, m2) = salloc (new_capacity * 12) m1 in
      if k = 0 \<or> v = 0 then (False, m2)
      else let m3 = memcpy (unat k) (keys_off m2) (cap * 4) m2;
               m4 = memcpy (unat v) (values_off m2) (cap * 12) m3;
               m5 = memzero (unat k + cap * 4) (cap * 4) m4;
               m6 = memzero (unat v + cap * 12) (cap * 12) m5 in
        (True, wr32 20 new_capacity (wr32 12 v (wr32 8 k m6))))"

text \<open>The entry behind the last one: the key is copied and the list is empty.  The copy may have failed,
  in which case the key is the string at offset 0.\<close>

definition hashmap_append :: "string \<Rightarrow> mem \<Rightarrow> nat \<times> mem" where
  "hashmap_append key m =
     (let keys = keys_off m; vals = values_off m; n = map_count m;
          (off, m1) = shm_strdup key m;
          p = vals + 12 * n;
          m2 = wr32 (p + 8) 0 (wr32 (p + 4) 0 (wr32 p 0 (wr32 (keys + 4 * n) off m1))) in
      (p, wr32 16 (rd32 m2 16 + 1) m2))"

definition hashmap_add_key :: "string \<Rightarrow> mem \<Rightarrow> nat option \<times> mem" where
  "hashmap_add_key key m =
     (case hashmap_get key m of
        Some p \<Rightarrow> (Some p, m)
      | None \<Rightarrow>
          if map_count m \<ge> map_capacity m
          then (case hashmap_grow m of
                  (False, m1) \<Rightarrow> (None, m1)
                | (True, m1) \<Rightarrow> map_prod Some id (hashmap_append key m1))
          else map_prod Some id (hashmap_append key m))"

definition hashmap_remove :: "string \<Rightarrow> mem \<Rightarrow> mem" where
  "hashmap_remove key m =
     (case find_key m key 0 (map_count m) of
        None \<Rightarrow> m
      | Some i \<Rightarrow>
          (let n = map_count m; keys = keys_off m; vals = values_off m;
               m1 = (if i < n - 1
                     then memcpy (vals + 12 * i) (vals + 12 * (i + 1)) ((n - i - 1) * 12)
                            (memcpy (keys + 4 * i) (keys + 4 * (i + 1)) ((n - i - 1) * 4) m)
                     else m) in
           wr32 16 (rd32 m 16 - 1) m1))"

subsection \<open>Patches\<close>

text \<open>The arrays of patches and transforms grow in the same way: the words at \<open>p\<close> are the offset, at
  \<open>p + 4\<close> the count and at \<open>p + 8\<close> the capacity.\<close>

definition array_grow :: "nat \<Rightarrow> nat \<Rightarrow> mem \<Rightarrow> bool \<times> mem" where
  "array_grow elem p m =
     (if rd32 m (p + 4) \<ge> rd32 m (p + 8)
      then let new_capacity = (if rd32 m (p + 8) \<noteq> 0 then rd32 m (p + 8) * 2 else 4);
               (off, m1) = salloc (new_capacity * of_nat elem) m in
        if off = 0 then (False, m1)
        else let m2 = (if rd32 m1 p \<noteq> 0 then memcpy (unat off) (rdn m1 p) (rdn m1 (p + 8) * elem) m1 else m1) in
          (True, wr32 (p + 8) new_capacity (wr32 p off m2))
      else (True, m))"

definition patch_add_transform :: "nat \<Rightarrow> string \<Rightarrow> string \<Rightarrow> mem \<Rightarrow> mem" where
  "patch_add_transform patch match replace m =
     (case array_grow 8 (patch + 8) m of
        (False, m1) \<Rightarrow> m1
      | (True, m1) \<Rightarrow>
          (let t = rdn m1 (patch + 8) + 8 * rdn m1 (patch + 12);
               m2 = wr32 (patch + 12) (rd32 m1 (patch + 12) + 1) m1;
               (o1, m3) = shm_strdup match m2;
               m4 = wr32 t o1 m3;
               (o2, m5) = shm_strdup replace m4 in
           wr32 (t + 4) o2 m5))"

definition patchlist_add :: "nat \<Rightarrow> string \<Rightarrow> string \<Rightarrow> mem \<Rightarrow> nat option \<times> mem" where
  "patchlist_add plist file fnd m =
     (case array_grow 20 plist m of
        (False, m1) \<Rightarrow> (None, m1)
      | (True, m1) \<Rightarrow>
          (let p = rdn m1 plist + 20 * rdn m1 (plist + 4);
               m2 = wr32 (plist + 4) (rd32 m1 (plist + 4) + 1) m1;
               (o1, m3) = shm_strdup file m2;
               m4 = wr32 p o1 m3;
               (o2, m5) = shm_strdup fnd m4;
               m6 = wr32 (p + 4) o2 m5 in
           (Some p, wr32 (p + 16) 0 (wr32 (p + 12) 0 (wr32 (p + 8) 0 m6)))))"

text \<open>The arena right after it was made.\<close>

definition init :: "mem \<Rightarrow> mem" where
  "init m = hashmap_init (screate_header (1024 * 1024) m)"

subsection \<open>Access laws\<close>

lemma rd32_cong: "(\<And>i. i < 4 \<Longrightarrow> m (a + i) = m' (a' + i)) \<Longrightarrow> rd32 m a = rd32 m' a'"
proof -
  assume eq: "\<And>i. i < 4 \<Longrightarrow> m (a + i) = m' (a' + i)"
  show ?thesis
    unfolding rd32_def using eq [of 0] eq [of 1] eq [of 2] eq [of 3] by simp
qed

lemma rd32_eqI: "(\<And>x. a \<le> x \<Longrightarrow> x < a + 4 \<Longrightarrow> m x = m' x) \<Longrightarrow> rd32 m a = rd32 m' a"
  by (rule rd32_cong) simp

lemma bytes_join:
  fixes v :: u32
  shows "ucast (ucast v :: byte) OR push_bit 8 (ucast (ucast (drop_bit 8 v) :: byte))
    OR push_bit 16 (ucast (ucast (drop_bit 16 v) :: byte)) OR push_bit 24 (ucast (ucast (drop_bit 24 v) :: byte)) = v"
proof (rule bit_word_eqI)
  fix n
  assume "n < LENGTH(32)"
  then consider "n < 8" | "8 \<le> n" "n < 16" | "16 \<le> n" "n < 24" | "24 \<le> n" "n < 32" by fastforce
  then show "bit (ucast (ucast v :: byte) OR push_bit 8 (ucast (ucast (drop_bit 8 v) :: byte))
    OR push_bit 16 (ucast (ucast (drop_bit 16 v) :: byte)) OR push_bit 24 (ucast (ucast (drop_bit 24 v) :: byte)) :: u32) n
      \<longleftrightarrow> bit v n"
    by cases (auto simp: bit_simps)
qed

lemma rd32_wr32_same [simp]: "rd32 (wr32 a v m) a = v"
  by (simp add: rd32_def wr32_def bytes_join del: push_bit_numeral_minus_1)

lemma wr32_other: "x < a \<or> a + 4 \<le> x \<Longrightarrow> wr32 a v m x = m x"
  by (auto simp: wr32_def)

lemma rd32_wr32_other: "b + 4 \<le> a \<or> a + 4 \<le> b \<Longrightarrow> rd32 (wr32 a v m) b = rd32 m b"
  by (rule rd32_eqI) (auto intro!: wr32_other)

lemma memcpy_other: "x < d \<or> d + n \<le> x \<Longrightarrow> memcpy d s n m x = m x"
  by (auto simp: memcpy_def)

lemma memzero_other: "x < d \<or> d + n \<le> x \<Longrightarrow> memzero d n m x = m x"
  by (auto simp: memzero_def)

lemma put_str_other: "x < d \<or> d + length s < x \<Longrightarrow> put_str d s m x = m x"
  by (auto simp: put_str_def)

lemma rd32_memcpy_other: "b + 4 \<le> d \<or> d + n \<le> b \<Longrightarrow> rd32 (memcpy d s n m) b = rd32 m b"
  by (rule rd32_eqI) (auto intro!: memcpy_other)

lemma rd32_memzero_other: "b + 4 \<le> d \<or> d + n \<le> b \<Longrightarrow> rd32 (memzero d n m) b = rd32 m b"
  by (rule rd32_eqI) (auto intro!: memzero_other)

lemma rd32_put_str_other: "b + 4 \<le> d \<or> d + length s < b \<Longrightarrow> rd32 (put_str d s m) b = rd32 m b"
  by (rule rd32_eqI) (auto intro!: put_str_other)

lemma rd32_memcpy_inside: "i + 4 \<le> n \<Longrightarrow> rd32 (memcpy d s n m) (d + i) = rd32 m (s + i)"
  by (rule rd32_cong) (auto simp: memcpy_def add.assoc)

lemmas rd32_other = rd32_wr32_other rd32_memcpy_other rd32_memzero_other rd32_put_str_other
lemmas mem_other = wr32_other memcpy_other memzero_other put_str_other

subsection \<open>Allocation never overlaps\<close>

definition up8 :: "nat \<Rightarrow> nat" where
  "up8 n = (n + 7) div 8 * 8"

lemma up8_bounds: "n \<le> up8 n" "up8 n \<le> n + 7" "8 dvd up8 n"
  by (auto simp: up8_def)

lemma round8:
  fixes w :: u32
  shows "unat (w AND NOT 7) = unat w div 8 * 8"
proof -
  have "w AND NOT 7 = push_bit 3 (drop_bit 3 w)"
  proof (rule bit_word_eqI)
    fix n assume n: "n < LENGTH(32)"
    have m: "(7 :: u32) = mask 3" by (simp add: mask_eq_exp_minus_1)
    show "bit (w AND NOT 7) n \<longleftrightarrow> bit (push_bit 3 (drop_bit 3 w)) n"
      unfolding m using n by (auto simp add: bit_and_iff bit_not_iff bit_push_bit_iff bit_drop_bit_eq bit_mask_iff simp del: mask_numeral)
  qed
  moreover have "unat (drop_bit 3 w) = unat w div 8"
    by (simp add: drop_bit_eq_div unat_div)
  moreover have "unat w div 8 * 8 < 2 ^ 32"
    using unsigned_less [of w, where ?'a = nat] by (simp add: le_less_trans [OF div_times_less_eq_dividend])
  ultimately show ?thesis
    by (simp add: push_bit_eq_mult unat_word_ariths take_bit_eq_mod)
qed

lemma round_up8:
  fixes sz :: u32
  assumes "unat sz + 7 < 2 ^ 32"
  shows "unat ((sz + 7) AND NOT 7) = up8 (unat sz)"
proof -
  have "unat (sz + 7) = unat sz + 7"
    using assms by (simp add: unat_word_ariths)
  then show ?thesis unfolding round8 up8_def by simp
qed

lemma of_nat_unat_id: "of_nat (unat w) = (w :: u32)"
  by simp

lemma unat_of_small: "n < 2 ^ 32 \<Longrightarrow> unat (of_nat n :: u32) = n"
  by (simp add: unat_of_nat take_bit_nat_eq_self)

lemma salloc_success:
  assumes "unat (arena_used m) + up8 (unat sz) \<le> unat (arena_size m)" "unat sz + 7 < 2 ^ 32"
  shows "salloc sz m = (arena_used m, wr32 4 (of_nat (unat (arena_used m) + up8 (unat sz))) m)"
proof -
  let ?s = "(sz + 7) AND NOT 7"
  have s: "unat ?s = up8 (unat sz)" using round_up8 assms(2) by blast
  have lt: "unat (arena_used m) + unat ?s < 2 ^ 32"
    using assms(1) s unsigned_less [of "arena_size m", where ?'a = nat] by simp
  then have "unat (arena_used m + ?s) = unat (arena_used m) + unat ?s"
    by (simp add: unat_word_ariths)
  moreover from this have "arena_used m + ?s = of_nat (unat (arena_used m) + up8 (unat sz))"
    unfolding s [symmetric] by (metis of_nat_unat_id)
  ultimately show ?thesis
    using assms(1) s by (simp add: salloc_def word_less_nat_alt Let_def)
qed

lemma salloc_failure:
  assumes "unat (arena_size m) < unat (arena_used m) + up8 (unat sz)"
    "unat (arena_used m) + unat sz + 7 < 2 ^ 32"
  shows "salloc sz m = (0, m)"
proof -
  let ?s = "(sz + 7) AND NOT 7"
  have s: "unat ?s = up8 (unat sz)" using round_up8 assms(2) by simp
  have "unat (arena_used m) + unat ?s < 2 ^ 32"
    using assms(2) s up8_bounds(2) [of "unat sz"] by simp
  then have "unat (arena_used m + ?s) = unat (arena_used m) + unat ?s"
    by (simp add: unat_word_ariths)
  then show ?thesis
    using assms(1) s by (simp add: salloc_def word_less_nat_alt Let_def)
qed

text \<open>A run of allocations: the requests with the offsets they got.\<close>

fun salloc_all :: "u32 list \<Rightarrow> mem \<Rightarrow> (u32 \<times> u32) list \<times> mem" where
  "salloc_all [] m = ([], m)"
| "salloc_all (sz # szs) m =
     (let (off, m1) = salloc sz m; (bs, m2) = salloc_all szs m1 in ((off, sz) # bs, m2))"

definition granted :: "(u32 \<times> u32) list \<Rightarrow> (nat \<times> nat) list" where
  "granted bs = map (\<lambda>(off, sz). (unat off, unat sz)) (filter (\<lambda>(off, sz). off \<noteq> 0) bs)"

definition arena_ok :: "mem \<Rightarrow> bool" where
  "arena_ok m \<longleftrightarrow> 24 \<le> unat (arena_used m) \<and> 8 dvd unat (arena_used m) \<and>
     unat (arena_used m) \<le> unat (arena_size m)"

lemma salloc_cases:
  assumes "arena_ok m" "unat (arena_size m) + unat sz + 7 < 2 ^ 32"
  obtains "salloc sz m = (0, m)"
  | m' where "salloc sz m = (arena_used m, m')" "arena_used m \<noteq> 0" "arena_ok m'" "arena_size m' = arena_size m"
      "unat (arena_used m') = unat (arena_used m) + up8 (unat sz)"
proof (cases "unat (arena_used m) + up8 (unat sz) \<le> unat (arena_size m)")
  case True
  define n where "n = unat (arena_used m) + up8 (unat sz)"
  have n: "unat (of_nat n :: u32) = n"
    by (rule unat_of_small) (use True assms(2) in \<open>simp add: n_def\<close>)
  have "arena_used m \<noteq> 0" using assms(1) by (auto simp: arena_ok_def)
  moreover have "arena_ok (wr32 4 (of_nat n) m)"
    unfolding arena_ok_def rd32_wr32_same n
    using assms(1) True up8_bounds(3) [of "unat sz"] by (auto simp: arena_ok_def rd32_wr32_other n_def)
  ultimately show ?thesis
    using that(2) [of "wr32 4 (of_nat n) m"] salloc_success [OF True] assms(2) n
    by (simp add: n_def rd32_wr32_other)
next
  case False
  then show ?thesis
    using that(1) salloc_failure [of m sz] assms by (simp add: arena_ok_def)
qed

lemma salloc_all_blocks:
  assumes "arena_ok m" "\<forall>sz \<in> set szs. unat (arena_size m) + unat sz + 7 < 2 ^ 32"
    and "salloc_all szs m = (bs, m')"
  shows "sorted_wrt (\<lambda>(o1, n1) (o2, n2). o1 + n1 \<le> o2) (granted bs) \<and>
    (\<forall>(b, n) \<in> set (granted bs). unat (arena_used m) \<le> b \<and> 8 dvd b \<and> b + n \<le> unat (arena_size m)) \<and>
    arena_ok m' \<and> arena_size m' = arena_size m \<and> length bs = length szs"
  using assms
proof (induction szs arbitrary: m bs)
  case (Cons sz szs)
  obtain off m1 where s: "salloc sz m = (off, m1)" by fastforce
  obtain cs where r: "salloc_all szs m1 = (cs, m')" "bs = (off, sz) # cs"
    using Cons.prems(3) s by (auto split: prod.splits)
  have lim: "unat (arena_size m) + unat sz + 7 < 2 ^ 32" using Cons.prems(2) by simp
  from Cons.prems(1) lim show ?case
  proof (cases rule: salloc_cases)
    case 1
    then have "off = 0" "m1 = m" using s by auto
    then have "granted bs = granted cs" using r by (simp add: granted_def)
    with r Cons.IH [of m cs] Cons.prems(1,2) \<open>m1 = m\<close> show ?thesis by simp
  next
    case (2 m'')
    then have m1: "m'' = m1" "off = arena_used m" using s by auto
    have "\<forall>x \<in> set szs. unat (arena_size m1) + unat x + 7 < 2 ^ 32"
      using Cons.prems(2) 2(4) m1 by simp
    note IH = Cons.IH [OF 2(3) [unfolded m1] this r(1)]
    have g: "granted bs = (unat (arena_used m), unat sz) # granted cs"
      using r 2(2) m1 by (simp add: granted_def)
    show ?thesis
      unfolding g using IH 2 m1 Cons.prems(1) up8_bounds(1) [of "unat sz"] r(2)
      by (fastforce simp: arena_ok_def)
  qed
qed (simp add: granted_def)

lemma arena_ok_header: "24 \<le> unat sz \<Longrightarrow> arena_ok (screate_header sz m)"
  by (simp add: arena_ok_def screate_header_def rd32_wr32_other)

subsection \<open>Properties\<close>

text \<open>C20: as long as no request comes close to the range of 32 bits, the blocks that a run of
  allocations hands out lie inside the arena behind the header, are aligned to 8 bytes and do not
  overlap, and a refused request changes nothing.\<close>

theorem salloc_blocks_disjoint:
  assumes "arena_ok m" "\<forall>sz \<in> set szs. unat (arena_size m) + unat sz + 7 < 2 ^ 32"
    and "salloc_all szs m = (bs, m')"
  shows "sorted_wrt (\<lambda>(o1, n1) (o2, n2). o1 + n1 \<le> o2) (granted bs) \<and>
    (\<forall>(b, n) \<in> set (granted bs). 24 \<le> b \<and> 8 dvd b \<and> b + n \<le> unat (arena_size m)) \<and>
    (\<forall>sz. unat (arena_size m) + unat sz + 7 < 2 ^ 32 \<longrightarrow> fst (salloc sz m') = 0 \<longrightarrow> snd (salloc sz m') = m')"
proof -
  note bl = salloc_all_blocks [OF assms]
  have "snd (salloc sz m') = m'"
    if "unat (arena_size m) + unat sz + 7 < 2 ^ 32" "fst (salloc sz m') = 0" for sz
  proof -
    have "arena_ok m'" "unat (arena_size m') + unat sz + 7 < 2 ^ 32" using bl that(1) by simp_all
    then show ?thesis using that(2) by (cases rule: salloc_cases) auto
  qed
  with bl assms(1) show ?thesis by (fastforce simp: arena_ok_def)
qed

theorem salloc_blocks_disjoint_witness:
  "sorted_wrt (\<lambda>(o1, n1) (o2, n2). o1 + n1 \<le> o2)
     (granted (fst (salloc_all [5, 64, 9] (screate_header 96 (\<lambda>_. 0)))))"
proof (rule conjunct1 [OF salloc_blocks_disjoint [OF _ _ surjective_pairing]])
  show "arena_ok (screate_header 96 (\<lambda>_. 0))" by (rule arena_ok_header) simp
  show "\<forall>sz \<in> set [5, 64, 9 :: u32]. unat (arena_size (screate_header 96 (\<lambda>_. 0))) + unat sz + 7 < 2 ^ 32"
    by (simp add: screate_header_def rd32_wr32_other)
qed

text \<open>the check for free space adds in 32 bits: a request close to the range of 32 bits is granted
  in an arena that is far too small, and leaves the next free offset inside the header.\<close>

theorem salloc_wraps:
  "let m = screate_header (1024 * 1024) m0; (off, m') = salloc 0xFFFFFFF0 m in
   off = 24 \<and> unat (arena_size m) < unat off + unat (0xFFFFFFF0 :: u32) \<and> arena_used m' = 8"
proof -
  define m where "m = screate_header (1024 * 1024) m0"
  have "arena_used m = 24" "arena_size m = 1024 * 1024"
    by (simp_all add: m_def screate_header_def rd32_wr32_other)
  then show ?thesis
    unfolding m_def [symmetric] by (simp add: salloc_def Let_def)
qed

end
