(* ===== verification/PatchStore.thy ===== *)
theory PatchStore
  imports SharedMemory
begin

text \<open>
  What the arena of \<open>SharedMemory\<close> stands for: a list of plugins with their patches, each a file
  pattern, a find pattern and a list of transforms.  \<open>rep\<close> relates the bytes to that list.  Every
  byte has an owner (\<open>tag\<close>): regions of different owners cannot overlap, so a write into the
  region of one owner keeps the others.  The lemmas show that each operation of the arena implements
  the operation on the list, as long as the allocations succeed.
\<close>

type_synonym transform = "string \<times> string"
type_synonym patch = "string \<times> string \<times> transform list"
type_synonym store = "(string \<times> patch list) list"

datatype tag = Free | Hdr | Dead | Keys | Vals | Str | Pats nat | Trs nat nat

type_synonym owners = "nat \<Rightarrow> tag"

definition tagged :: "owners \<Rightarrow> tag \<Rightarrow> nat \<Rightarrow> nat \<Rightarrow> bool" where
  "tagged own t a n \<longleftrightarrow> (\<forall>x. a \<le> x \<and> x < a + n \<longrightarrow> own x = t)"

definition str_at :: "owners \<Rightarrow> mem \<Rightarrow> nat \<Rightarrow> string \<Rightarrow> bool" where
  "str_at own m a s \<longleftrightarrow> tagged own Str a (length s + 1) \<and>
     (\<forall>i < length s. m (a + i) = byte_of_char (s ! i)) \<and> m (a + length s) = 0 \<and> CHR 0x00 \<notin> set s"

definition trans_at :: "owners \<Rightarrow> mem \<Rightarrow> nat \<Rightarrow> transform \<Rightarrow> bool" where
  "trans_at own m a t \<longleftrightarrow> str_at own m (rdn m a) (fst t) \<and> str_at own m (rdn m (a + 4)) (snd t)"

text \<open>An array that is described by an offset, a count and a capacity at \<open>p\<close>.\<close>

definition arr_at :: "owners \<Rightarrow> mem \<Rightarrow> nat \<Rightarrow> nat \<Rightarrow> tag \<Rightarrow> (nat \<Rightarrow> nat \<Rightarrow> 'a \<Rightarrow> bool) \<Rightarrow> 'a list \<Rightarrow> bool" where
  "arr_at own m elem p t P xs \<longleftrightarrow> rdn m (p + 4) = length xs \<and> length xs \<le> rdn m (p + 8) \<and>
     (rdn m (p + 8) = 0 \<longleftrightarrow> rdn m p = 0) \<and> tagged own t (rdn m p) (elem * rdn m (p + 8)) \<and>
     (\<forall>j < length xs. P j (rdn m p + elem * j) (xs ! j))"

definition patch_at :: "owners \<Rightarrow> mem \<Rightarrow> nat \<Rightarrow> nat \<Rightarrow> nat \<Rightarrow> patch \<Rightarrow> bool" where
  "patch_at own m i j a p \<longleftrightarrow> str_at own m (rdn m a) (fst p) \<and> str_at own m (rdn m (a + 4)) (fst (snd p)) \<and>
     arr_at own m 8 (a + 8) (Trs i j) (\<lambda>k. trans_at own m) (snd (snd p))"

definition list_at :: "owners \<Rightarrow> mem \<Rightarrow> nat \<Rightarrow> nat \<Rightarrow> patch list \<Rightarrow> bool" where
  "list_at own m i p ps \<longleftrightarrow> arr_at own m 20 p (Pats i) (patch_at own m i) ps"

definition hdr_ok :: "owners \<Rightarrow> mem \<Rightarrow> bool" where
  "hdr_ok own m \<longleftrightarrow> unat (arena_size m) \<le> 2 ^ 30 \<and> 24 \<le> unat (arena_used m) \<and>
     unat (arena_used m) \<le> unat (arena_size m) \<and>
     (\<forall>x < 24. own x = Hdr) \<and> (\<forall>x \<ge> unat (arena_used m). own x = Free)"

definition table_ok :: "owners \<Rightarrow> mem \<Rightarrow> nat \<Rightarrow> bool" where
  "table_ok own m n \<longleftrightarrow> map_count m = n \<and> n \<le> map_capacity m \<and> 0 < map_capacity m \<and>
     tagged own Keys (keys_off m) (4 * map_capacity m) \<and> tagged own Vals (values_off m) (12 * map_capacity m)"

definition entry_at :: "owners \<Rightarrow> mem \<Rightarrow> nat \<Rightarrow> string \<times> patch list \<Rightarrow> bool" where
  "entry_at own m i e \<longleftrightarrow> str_at own m (rdn m (keys_off m + 4 * i)) (fst e) \<and>
     list_at own m i (values_off m + 12 * i) (snd e)"

definition rep :: "owners \<Rightarrow> mem \<Rightarrow> store \<Rightarrow> bool" where
  "rep own m \<sigma> \<longleftrightarrow> hdr_ok own m \<and> table_ok own m (length \<sigma>) \<and>
     (\<forall>i < length \<sigma>. entry_at own m i (\<sigma> ! i)) \<and> distinct (map fst \<sigma>)"

subsection \<open>Frames\<close>

text \<open>Bytes are kept for every byte that has an owner in \<open>T\<close>, and the owner changes by \<open>f\<close>.\<close>

definition keeps :: "(tag \<Rightarrow> tag) \<Rightarrow> tag set \<Rightarrow> owners \<Rightarrow> mem \<Rightarrow> owners \<Rightarrow> mem \<Rightarrow> bool" where
  "keeps f T own m own' m' \<longleftrightarrow> (\<forall>x. own x \<in> T \<longrightarrow> own' x = f (own x) \<and> m' x = m x)"

lemma taggedD: "tagged own t a n \<Longrightarrow> a \<le> x \<Longrightarrow> x < a + n \<Longrightarrow> own x = t"
  by (simp add: tagged_def)

lemma tagged_sub: "tagged own t a n \<Longrightarrow> a \<le> b \<Longrightarrow> b + k \<le> a + n \<Longrightarrow> tagged own t b k"
  by (auto simp: tagged_def)

lemma tagged_disjoint: "tagged own t a n \<Longrightarrow> tagged own u b k \<Longrightarrow> t \<noteq> u \<Longrightarrow> 0 < n \<Longrightarrow> 0 < k \<Longrightarrow> a + n \<le> b \<or> b + k \<le> a"
  unfolding tagged_def by (metis le_add1 less_add_same_cancel1 nat_le_linear not_le)

lemma keeps_refl: "keeps id T own m own m"
  by (simp add: keeps_def)

lemma keeps_trans:
  "keeps id T own m own' m' \<Longrightarrow> keeps id T own' m' own'' m'' \<Longrightarrow> keeps id T own m own'' m''"
  by (auto simp: keeps_def)

lemma keeps_sub: "keeps f T own m own' m' \<Longrightarrow> U \<subseteq> T \<Longrightarrow> keeps f U own m own' m'"
  by (auto simp: keeps_def)

lemma keeps_tagged: "keeps f T own m own' m' \<Longrightarrow> t \<in> T \<Longrightarrow> tagged own t a n \<Longrightarrow> tagged own' (f t) a n"
  by (auto simp: keeps_def tagged_def)

lemma keeps_rd32:
  "keeps f T own m own' m' \<Longrightarrow> t \<in> T \<Longrightarrow> tagged own t a n \<Longrightarrow> a \<le> b \<Longrightarrow> b + 4 \<le> a + n \<Longrightarrow> rd32 m' b = rd32 m b"
  by (rule rd32_eqI) (auto simp: keeps_def tagged_def)

lemma keeps_str:
  "keeps f T own m own' m' \<Longrightarrow> Str \<in> T \<Longrightarrow> f Str = Str \<Longrightarrow> str_at own m a s \<Longrightarrow> str_at own' m' a s"
  by (auto simp: str_at_def keeps_def tagged_def)

lemma keeps_trans_at:
  assumes "keeps f T own m own' m'" "{Str, Trs i j} \<subseteq> T" "f Str = Str" "tagged own (Trs i j) a 8" "trans_at own m a t"
  shows "trans_at own' m' a t"
proof -
  have "rd32 m' a = rd32 m a" "rd32 m' (a + 4) = rd32 m (a + 4)"
    using assms(2) by (auto intro!: keeps_rd32 [OF assms(1) _ assms(4)])
  with assms show ?thesis by (auto simp: trans_at_def intro: keeps_str)
qed

text \<open>The three words of an array descriptor.\<close>

definition same_desc :: "mem \<Rightarrow> nat \<Rightarrow> mem \<Rightarrow> nat \<Rightarrow> bool" where
  "same_desc m a m' a' \<longleftrightarrow> rd32 m' a' = rd32 m a \<and> rd32 m' (a' + 4) = rd32 m (a + 4) \<and> rd32 m' (a' + 8) = rd32 m (a + 8)"

lemma keeps_transforms:
  assumes "keeps f T own m own' m'" "{Str, Trs i j} \<subseteq> T" "f Str = Str" "f (Trs i j) = Trs i' j'"
    and "same_desc m a m' a'" and "arr_at own m 8 a (Trs i j) (\<lambda>k. trans_at own m) ts"
  shows "arr_at own' m' 8 a' (Trs i' j') (\<lambda>k. trans_at own' m') ts"
proof -
  have tg: "tagged own (Trs i j) (rdn m a) (8 * rdn m (a + 8))" "length ts \<le> rdn m (a + 8)"
    using assms(6) by (simp_all add: arr_at_def)
  have "trans_at own' m' (rdn m a + 8 * k) (ts ! k)" if "k < length ts" for k
    using keeps_trans_at [OF assms(1-3) tagged_sub [OF tg(1)]] assms(6) that tg(2) by (simp add: arr_at_def)
  with assms keeps_tagged [OF assms(1) _ tg(1)] show ?thesis
    by (simp add: arr_at_def same_desc_def)
qed

lemma keeps_patch_at:
  assumes "keeps f T own m own' m'" "{Str, Trs i j} \<subseteq> T" "f Str = Str" "f (Trs i j) = Trs i' j'"
    and "\<And>b. b \<le> 16 \<Longrightarrow> rd32 m' (a' + b) = rd32 m (a + b)" and "patch_at own m i j a p"
  shows "patch_at own' m' i' j' a' p"
proof -
  have "same_desc m (a + 8) m' (a' + 8)"
    using assms(5) [of 8] assms(5) [of 12] assms(5) [of 16] by (simp add: same_desc_def add.assoc)
  moreover have "rd32 m' a' = rd32 m a" "rd32 m' (a' + 4) = rd32 m (a + 4)"
    using assms(5) [of 0] assms(5) [of 4] by simp_all
  ultimately show ?thesis
    using assms(6) keeps_transforms [OF assms(1-4), of "a + 8" "a' + 8"] keeps_str [OF assms(1) _ assms(3)] assms(2)
    by (simp add: patch_at_def)
qed

lemma keeps_list_at:
  assumes "keeps f T own m own' m'" "{Str, Pats i} \<union> range (Trs i) \<subseteq> T"
    and "f Str = Str" "f (Pats i) = Pats i'" "\<And>j. f (Trs i j) = Trs i' j"
    and "same_desc m p m' p'" and "list_at own m i p ps"
  shows "list_at own' m' i' p' ps"
proof -
  have tg: "tagged own (Pats i) (rdn m p) (20 * rdn m (p + 8))" "length ps \<le> rdn m (p + 8)"
    using assms(7) by (simp_all add: list_at_def arr_at_def)
  have "patch_at own' m' i' j (rdn m p + 20 * j) (ps ! j)" if "j < length ps" for j
  proof (rule keeps_patch_at [OF assms(1) _ assms(3,5)])
    show "{Str, Trs i j} \<subseteq> T" using assms(2) by auto
    show "rd32 m' (rdn m p + 20 * j + b) = rd32 m (rdn m p + 20 * j + b)" if "b \<le> 16" for b
      by (rule keeps_rd32 [OF assms(1) _ tg(1)]) (use assms(2) that \<open>j < length ps\<close> tg(2) in auto)
    show "patch_at own m i j (rdn m p + 20 * j) (ps ! j)"
      using assms(7) that by (simp add: list_at_def arr_at_def)
  qed
  with assms keeps_tagged [OF assms(1) _ tg(1)] show ?thesis
    by (simp add: list_at_def arr_at_def same_desc_def)
qed

abbreviation data_tags :: "tag set" where
  "data_tags \<equiv> {Str} \<union> range Pats \<union> range (case_prod Trs)"

abbreviation live_tags :: "tag set" where
  "live_tags \<equiv> {Keys, Vals} \<union> data_tags"

lemma data_tags_list [simp]: "{Str, Pats i} \<union> range (Trs i) \<subseteq> data_tags"
  by (auto intro: rev_image_eqI)

text \<open>An entry moves with its two table rows.\<close>

lemma keeps_entry:
  assumes "entry_at own m i e" "keeps f T own m own' m'" "{Str, Pats i} \<union> range (Trs i) \<subseteq> T"
    and "f Str = Str" "f (Pats i) = Pats i'" "\<And>j. f (Trs i j) = Trs i' j"
    and "rd32 m' (keys_off m' + 4 * i') = rd32 m (keys_off m + 4 * i)"
    and "same_desc m (values_off m + 12 * i) m' (values_off m' + 12 * i')"
  shows "entry_at own' m' i' e"
  using assms keeps_list_at [OF assms(2-6,8)] keeps_str [OF assms(2) _ assms(4)]
  by (simp add: entry_at_def)

lemma table_rows:
  assumes "rep own m \<sigma>" "i < map_capacity m"
  shows "tagged own Keys (keys_off m + 4 * i) 4" "tagged own Vals (values_off m + 12 * i) 12"
proof -
  have tg: "tagged own Keys (keys_off m) (4 * map_capacity m)" "tagged own Vals (values_off m) (12 * map_capacity m)"
    using assms(1) by (simp_all add: rep_def table_ok_def)
  show "tagged own Keys (keys_off m + 4 * i) 4" "tagged own Vals (values_off m + 12 * i) 12"
    by (rule tagged_sub [OF tg(1)] tagged_sub [OF tg(2)]; use assms(2) in simp)+
qed

lemma rep_cap: "rep own m \<sigma> \<Longrightarrow> i < length \<sigma> \<Longrightarrow> i < map_capacity m"
  by (simp add: rep_def table_ok_def)

text \<open>A step that keeps all live bytes and the table fields of the header keeps the whole store.\<close>

lemma rep_frame:
  assumes "rep own m \<sigma>" "keeps id live_tags own m own' m'" "hdr_ok own' m'"
    and "rd32 m' 8 = rd32 m 8" "rd32 m' 12 = rd32 m 12" "rd32 m' 16 = rd32 m 16" "rd32 m' 20 = rd32 m 20"
  shows "rep own' m' \<sigma>"
proof -
  have "entry_at own' m' i (\<sigma> ! i)" if i: "i < length \<sigma>" for i
  proof (rule keeps_entry [where f = id])
    note rows = table_rows [OF assms(1) rep_cap [OF assms(1) i]]
    show "rd32 m' (keys_off m' + 4 * i) = rd32 m (keys_off m + 4 * i)"
      unfolding assms(4) by (rule keeps_rd32 [OF assms(2) _ rows(1)]) auto
    show "same_desc m (values_off m + 12 * i) m' (values_off m' + 12 * i)"
      unfolding assms(5) same_desc_def by (intro conjI keeps_rd32 [OF assms(2) _ rows(2)]) auto
  qed (use assms(1,2) i data_tags_list [of i] in \<open>auto simp: rep_def\<close>)
  with assms keeps_tagged [OF assms(2)] show ?thesis
    by (simp add: rep_def table_ok_def)
qed

subsection \<open>Allocation\<close>

text \<open>A step that takes \<open>c\<close> bytes and leaves everything that was there before.\<close>

definition takes :: "nat \<Rightarrow> owners \<Rightarrow> mem \<Rightarrow> owners \<Rightarrow> mem \<Rightarrow> bool" where
  "takes c own m own' m' \<longleftrightarrow> hdr_ok own' m' \<and> keeps id (- {Hdr, Free}) own m own' m' \<and>
     unat (arena_used m') = unat (arena_used m) + c \<and>
     arena_size m' = arena_size m \<and> rd32 m' 8 = rd32 m 8 \<and> rd32 m' 12 = rd32 m 12 \<and> rd32 m' 16 = rd32 m 16 \<and>
     rd32 m' 20 = rd32 m 20"

lemma takes_trans:
  "takes c own m own' m' \<Longrightarrow> takes d own' m' own'' m'' \<Longrightarrow> takes (c + d) own m own'' m''"
  unfolding takes_def keeps_def by (simp add: add.assoc)

lemma takes_rep: "rep own m \<sigma> \<Longrightarrow> takes c own m own' m' \<Longrightarrow> rep own' m' \<sigma>"
  by (rule rep_frame) (auto simp: takes_def intro: keeps_sub)

lemma hdr_ok_used: "hdr_ok own m \<Longrightarrow> own x \<noteq> Free \<Longrightarrow> x < unat (arena_used m)"
  unfolding hdr_ok_def using not_le by blast

lemma hdr_ok_cong:
  "hdr_ok own m \<Longrightarrow> rd32 m' 0 = rd32 m 0 \<Longrightarrow> rd32 m' 4 = rd32 m 4 \<Longrightarrow> hdr_ok own m'"
  by (simp add: hdr_ok_def)

lemma salloc_step:
  assumes "hdr_ok own m" "unat (arena_used m) + up8 (unat sz) \<le> unat (arena_size m)"
    and "t \<noteq> Hdr"
  obtains own' m' where "salloc sz m = (arena_used m, m')" "takes (up8 (unat sz)) own m own' m'"
    "tagged own' t (unat (arena_used m)) (up8 (unat sz))" "\<forall>x \<ge> 24. m' x = m x"
    "\<forall>x. own x \<noteq> Free \<longrightarrow> own' x = own x"
proof -
  define b where "b = unat (arena_used m)"
  define c where "c = up8 (unat sz)"
  define m' where "m' = wr32 4 (of_nat (b + c)) m"
  define own' where "own' = (\<lambda>x. if b \<le> x \<and> x < b + c then t else own x)"
  have lim: "unat (arena_size m) \<le> 2 ^ 30" "24 \<le> b" "b \<le> unat (arena_size m)"
    using assms(1) by (simp_all add: hdr_ok_def b_def)
  have c: "unat sz \<le> c" using up8_bounds(1) by (simp add: c_def)
  have bc: "b + c \<le> unat (arena_size m)" using assms(2) by (simp add: b_def c_def)
  have s: "salloc sz m = (arena_used m, m')"
    unfolding m'_def b_def c_def
    by (rule salloc_success) (use assms(2) c bc lim in \<open>simp_all add: b_def c_def\<close>)
  have used: "unat (arena_used m') = b + c"
    unfolding m'_def rd32_wr32_same by (rule unat_of_small) (use bc lim in simp)
  have rd: "rd32 m' a = rd32 m a" if "a + 4 \<le> 4 \<or> 8 \<le> a" for a
    unfolding m'_def by (rule rd32_wr32_other) (use that in auto)
  have own: "own' x = own x" if "own x \<noteq> Free" for x
    using hdr_ok_used [OF assms(1) that] by (simp add: own'_def b_def)
  have "hdr_ok own' m'"
    using assms(1,3) rd [of 0] used bc lim unfolding hdr_ok_def by (auto simp: own'_def b_def)
  moreover have "m' x = m x" if "24 \<le> x" for x
    unfolding m'_def by (rule wr32_other) (use that in auto)
  moreover have "24 \<le> x" if "own x \<notin> {Hdr, Free}" for x
    using assms(1) that unfolding hdr_ok_def by (auto simp: not_less [symmetric])
  ultimately show ?thesis
    using that [of m' own'] s rd used own
    by (auto simp: takes_def keeps_def tagged_def own'_def b_def c_def)
qed

lemma salloc_sized:
  assumes "hdr_ok own m" "unat sz = n" "unat (arena_used m) + up8 n \<le> unat (arena_size m)" "t \<noteq> Hdr"
  obtains own' m' where "salloc sz m = (arena_used m, m')" "takes (up8 n) own m own' m'"
    "tagged own' t (unat (arena_used m)) (up8 n)"
  using salloc_step [OF assms(1), of sz t] assms(2-4) that by metis

lemma put_str_at:
  assumes "tagged own Str a (length s + 1)" "CHR 0x00 \<notin> set s"
  shows "str_at own (put_str a s m) a s"
  using assms by (simp add: str_at_def put_str_def)

lemma strdup_step:
  assumes "hdr_ok own m" "unat (arena_used m) + up8 (length s + 1) \<le> unat (arena_size m)" "CHR 0x00 \<notin> set s"
  obtains own' m' where "shm_strdup s m = (arena_used m, m')" "takes (up8 (length s + 1)) own m own' m'"
    "str_at own' m' (unat (arena_used m)) s"
proof -
  let ?b = "unat (arena_used m)"
  have lim: "length s + 1 < 2 ^ 32"
    using assms(1,2) up8_bounds(1) [of "length s + 1"] by (simp add: hdr_ok_def)
  then have sz: "unat (of_nat (length s) + 1 :: u32) = length s + 1"
    using unat_of_small [of "length s + 1"] by (simp add: add.commute)
  obtain own' m' where al: "salloc (of_nat (length s) + 1) m = (arena_used m, m')"
    "takes (up8 (length s + 1)) own m own' m'" "tagged own' Str ?b (up8 (length s + 1))"
    by (rule salloc_sized [OF assms(1) sz assms(2), of Str]) simp_all
  define m'' where "m'' = put_str ?b s m'"
  have nz: "arena_used m \<noteq> 0" using assms(1) by (auto simp: hdr_ok_def)
  have tg: "tagged own' Str ?b (length s + 1)"
    by (rule tagged_sub [OF al(3)]) (use up8_bounds(1) [of "length s + 1"] in simp_all)
  have b: "24 \<le> ?b" using assms(1) by (simp add: hdr_ok_def)
  have rd: "rd32 m'' a = rd32 m' a" if "a + 4 \<le> 24" for a
    unfolding m''_def by (rule rd32_put_str_other) (use that b in simp)
  have byte: "m'' x = m' x" if "own x \<noteq> Free" for x
    unfolding m''_def by (rule put_str_other) (use hdr_ok_used [OF assms(1) that] in simp)
  have "hdr_ok own' m''"
    by (rule hdr_ok_cong [of _ m']) (use al(2) rd [of 0] rd [of 4] in \<open>simp_all add: takes_def\<close>)
  then have "takes (up8 (length s + 1)) own m own' m''"
    using al(2) rd byte by (auto simp: takes_def keeps_def)
  moreover have "shm_strdup s m = (arena_used m, m'')"
    using al(1) nz by (simp add: shm_strdup_def m''_def)
  moreover have "str_at own' m'' ?b s"
    unfolding m''_def by (rule put_str_at [OF tg assms(3)])
  ultimately show ?thesis using that by blast
qed

subsection \<open>Lookup\<close>

lemma byte_of_char_inj: "byte_of_char c = byte_of_char d \<longleftrightarrow> c = d"
  using byte_char_inverse by metis

lemma byte_of_char_zero: "byte_of_char c = 0 \<longleftrightarrow> c = CHR 0x00"
proof -
  have "byte_of_char (CHR 0x00) = 0" by (simp add: byte_of_char_def)
  then show ?thesis using byte_of_char_inj by metis
qed

lemma str_eq_at:
  assumes "CHR 0x00 \<notin> set s" "CHR 0x00 \<notin> set key"
    "\<forall>i < length s. m (a + i) = byte_of_char (s ! i)" "m (a + length s) = 0"
  shows "str_eq m a key \<longleftrightarrow> key = s"
  using assms
proof (induction key arbitrary: a s)
  case Nil
  show ?case
  proof (cases s)
    case (Cons c s')
    then have "m a = byte_of_char c" "c \<noteq> CHR 0x00" using Nil.prems(1,3) by (auto dest: spec [of _ 0])
    with Cons show ?thesis using byte_of_char_zero by auto
  qed (use Nil in simp)
next
  case (Cons d key)
  show ?case
  proof (cases s)
    case Nil
    with Cons.prems have "m a = 0" "d \<noteq> CHR 0x00" by auto
    with Nil show ?thesis using byte_of_char_zero by auto
  next
    case (Cons c s')
    have "m a = byte_of_char c" using Cons.prems(3) Cons by (auto dest: spec [of _ 0])
    moreover have "str_eq m (a + 1) key \<longleftrightarrow> key = s'"
    proof (rule Cons.IH)
      show "\<forall>i < length s'. m (a + 1 + i) = byte_of_char (s' ! i)"
      proof (intro allI impI)
        fix i
        assume "i < length s'"
        then show "m (a + 1 + i) = byte_of_char (s' ! i)"
          using Cons.prems(3) [rule_format, of "Suc i"] Cons by simp
      qed
    qed (use Cons.prems Cons in auto)
    ultimately show ?thesis using Cons byte_of_char_inj by auto
  qed
qed

fun index_of :: "string \<Rightarrow> store \<Rightarrow> nat option" where
  "index_of key [] = None"
| "index_of key (e # \<sigma>) = (if fst e = key then Some 0 else map_option Suc (index_of key \<sigma>))"

lemma index_of_None: "index_of key \<sigma> = None \<longleftrightarrow> key \<notin> set (map fst \<sigma>)"
  by (induction \<sigma>) auto

lemma index_of_Some: "index_of key \<sigma> = Some i \<Longrightarrow> i < length \<sigma> \<and> fst (\<sigma> ! i) = key"
  by (induction \<sigma> arbitrary: i) (auto split: if_splits)

lemma index_of_eq:
  "distinct (map fst \<sigma>) \<Longrightarrow> i < length \<sigma> \<Longrightarrow> fst (\<sigma> ! i) = key \<Longrightarrow> index_of key \<sigma> = Some i"
proof -
  assume d: "distinct (map fst \<sigma>)" and i: "i < length \<sigma>" "fst (\<sigma> ! i) = key"
  have "key \<in> set (map fst \<sigma>)" using i by (metis length_map nth_map nth_mem)
  then obtain j where j: "index_of key \<sigma> = Some j" using index_of_None [of key \<sigma>] by auto
  then have "map fst \<sigma> ! j = map fst \<sigma> ! i" "j < length (map fst \<sigma>)" using index_of_Some [OF j] i by simp_all
  then have "j = i" using nth_eq_iff_index_eq [OF d, of j i] i by simp
  with j show ?thesis by simp
qed

lemma find_key_at:
  assumes "rep own m \<sigma>" "CHR 0x00 \<notin> set key" "i + n = length \<sigma>" "\<forall>j < i. fst (\<sigma> ! j) \<noteq> key"
  shows "find_key m key i n = index_of key \<sigma>"
  using assms(3,4)
proof (induction n arbitrary: i)
  case 0
  then have "key \<notin> set (map fst \<sigma>)" by (auto simp: in_set_conv_nth) (metis fst_conv)
  then show ?case using index_of_None [of key \<sigma>] by simp
next
  case (Suc n)
  then have i: "i < length \<sigma>" by simp
  have "str_at own m (rdn m (keys_off m + 4 * i)) (fst (\<sigma> ! i))"
    using assms(1) i by (simp add: rep_def entry_at_def)
  then have eq: "str_eq m (rdn m (keys_off m + 4 * i)) key \<longleftrightarrow> key = fst (\<sigma> ! i)"
    using str_eq_at [OF _ assms(2)] by (simp add: str_at_def)
  show ?case
  proof (cases "key = fst (\<sigma> ! i)")
    case True
    then have "index_of key \<sigma> = Some i"
      using index_of_eq [of \<sigma> i key] assms(1) i by (simp add: rep_def)
    with True eq show ?thesis by simp
  next
    case False
    then have "\<forall>j < i + 1. fst (\<sigma> ! j) \<noteq> key"
      using Suc.prems(2) by (auto simp: less_Suc_eq)
    with Suc eq False show ?thesis by simp
  qed
qed

lemma hashmap_get_at:
  assumes "rep own m \<sigma>" "CHR 0x00 \<notin> set key"
  shows "hashmap_get key m = map_option (\<lambda>i. values_off m + 12 * i) (index_of key \<sigma>)"
proof -
  have "map_count m = length \<sigma>" using assms(1) by (simp add: rep_def table_ok_def)
  then show ?thesis
    using find_key_at [OF assms, of 0 "map_count m"] by (simp add: hashmap_get_def)
qed

subsection \<open>Adding a key\<close>

lemma range_of_tag: "hdr_ok own m \<Longrightarrow> tagged own t a n \<Longrightarrow> t \<notin> {Hdr, Free} \<Longrightarrow> 0 < n \<Longrightarrow>
    24 \<le> a \<and> a + n \<le> unat (arena_used m)"
proof -
  assume h: "hdr_ok own m" and tg: "tagged own t a n" and t: "t \<notin> {Hdr, Free}" and n: "0 < n"
  have "own a = t" "own (a + n - 1) = t" using tg n by (auto simp: tagged_def)
  then have "24 \<le> a" "a + n - 1 < unat (arena_used m)"
    using h t hdr_ok_used [OF h, of "a + n - 1"] unfolding hdr_ok_def by (auto simp: not_less [symmetric])
  with n show ?thesis by simp
qed

lemma keeps_wr32:
  assumes "tagged own t a 4" "t \<notin> T"
  shows "keeps id T own m own (wr32 a v m)"
proof -
  have "wr32 a v m x = m x" if "own x \<in> T" for x
  proof (rule wr32_other)
    have "\<not> (a \<le> x \<and> x < a + 4)" using assms that by (auto simp: tagged_def)
    then show "x < a \<or> a + 4 \<le> x" by auto
  qed
  then show ?thesis by (simp add: keeps_def)
qed

lemma keeps_wr32_step:
  "keeps id T own m own m' \<Longrightarrow> tagged own t a 4 \<Longrightarrow> t \<notin> T \<Longrightarrow> keeps id T own m own (wr32 a v m')"
  by (rule keeps_trans [OF _ keeps_wr32])

lemma hdr_ok_wr32:
  assumes "hdr_ok own m" "24 \<le> a \<or> 8 \<le> a"
  shows "hdr_ok own (wr32 a v m)"
  using assms by (auto simp: hdr_ok_def rd32_wr32_other)

lemma append_rep:
  assumes "rep own m \<sigma>" "length \<sigma> < map_capacity m" "CHR 0x00 \<notin> set key" "key \<notin> set (map fst \<sigma>)"
    and "unat (arena_used m) + up8 (length key + 1) \<le> unat (arena_size m)"
  obtains own' m' where "hashmap_append key m = (values_off m + 12 * length \<sigma>, m')"
    "rep own' m' (\<sigma> @ [(key, [])])" "values_off m' = values_off m" "arena_size m' = arena_size m"
    "unat (arena_used m') = unat (arena_used m) + up8 (length key + 1)"
proof -
  let ?n = "length \<sigma>"
  have h: "hdr_ok own m" and t: "table_ok own m ?n" using assms(1) by (simp_all add: rep_def)
  obtain own' m1 where sd: "shm_strdup key m = (arena_used m, m1)" "takes (up8 (length key + 1)) own m own' m1"
    "str_at own' m1 (unat (arena_used m)) key"
    by (rule strdup_step [OF h assms(5,3)])
  have r1: "rep own' m1 \<sigma>" using takes_rep [OF assms(1) sd(2)] .
  have hd: "keys_off m1 = keys_off m" "values_off m1 = values_off m" "rd32 m1 16 = rd32 m 16"
    "map_capacity m1 = map_capacity m" using sd(2) by (simp_all add: takes_def)
  have cnt: "map_count m = ?n" using t by (simp add: table_ok_def)
  define k where "k = keys_off m + 4 * ?n"
  define p where "p = values_off m + 12 * ?n"
  define m2 where "m2 = wr32 (p + 8) 0 (wr32 (p + 4) 0 (wr32 p 0 (wr32 k (arena_used m) m1)))"
  define m' where "m' = wr32 16 (rd32 m2 16 + 1) m2"
  have t1: "table_ok own' m1 ?n" and h1: "hdr_ok own' m1" using r1 by (simp_all add: rep_def)
  have tk: "tagged own' Keys k 4" and tp: "tagged own' Vals p 12"
    using t1 assms(2) hd unfolding table_ok_def k_def p_def
    by (auto elim!: tagged_sub)
  have rk: "24 \<le> k" and rp: "24 \<le> p"
    using range_of_tag [OF h1 tk] range_of_tag [OF h1 tp] by auto
  have dis: "k + 4 \<le> p \<or> p + 12 \<le> k" using tagged_disjoint [OF tk tp] by simp
  have rd: "rd32 m' b = rd32 m1 b" if "b + 4 \<le> k \<or> k + 4 \<le> b" "b + 4 \<le> p \<or> p + 12 \<le> b" "b + 4 \<le> 16 \<or> 20 \<le> b" for b
    using that unfolding m'_def m2_def by (elim disjE) (simp_all add: rd32_wr32_other)
  have rk': "rd32 m' k = arena_used m"
    unfolding m'_def m2_def using dis rk
    by (elim disjE) (simp_all add: rd32_wr32_other)
  have rp': "rd32 m' p = 0" "rd32 m' (p + 4) = 0" "rd32 m' (p + 8) = 0"
    unfolding m'_def m2_def using rp by (simp_all add: rd32_wr32_other)
  have m2c: "rd32 m2 16 = of_nat ?n"
    unfolding m2_def using rk rp hd(3) cnt by (simp add: rd32_wr32_other) (metis of_nat_unat_id)
  have lim: "?n + 1 < 2 ^ 32" using assms(2) unsigned_less [of "rd32 m 20", where ?'a = nat] by simp
  have c': "map_count m' = ?n + 1"
    unfolding m'_def rd32_wr32_same m2c using unat_of_small [OF lim] by (simp add: add.commute)
  have "tagged own' Vals p 4" "tagged own' Vals (p + 4) 4" "tagged own' Vals (p + 8) 4" "tagged own' Hdr 16 4"
    using tp h1 by (auto simp: tagged_def hdr_ok_def)
  then have kp: "keeps id data_tags own' m1 own' m'"
    unfolding m'_def m2_def
    by (intro keeps_wr32_step [where t = Hdr] keeps_wr32_step [where t = Vals] keeps_wr32_step [OF keeps_refl tk]) auto
  have h': "hdr_ok own' m'"
    unfolding m'_def m2_def using h1 rk rp by (intro hdr_ok_wr32) auto
  have capn: "?n < map_capacity m1" using assms(2) hd by simp
  have off': "keys_off m' = keys_off m" "values_off m' = values_off m" "map_capacity m' = map_capacity m1"
    using rd [of 8] rd [of 12] rd [of 20] rk rp hd by simp_all
  have "table_ok own' m' (?n + 1)"
    using t1 capn c' off' hd by (simp add: table_ok_def)
  moreover have "entry_at own' m' i ((\<sigma> @ [(key, [])]) ! i)" if "i < ?n + 1" for i
  proof (cases "i = ?n")
    case True
    have "list_at own' m' ?n p []"
      using rp' by (simp add: list_at_def arr_at_def tagged_def)
    with True off' rk' keeps_str [OF kp _ _ sd(3)] show ?thesis
      by (simp add: entry_at_def k_def p_def)
  next
    case False
    then have i: "i < ?n" using that by simp
    note rows = table_rows [OF r1 rep_cap [OF r1 i], unfolded hd]
    have d: "keys_off m + 4 * i + 4 \<le> p \<or> p + 12 \<le> keys_off m + 4 * i"
      "k + 4 \<le> values_off m + 12 * i \<or> values_off m + 12 * i + 12 \<le> k"
      using tagged_disjoint [OF rows(1) tp] tagged_disjoint [OF tk rows(2)] by simp_all
    have r24: "24 \<le> keys_off m + 4 * i" "24 \<le> values_off m + 12 * i"
      using range_of_tag [OF h1 rows(1)] range_of_tag [OF h1 rows(2)] by auto
    have "entry_at own' m' i (\<sigma> ! i)"
    proof (rule keeps_entry [OF _ kp data_tags_list])
      show "rd32 m' (keys_off m' + 4 * i) = rd32 m1 (keys_off m1 + 4 * i)"
        unfolding off' hd by (rule rd) (use i d r24 in \<open>auto simp: k_def\<close>)
      show "same_desc m1 (values_off m1 + 12 * i) m' (values_off m' + 12 * i)"
        unfolding off' hd same_desc_def by (intro conjI rd) (use i d r24 in \<open>auto simp: p_def\<close>)
    qed (use r1 i in \<open>auto simp: rep_def\<close>)
    with i show ?thesis by (simp add: nth_append)
  qed
  moreover have "distinct (map fst (\<sigma> @ [(key, [])]))"
    using assms(1,4) by (auto simp: rep_def)
  ultimately have "rep own' m' (\<sigma> @ [(key, [])])"
    using h' by (simp add: rep_def)
  moreover have "hashmap_append key m = (p, m')"
    using sd(1) cnt by (simp add: hashmap_append_def Let_def m'_def m2_def k_def p_def)
  ultimately show ?thesis
    using that [of m' own'] rd [of 12] rd [of 0] rd [of 4] rk rp hd sd(2) by (simp add: p_def takes_def)
qed

subsection \<open>Growing the table\<close>

lemma keeps_write:
  assumes "keeps id T own m own m1" "tagged own t a n" "t \<notin> T" "\<And>x. x < a \<or> a + n \<le> x \<Longrightarrow> m2 x = m1 x"
  shows "keeps id T own m own m2"
proof -
  have "m2 x = m1 x" if "own x \<in> T" for x
  proof (rule assms(4))
    have "\<not> (a \<le> x \<and> x < a + n)" using assms(2,3) that by (auto simp: tagged_def)
    then show "x < a \<or> a + n \<le> x" by auto
  qed
  with assms(1) show ?thesis by (simp add: keeps_def)
qed

lemma cap_bound:
  assumes "rep own m \<sigma>"
  shows "12 * map_capacity m \<le> 2 ^ 30" "0 < map_capacity m"
proof -
  have t: "table_ok own m (length \<sigma>)" and h: "hdr_ok own m" using assms by (simp_all add: rep_def)
  then show "0 < map_capacity m" by (simp add: table_ok_def)
  then show "12 * map_capacity m \<le> 2 ^ 30"
    using t h range_of_tag [OF h, of Vals "values_off m" "12 * map_capacity m"]
    by (simp add: table_ok_def hdr_ok_def)
qed

lemma unat_mult_small: "unat (w :: u32) * n < 2 ^ 32 \<Longrightarrow> unat (w * of_nat n) = unat w * n"
  by (simp add: unat_word_ariths unat_of_nat take_bit_nat_eq_self mod_mult_right_eq take_bit_eq_mod)

lemma grow_alloc:
  assumes "rep own m \<sigma>"
    and "unat (arena_used m) + up8 (8 * map_capacity m) + up8 (24 * map_capacity m) \<le> unat (arena_size m)"
  obtains own' k v m1 m2 where "salloc (rd32 m 20 * 2 * 4) m = (k, m1)" "salloc (rd32 m 20 * 2 * 12) m1 = (v, m2)"
    "k \<noteq> 0" "v \<noteq> 0" "takes (up8 (8 * map_capacity m) + up8 (24 * map_capacity m)) own m own' m2"
    "tagged own' Keys (unat k) (8 * map_capacity m)" "tagged own' Vals (unat v) (24 * map_capacity m)"
proof -
  let ?c = "map_capacity m"
  note c = cap_bound [OF assms(1)]
  have h: "hdr_ok own m" using assms(1) by (simp add: rep_def)
  have sz: "unat (rd32 m 20 * 2 * 4) = 8 * ?c" "unat (rd32 m 20 * 2 * 12) = 24 * ?c"
    using unat_mult_small [of "rd32 m 20" 8] unat_mult_small [of "rd32 m 20" 24] c by (simp_all add: mult.assoc)
  obtain own1 m1 where a1: "salloc (rd32 m 20 * 2 * 4) m = (arena_used m, m1)" "takes (up8 (8 * ?c)) own m own1 m1"
    "tagged own1 Keys (unat (arena_used m)) (up8 (8 * ?c))"
    by (rule salloc_sized [OF h sz(1), of Keys]) (use assms(2) in simp_all)
  have h1: "hdr_ok own1 m1" using a1(2) by (simp add: takes_def)
  have u1: "unat (arena_used m1) = unat (arena_used m) + up8 (8 * ?c)" "arena_size m1 = arena_size m"
    using a1(2) by (simp_all add: takes_def)
  obtain own2 m2 where a2: "salloc (rd32 m 20 * 2 * 12) m1 = (arena_used m1, m2)" "takes (up8 (24 * ?c)) own1 m1 own2 m2"
    "tagged own2 Vals (unat (arena_used m1)) (up8 (24 * ?c))"
    by (rule salloc_sized [OF h1 sz(2), of Vals]) (use assms(2) u1 in simp_all)
  have nz: "arena_used m \<noteq> 0" "arena_used m1 \<noteq> 0" using h h1 by (auto simp: hdr_ok_def)
  have "tagged own2 Keys (unat (arena_used m)) (up8 (8 * ?c))"
    using keeps_tagged [of id "- {Hdr, Free}" own1 m1 own2 m2 Keys] a2(2) a1(3) by (simp add: takes_def)
  then have "tagged own2 Keys (unat (arena_used m)) (8 * ?c)" "tagged own2 Vals (unat (arena_used m1)) (24 * ?c)"
    using a2(3) up8_bounds(1) by (auto elim!: tagged_sub)
  with that [OF a1(1) a2(1) nz takes_trans [OF a1(2) a2(2)]] show ?thesis by blast
qed

lemma grow_rep:
  assumes "rep own m \<sigma>"
    and "unat (arena_used m) + up8 (8 * map_capacity m) + up8 (24 * map_capacity m) \<le> unat (arena_size m)"
  obtains own' m' where "hashmap_grow m = (True, m')" "rep own' m' \<sigma>" "map_capacity m' = 2 * map_capacity m"
    "arena_size m' = arena_size m"
    "unat (arena_used m') = unat (arena_used m) + up8 (8 * map_capacity m) + up8 (24 * map_capacity m)"
proof -
  let ?c = "map_capacity m"
  obtain own' k v m1 m2 where al: "salloc (rd32 m 20 * 2 * 4) m = (k, m1)" "salloc (rd32 m 20 * 2 * 12) m1 = (v, m2)"
    "k \<noteq> 0" "v \<noteq> 0" "takes (up8 (8 * ?c) + up8 (24 * ?c)) own m own' m2"
    "tagged own' Keys (unat k) (8 * ?c)" "tagged own' Vals (unat v) (24 * ?c)"
    by (rule grow_alloc [OF assms])
  have r2: "rep own' m2 \<sigma>" by (rule takes_rep [OF assms(1) al(5)])
  then have h2: "hdr_ok own' m2" and t2: "table_ok own' m2 (length \<sigma>)" by (simp_all add: rep_def)
  have hd: "rd32 m2 8 = rd32 m 8" "rd32 m2 12 = rd32 m 12" "rd32 m2 16 = rd32 m 16" "rd32 m2 20 = rd32 m 20"
    using al(5) by (simp_all add: takes_def)
  note c = cap_bound [OF assms(1)]
  define a where "a = unat k"
  define b where "b = unat v"
  have tk: "tagged own' Keys a (8 * ?c)" and tv: "tagged own' Vals b (24 * ?c)"
    using al(6,7) by (simp_all add: a_def b_def)
  define m4 where "m4 = memcpy b (values_off m2) (?c * 12) (memcpy a (keys_off m2) (?c * 4) m2)"
  define m6 where "m6 = memzero (b + ?c * 12) (?c * 12) (memzero (a + ?c * 4) (?c * 4) m4)"
  define m' where "m' = wr32 20 (rd32 m 20 * 2) (wr32 12 v (wr32 8 k m6))"
  have ra: "24 \<le> a" and rb: "24 \<le> b" using range_of_tag [OF h2 tk] range_of_tag [OF h2 tv] c by auto
  have dab: "a + 8 * ?c \<le> b \<or> b + 24 * ?c \<le> a" using tagged_disjoint [OF tk tv] c by simp
  have ov: "tagged own' Vals (values_off m2) (12 * ?c)" using t2 hd by (simp add: table_ok_def)
  have dov: "a + 8 * ?c \<le> values_off m2 \<or> values_off m2 + 12 * ?c \<le> a" using tagged_disjoint [OF tk ov] c by simp
  have hdr: "rd32 m6 x = rd32 m2 x" if "x + 4 \<le> 24" for x
    unfolding m6_def m4_def using that ra rb by (simp add: rd32_memcpy_other rd32_memzero_other)
  have key: "rd32 m' (a + 4 * i) = rd32 m2 (keys_off m2 + 4 * i)" if "i < ?c" for i
  proof -
    have "rd32 m' (a + 4 * i) = rd32 (memcpy a (keys_off m2) (?c * 4) m2) (a + 4 * i)"
      unfolding m'_def m6_def m4_def using that ra dab
      by (elim disjE) (simp_all add: rd32_wr32_other rd32_memzero_other rd32_memcpy_other)
    then show ?thesis using rd32_memcpy_inside [of "4 * i" "?c * 4"] that by simp
  qed
  have val: "rd32 m' (b + j) = rd32 m2 (values_off m2 + j)" if "j + 4 \<le> 12 * ?c" for j
  proof -
    have "rd32 m' (b + j) = rd32 m4 (b + j)"
      unfolding m'_def m6_def using that rb dab
      by (elim disjE) (simp_all add: rd32_wr32_other rd32_memzero_other)
    also have "\<dots> = rd32 (memcpy a (keys_off m2) (?c * 4) m2) (values_off m2 + j)"
      unfolding m4_def using rd32_memcpy_inside [of j "?c * 12"] that by simp
    also have "\<dots> = rd32 m2 (values_off m2 + j)"
      using dov that by (elim disjE) (simp_all add: rd32_memcpy_other)
    finally show ?thesis .
  qed
  have cap': "map_capacity m' = 2 * ?c"
    unfolding m'_def rd32_wr32_same using unat_mult_small [of "rd32 m 20" 2] c by simp
  have off': "keys_off m' = a" "values_off m' = b" "rd32 m' 16 = rd32 m 16" "rd32 m' 0 = rd32 m2 0" "rd32 m' 4 = rd32 m2 4"
    unfolding m'_def by (simp_all add: rd32_wr32_other hdr hd a_def b_def)
  have kp: "keeps id data_tags own' m2 own' m'"
  proof -
    have "keeps id data_tags own' m2 own' (memcpy a (keys_off m2) (?c * 4) m2)"
      by (rule keeps_write [OF keeps_refl tk]) (auto intro!: memcpy_other)
    then have "keeps id data_tags own' m2 own' m4"
      unfolding m4_def by (rule keeps_write [OF _ tv]) (auto intro!: memcpy_other)
    then have "keeps id data_tags own' m2 own' (memzero (a + ?c * 4) (?c * 4) m4)"
      by (rule keeps_write [OF _ tk]) (auto intro!: memzero_other)
    then have "keeps id data_tags own' m2 own' m6"
      unfolding m6_def by (rule keeps_write [OF _ tv]) (auto intro!: memzero_other)
    moreover have "tagged own' Hdr x 4" if "x + 4 \<le> 24" for x
      using h2 that by (auto simp: hdr_ok_def tagged_def)
    ultimately show ?thesis
      unfolding m'_def by (intro keeps_wr32_step [where t = Hdr]) auto
  qed
  have "entry_at own' m' i (\<sigma> ! i)" if i: "i < length \<sigma>" for i
  proof (rule keeps_entry [OF _ kp data_tags_list])
    have ic: "i < ?c" using rep_cap [OF assms(1) i] .
    show "rd32 m' (keys_off m' + 4 * i) = rd32 m2 (keys_off m2 + 4 * i)"
      unfolding off' by (rule key [OF ic])
    show "same_desc m2 (values_off m2 + 12 * i) m' (values_off m' + 12 * i)"
      unfolding off' same_desc_def
      using val [of "12 * i"] val [of "12 * i + 4"] val [of "12 * i + 8"] ic by (simp add: add.assoc)
  qed (use r2 i in \<open>auto simp: rep_def\<close>)
  moreover have "table_ok own' m' (length \<sigma>)"
    using t2 tk tv off' cap' hd by (simp add: table_ok_def)
  moreover have "hdr_ok own' m'" by (rule hdr_ok_cong [OF h2]) (simp_all add: off')
  ultimately have "rep own' m' \<sigma>" using r2 by (simp add: rep_def)
  moreover have "hashmap_grow m = (True, m')"
    using al(1-4) hd by (simp add: hashmap_grow_def Let_def m'_def m6_def m4_def a_def b_def)
  ultimately show ?thesis
    using that [of m' own'] cap' off' al(5) by (simp add: takes_def)
qed

text \<open>Adding a key: the pointer of the entry, and the store with the key appended if it was new.\<close>

definition store_add_key :: "string \<Rightarrow> store \<Rightarrow> store" where
  "store_add_key key \<sigma> = (if key \<in> set (map fst \<sigma>) then \<sigma> else \<sigma> @ [(key, [])])"

definition key_index :: "string \<Rightarrow> store \<Rightarrow> nat" where
  "key_index key \<sigma> = (case index_of key \<sigma> of Some i \<Rightarrow> i | None \<Rightarrow> length \<sigma>)"

definition add_key_cost :: "string \<Rightarrow> store \<Rightarrow> nat" where
  "add_key_cost key \<sigma> = up8 (8 * length \<sigma>) + up8 (24 * length \<sigma>) + up8 (length key + 1)"

lemma add_key_rep:
  assumes "rep own m \<sigma>" "CHR 0x00 \<notin> set key"
    and "unat (arena_used m) + add_key_cost key \<sigma> \<le> unat (arena_size m)"
  obtains own' m' where "hashmap_add_key key m = (Some (values_off m' + 12 * key_index key \<sigma>), m')"
    "rep own' m' (store_add_key key \<sigma>)" "arena_size m' = arena_size m"
    "unat (arena_used m') \<le> unat (arena_used m) + add_key_cost key \<sigma>"
proof (cases "key \<in> set (map fst \<sigma>)")
  case True
  then obtain i where "index_of key \<sigma> = Some i" using index_of_None [of key \<sigma>] by auto
  then show ?thesis
    using that [of m own] True assms(1) hashmap_get_at [OF assms(1,2)]
    by (simp add: hashmap_add_key_def store_add_key_def key_index_def)
next
  case False
  then have ix: "index_of key \<sigma> = None" by (simp add: index_of_None)
  then have get: "hashmap_get key m = None" using hashmap_get_at [OF assms(1,2)] by simp
  have t: "map_count m = length \<sigma>" "length \<sigma> \<le> map_capacity m" using assms(1) by (simp_all add: rep_def table_ok_def)
  show ?thesis
  proof (cases "length \<sigma> < map_capacity m")
    case True
    have pre: "unat (arena_used m) + up8 (length key + 1) \<le> unat (arena_size m)"
      using assms(3) by (simp add: add_key_cost_def)
    obtain own' m' where ap: "hashmap_append key m = (values_off m + 12 * length \<sigma>, m')"
      "rep own' m' (\<sigma> @ [(key, [])])" "values_off m' = values_off m" "arena_size m' = arena_size m"
      "unat (arena_used m') = unat (arena_used m) + up8 (length key + 1)"
      by (rule append_rep [OF assms(1) True assms(2) False pre])
    show ?thesis
      by (rule that [of m' own'])
        (use ap get t True False ix in \<open>simp_all add: hashmap_add_key_def store_add_key_def key_index_def add_key_cost_def\<close>)
  next
    case full: False
    then have cap: "map_capacity m = length \<sigma>" using t by simp
    have pre: "unat (arena_used m) + up8 (8 * map_capacity m) + up8 (24 * map_capacity m) \<le> unat (arena_size m)"
      using assms(3) by (simp add: add_key_cost_def cap)
    obtain own1 m1 where gr: "hashmap_grow m = (True, m1)" "rep own1 m1 \<sigma>" "map_capacity m1 = 2 * map_capacity m"
      "arena_size m1 = arena_size m"
      "unat (arena_used m1) = unat (arena_used m) + up8 (8 * map_capacity m) + up8 (24 * map_capacity m)"
      by (rule grow_rep [OF assms(1) pre])
    have lt: "length \<sigma> < map_capacity m1" using gr(3) cap cap_bound(2) [OF assms(1)] by simp
    have pre1: "unat (arena_used m1) + up8 (length key + 1) \<le> unat (arena_size m1)"
      using assms(3) gr(4,5) cap by (simp add: add_key_cost_def)
    obtain own' m' where ap: "hashmap_append key m1 = (values_off m1 + 12 * length \<sigma>, m')"
      "rep own' m' (\<sigma> @ [(key, [])])" "values_off m' = values_off m1" "arena_size m' = arena_size m1"
      "unat (arena_used m') = unat (arena_used m1) + up8 (length key + 1)"
      by (rule append_rep [OF gr(2) lt assms(2) False pre1])
    show ?thesis
      by (rule that [of m' own'])
        (use ap gr get t cap False ix in \<open>simp_all add: hashmap_add_key_def store_add_key_def key_index_def add_key_cost_def\<close>)
  qed
qed

subsection \<open>Removing a key\<close>

definition store_remove :: "string \<Rightarrow> store \<Rightarrow> store" where
  "store_remove key \<sigma> = filter (\<lambda>e. fst e \<noteq> key) \<sigma>"

fun shift_tag :: "nat \<Rightarrow> tag \<Rightarrow> tag" where
  "shift_tag i (Pats l) = (if l < i then Pats l else if l = i then Dead else Pats (l - 1))"
| "shift_tag i (Trs l j) = (if l < i then Trs l j else if l = i then Dead else Trs (l - 1) j)"
| "shift_tag i t = t"

lemma shift_tag_other: "shift_tag i t = Hdr \<longleftrightarrow> t = Hdr" "shift_tag i t = Free \<longleftrightarrow> t = Free"
  "shift_tag i t = Keys \<longleftrightarrow> t = Keys" "shift_tag i t = Vals \<longleftrightarrow> t = Vals" "shift_tag i t = Str \<longleftrightarrow> t = Str"
  by (cases t; simp)+

text \<open>The rows of the table after the later ones moved down by one.\<close>

definition moved_down :: "nat \<Rightarrow> nat \<Rightarrow> mem \<Rightarrow> mem" where
  "moved_down i n m =
     (if i < n - 1
      then memcpy (values_off m + 12 * i) (values_off m + 12 * (i + 1)) ((n - i - 1) * 12)
             (memcpy (keys_off m + 4 * i) (keys_off m + 4 * (i + 1)) ((n - i - 1) * 4) m)
      else m)"

lemma moved_down_rows:
  assumes "rep own m \<sigma>" "i < length \<sigma>" and l: "l < length \<sigma> - 1"
  defines "m1 \<equiv> moved_down i (length \<sigma>) m" and "l' \<equiv> (if l < i then l else l + 1)"
  shows "rd32 m1 (keys_off m + 4 * l) = rd32 m (keys_off m + 4 * l')"
    "same_desc m (values_off m + 12 * l') m1 (values_off m + 12 * l)"
proof -
  let ?n = "length \<sigma>"
  have tg: "tagged own Keys (keys_off m) (4 * map_capacity m)" "tagged own Vals (values_off m) (12 * map_capacity m)"
    "?n \<le> map_capacity m" "0 < map_capacity m"
    using assms(1) by (simp_all add: rep_def table_ok_def)
  have d: "keys_off m + 4 * ?n \<le> values_off m \<or> values_off m + 12 * ?n \<le> keys_off m"
    using tagged_disjoint [OF tg(1,2)] tg(3,4) by auto
  define mk where "mk = memcpy (keys_off m + 4 * i) (keys_off m + 4 * (i + 1)) ((?n - i - 1) * 4) m"
  have m1: "m1 = (if i < ?n - 1 then memcpy (values_off m + 12 * i) (values_off m + 12 * (i + 1)) ((?n - i - 1) * 12) mk else m)"
    by (simp add: m1_def moved_down_def mk_def)
  have k: "rd32 mk (keys_off m + 4 * l) = rd32 m (keys_off m + 4 * l')" if "i < ?n - 1"
  proof (cases "l < i")
    case False
    then show ?thesis
      using rd32_memcpy_inside [of "4 * (l - i)" "(?n - i - 1) * 4" "keys_off m + 4 * i"] l
      by (simp add: mk_def l'_def algebra_simps diff_mult_distrib2)
  qed (simp add: mk_def l'_def rd32_memcpy_other)
  show "rd32 m1 (keys_off m + 4 * l) = rd32 m (keys_off m + 4 * l')"
  proof (cases "i < ?n - 1")
    case True
    have "rd32 m1 (keys_off m + 4 * l) = rd32 mk (keys_off m + 4 * l)"
      unfolding m1 using True by (simp only: if_True, intro rd32_memcpy_other) (use d l True in arith)
    with k True show ?thesis by simp
  qed (use l in \<open>simp add: m1 l'_def\<close>)
  have v: "rd32 m1 (values_off m + 12 * l + b) = rd32 m (values_off m + 12 * l' + b)" if b: "b \<le> 8" for b
  proof (cases "i < ?n - 1")
    case True
    have mk: "rd32 mk (values_off m + 12 * l' + b) = rd32 m (values_off m + 12 * l' + b)"
      unfolding mk_def by (rule rd32_memcpy_other) (use d l b True in \<open>auto simp: l'_def\<close>)
    show ?thesis
    proof (cases "l < i")
      case False
      have "rd32 m1 (values_off m + 12 * l + b) = rd32 mk (values_off m + 12 * l' + b)"
        using rd32_memcpy_inside [of "12 * (l - i) + b" "(?n - i - 1) * 12" "values_off m + 12 * i" "values_off m + 12 * (i + 1)" mk]
          False True l b by (simp add: m1 l'_def algebra_simps diff_mult_distrib2)
      with mk show ?thesis by simp
    qed (use True b mk in \<open>simp add: m1 l'_def rd32_memcpy_other\<close>)
  qed (use l in \<open>simp add: m1 l'_def\<close>)
  show "same_desc m (values_off m + 12 * l') m1 (values_off m + 12 * l)"
    using v [of 0] v [of 4] v [of 8] by (simp add: same_desc_def)
qed

lemma moved_down_keeps:
  assumes "rep own m \<sigma>" "i < length \<sigma>"
  shows "keeps id (- {Keys, Vals}) own m own (moved_down i (length \<sigma>) m)"
proof -
  have tg: "tagged own Keys (keys_off m) (4 * map_capacity m)" "tagged own Vals (values_off m) (12 * map_capacity m)"
    "length \<sigma> \<le> map_capacity m"
    using assms(1) by (simp_all add: rep_def table_ok_def)
  have "keeps id (- {Keys, Vals}) own m own (memcpy (keys_off m + 4 * i) (keys_off m + 4 * (i + 1)) ((length \<sigma> - i - 1) * 4) m)"
    by (rule keeps_write [OF keeps_refl tg(1)]) (use assms(2) tg(3) in \<open>auto intro!: memcpy_other\<close>)
  note k = this
  show ?thesis
  proof (cases "i < length \<sigma> - 1")
    case True
    show ?thesis
      unfolding moved_down_def if_P [OF True]
      by (rule keeps_write [OF k tg(2)]) (use assms(2) tg(3) in \<open>auto intro!: memcpy_other\<close>)
  qed (simp add: moved_down_def keeps_refl)
qed

lemma store_remove_nth:
  assumes "distinct (map fst \<sigma>)" "i < length \<sigma>" "fst (\<sigma> ! i) = key"
  shows "store_remove key \<sigma> = take i \<sigma> @ drop (i + 1) \<sigma>"
proof -
  define xs ys where "xs = take i \<sigma>" and "ys = drop (i + 1) \<sigma>"
  have \<sigma>: "\<sigma> = xs @ \<sigma> ! i # ys"
    using id_take_nth_drop [OF assms(2)] by (simp add: xs_def ys_def)
  have "distinct (map fst (xs @ \<sigma> ! i # ys))"
    using assms(1) \<sigma> by argo
  then have nk: "key \<notin> fst ` set xs" "key \<notin> fst ` set ys" using assms(3) by auto
  have "filter (\<lambda>e. fst e \<noteq> key) xs = xs" "filter (\<lambda>e. fst e \<noteq> key) ys = ys"
    by (intro filter_True ballI; use nk in \<open>metis imageI\<close>)+
  then have "store_remove key (xs @ \<sigma> ! i # ys) = xs @ ys"
    using assms(3) by (simp add: store_remove_def)
  with \<sigma> show ?thesis unfolding xs_def ys_def by argo
qed

lemma remove_rep:
  assumes "rep own m \<sigma>" "CHR 0x00 \<notin> set key"
  obtains own' where "rep own' (hashmap_remove key m) (store_remove key \<sigma>)"
    "arena_size (hashmap_remove key m) = arena_size m" "arena_used (hashmap_remove key m) = arena_used m"
proof (cases "index_of key \<sigma>")
  case None
  then have "store_remove key \<sigma> = \<sigma>"
    by (auto simp: index_of_None store_remove_def intro!: filter_True)
  moreover have "hashmap_remove key m = m"
    using None find_key_at [OF assms, of 0 "map_count m"] assms(1) by (simp add: hashmap_remove_def rep_def table_ok_def)
  ultimately show ?thesis using that assms(1) by metis
next
  case (Some i)
  let ?n = "length \<sigma>"
  obtain i' where "i' < ?n" "fst (\<sigma> ! i') = key"
    using index_of_Some [OF Some] by auto
  then have i: "i < ?n" "fst (\<sigma> ! i) = key"
    using index_of_eq [of \<sigma> i' key] Some assms(1) by (auto simp: rep_def)
  have cnt: "map_count m = ?n" "?n \<le> map_capacity m" using assms(1) by (simp_all add: rep_def table_ok_def)
  define m1 where "m1 = moved_down i ?n m"
  define m' where "m' = wr32 16 (rd32 m 16 - 1) m1"
  have eq: "hashmap_remove key m = m'"
    using find_key_at [OF assms, of 0 "map_count m"] Some cnt
    by (simp add: hashmap_remove_def m'_def m1_def moved_down_def Let_def)
  have h: "hdr_ok own m" using assms(1) by (simp add: rep_def)
  have k1: "keeps id (- {Keys, Vals}) own m own m1"
    unfolding m1_def by (rule moved_down_keeps [OF assms(1) i(1)])
  have hdr1: "rd32 m1 x = rd32 m x" if "x + 4 \<le> 24" for x
    by (rule keeps_rd32 [OF k1, of Hdr 0 24]) (use h that in \<open>auto simp: hdr_ok_def tagged_def\<close>)
  have hdr': "rd32 m' 0 = rd32 m 0" "rd32 m' 4 = rd32 m 4" "rd32 m' 8 = rd32 m 8" "rd32 m' 12 = rd32 m 12"
    "rd32 m' 20 = rd32 m 20"
    using hdr1 by (simp_all add: m'_def rd32_wr32_other)
  have c': "map_count m' = ?n - 1"
    unfolding m'_def rd32_wr32_same using cnt i by (simp add: unat_sub_if')
  define own' where "own' = (\<lambda>x. shift_tag i (own x))"
  have h': "hdr_ok own' m'"
    using h hdr' by (simp add: hdr_ok_def own'_def shift_tag_other)
  have kp: "keeps (shift_tag i) data_tags own m own' m'"
  proof -
    have "keeps id data_tags own m own m1" using k1 by (rule keeps_sub) auto
    then have "keeps id data_tags own m own m'"
      unfolding m'_def by (rule keeps_wr32_step [where t = Hdr]) (use h in \<open>auto simp: hdr_ok_def tagged_def\<close>)
    then show ?thesis by (simp add: keeps_def own'_def)
  qed
  have tbl: "table_ok own' m' (?n - 1)"
    using assms(1) c' hdr' by (auto simp: rep_def table_ok_def own'_def tagged_def)
  have row: "rd32 m' b = rd32 m1 b" if "24 \<le> b" for b
    unfolding m'_def by (rule rd32_wr32_other) (use that in simp)
  have "entry_at own' m' l (store_remove key \<sigma> ! l)" if l: "l < ?n - 1" for l
  proof -
    define l' where "l' = (if l < i then l else l + 1)"
    have l': "l' < ?n" "l' \<noteq> i" using l i by (auto simp: l'_def)
    have nth: "store_remove key \<sigma> ! l = \<sigma> ! l'"
      using store_remove_nth [of \<sigma> i key] assms(1) i l by (auto simp: rep_def l'_def nth_append)
    note rows = table_rows [OF assms(1) rep_cap [OF assms(1)], of l]
    have r24: "24 \<le> keys_off m + 4 * l" "24 \<le> values_off m + 12 * l"
      using range_of_tag [OF h rows(1)] range_of_tag [OF h rows(2)] l by auto
    note mv = moved_down_rows [OF assms(1) i(1) l, folded m1_def l'_def]
    show ?thesis
      unfolding nth
    proof (rule keeps_entry [OF _ kp data_tags_list])
      show "entry_at own m l' (\<sigma> ! l')" using assms(1) l' by (simp add: rep_def)
      show "shift_tag i (Pats l') = Pats l" "shift_tag i (Trs l' j) = Trs l j" for j
        using l' by (auto simp: l'_def)
      show "rd32 m' (keys_off m' + 4 * l) = rd32 m (keys_off m + 4 * l')"
        unfolding hdr' row [OF r24(1)] by (rule mv(1))
      show "same_desc m (values_off m + 12 * l') m' (values_off m' + 12 * l)"
        using mv(2) r24(2) by (simp add: same_desc_def hdr' row)
    qed simp
  qed
  moreover have "length (store_remove key \<sigma>) = ?n - 1"
    using store_remove_nth [of \<sigma> i key] assms(1) i by (simp add: rep_def)
  moreover have "distinct (map fst (store_remove key \<sigma>))"
    using assms(1) by (simp add: rep_def store_remove_def distinct_map_filter)
  ultimately have "rep own' m' (store_remove key \<sigma>)"
    using h' tbl by (simp add: rep_def)
  with that [of own'] eq hdr' show ?thesis by simp
qed

subsection \<open>Steps that write a few bytes\<close>

definition writes :: "nat set \<Rightarrow> owners \<Rightarrow> mem \<Rightarrow> owners \<Rightarrow> mem \<Rightarrow> bool" where
  "writes W own m own' m' \<longleftrightarrow> (\<forall>x. own x \<notin> {Hdr, Free} \<longrightarrow> own' x = own x \<and> (x \<notin> W \<longrightarrow> m' x = m x))"

lemma writes_trans:
  "writes W own m own' m' \<Longrightarrow> writes V own' m' own'' m'' \<Longrightarrow> writes (W \<union> V) own m own'' m''"
  by (auto simp: writes_def)

lemma takes_writes: "takes c own m own' m' \<Longrightarrow> writes {} own m own' m'"
  by (simp add: takes_def keeps_def writes_def)

lemma wr32_writes: "writes {a..<a + 4} own m own (wr32 a v m)"
  by (auto simp: writes_def intro!: wr32_other)

lemma writes_tagged: "writes W own m own' m' \<Longrightarrow> tagged own t a n \<Longrightarrow> t \<notin> {Hdr, Free} \<Longrightarrow> tagged own' t a n"
  by (auto simp: writes_def tagged_def)

lemma writes_keeps:
  "writes W own m own' m' \<Longrightarrow> (\<And>x. x \<in> W \<Longrightarrow> own x \<notin> T) \<Longrightarrow> Hdr \<notin> T \<Longrightarrow> Free \<notin> T \<Longrightarrow> keeps id T own m own' m'"
  by (auto simp: writes_def keeps_def; metis)

lemma writes_rd32:
  "writes W own m own' m' \<Longrightarrow> tagged own t b 4 \<Longrightarrow> t \<notin> {Hdr, Free} \<Longrightarrow> {b..<b + 4} \<inter> W = {} \<Longrightarrow> rd32 m' b = rd32 m b"
  by (rule rd32_eqI) (auto simp: writes_def tagged_def disjoint_iff)

lemma tagged_outside: "tagged own t a n \<Longrightarrow> own x \<noteq> t \<Longrightarrow> x \<notin> {a..<a + n}"
  by (auto simp: tagged_def)

text \<open>The header fields that the patch operations leave alone.\<close>

definition same_table :: "mem \<Rightarrow> mem \<Rightarrow> bool" where
  "same_table m m' \<longleftrightarrow> arena_size m' = arena_size m \<and> rd32 m' 8 = rd32 m 8 \<and> rd32 m' 12 = rd32 m 12 \<and>
     rd32 m' 16 = rd32 m 16 \<and> rd32 m' 20 = rd32 m 20"

lemma same_table_trans: "same_table m m' \<Longrightarrow> same_table m' m'' \<Longrightarrow> same_table m m''"
  by (simp add: same_table_def)

lemma takes_table: "takes c own m own' m' \<Longrightarrow> same_table m m'"
  by (simp add: takes_def same_table_def)

lemma wr32_table: "24 \<le> a \<Longrightarrow> same_table m (wr32 a v m)"
  by (simp add: same_table_def rd32_wr32_other)

lemma wr32_used: "24 \<le> a \<Longrightarrow> arena_used (wr32 a v m) = arena_used m"
  by (simp add: rd32_wr32_other)

text \<open>Growing an array whose descriptor lies in a region of owner \<open>d\<close> and whose elements have the
  owner \<open>t\<close>.\<close>

definition grow_cost :: "nat \<Rightarrow> nat \<Rightarrow> nat" where
  "grow_cost elem n = up8 (elem * (if n = 0 then 4 else 2 * n))"

definition grown :: "nat \<Rightarrow> nat \<Rightarrow> tag \<Rightarrow> nat \<Rightarrow> owners \<Rightarrow> mem \<Rightarrow> owners \<Rightarrow> mem \<Rightarrow> bool" where
  "grown elem p t n own m own' m' \<longleftrightarrow> hdr_ok own' m' \<and> writes {p..<p + 12} own m own' m' \<and> same_table m m' \<and>
     unat (arena_used m') \<le> unat (arena_used m) + grow_cost elem n \<and>
     rd32 m' (p + 4) = rd32 m (p + 4) \<and> n < rdn m' (p + 8) \<and> rdn m' p \<noteq> 0 \<and>
     tagged own' t (rdn m' p) (elem * rdn m' (p + 8)) \<and>
     (\<forall>b. b + 4 \<le> elem * n \<longrightarrow> rd32 m' (rdn m' p + b) = rd32 m (rdn m p + b))"

lemma array_grow_none:
  assumes "hdr_ok own m" "rdn m (p + 4) = n" "n < rdn m (p + 8)" "rdn m (p + 8) = 0 \<longleftrightarrow> rdn m p = 0"
    "tagged own t (rdn m p) (elem * rdn m (p + 8))"
  shows "array_grow elem p m = (True, m) \<and> grown elem p t n own m own m"
  using assms by (simp add: array_grow_def grown_def writes_def same_table_def word_le_nat_alt)

lemma array_grow_full:
  assumes "hdr_ok own m" "rdn m (p + 4) = n" "rdn m (p + 8) = n" "n = 0 \<longleftrightarrow> rdn m p = 0"
    "tagged own t (rdn m p) (elem * n)" "tagged own d p 12" "d \<notin> {Hdr, Free}" "d \<noteq> t" "t \<notin> {Hdr, Free}" "0 < elem" "elem \<le> 100"
    "unat (arena_used m) + grow_cost elem n \<le> unat (arena_size m)"
  obtains own' m' where "array_grow elem p m = (True, m')" "grown elem p t n own m own' m'"
proof -
  define nc where "nc = (if n = 0 then 4 else 2 * n)"
  define ncw where "ncw = (if rd32 m (p + 8) \<noteq> 0 then rd32 m (p + 8) * 2 else 4)"
  have sizes: "up8 (elem * nc) \<le> 2 ^ 30" using assms(1,12) by (simp add: grow_cost_def nc_def hdr_ok_def)
  then have enc: "elem * nc \<le> 2 ^ 30" using up8_bounds(1) [of "elem * nc"] by simp
  moreover have "1 * nc \<le> elem * nc" by (rule mult_le_mono1) (use assms(10) in simp)
  ultimately have ncb: "nc \<le> 2 ^ 30" by linarith
  have w0: "rd32 m (p + 8) \<noteq> 0 \<longleftrightarrow> n \<noteq> 0" using assms(3) unat_gt_0 [of "rd32 m (p + 8)"] by auto
  have nc: "unat ncw = nc"
    using ncb assms(3) w0 unat_mult_small [of "rd32 m (p + 8)" 2] by (auto simp: ncw_def nc_def)
  have sz: "unat (ncw * of_nat elem) = elem * nc"
    using unat_mult_small [of ncw elem] nc enc by (simp add: mult.commute)
  have sp: "unat (arena_used m) + up8 (elem * nc) \<le> unat (arena_size m)" using assms(12) by (simp add: grow_cost_def nc_def)
  obtain own' m1 where al: "salloc (ncw * of_nat elem) m = (arena_used m, m1)" "takes (up8 (elem * nc)) own m own' m1"
    "tagged own' t (unat (arena_used m)) (up8 (elem * nc))"
    by (rule salloc_sized [OF assms(1) sz sp, of t]) (use assms(9) in simp_all)
  define b where "b = unat (arena_used m)"
  have h1: "hdr_ok own' m1" using al(2) by (simp add: takes_def)
  have tb: "tagged own' t b (elem * nc)" using tagged_sub [OF al(3)] up8_bounds(1) by (simp add: b_def)
  have tp: "tagged own' d p 12" using writes_tagged [OF takes_writes [OF al(2)] assms(6,7)] .
  have desc: "rd32 m1 p = rd32 m p" "rd32 m1 (p + 4) = rd32 m (p + 4)" "rd32 m1 (p + 8) = rd32 m (p + 8)"
    using tagged_sub [OF assms(6)] assms(7) by (auto intro!: writes_rd32 [OF takes_writes [OF al(2)], of d])
  define m2 where "m2 = (if rd32 m1 p \<noteq> 0 then memcpy b (rdn m1 p) (rdn m1 (p + 8) * elem) m1 else m1)"
  define m' where "m' = wr32 (p + 8) ncw (wr32 p (arena_used m) m2)"
  have eq: "array_grow elem p m = (True, m')"
  proof -
    have "arena_used m \<noteq> 0" using assms(1) by (auto simp: hdr_ok_def)
    then show ?thesis
      using al(1) assms(2,3) by (simp add: array_grow_def Let_def ncw_def m'_def m2_def b_def word_le_nat_alt)
  qed
  have small: "elem * n \<le> elem * nc" by (simp add: nc_def)
  have m2o: "m2 x = m1 x" if "x < b \<or> b + elem * nc \<le> x" for x
  proof -
    have "x < b \<or> b + rdn m1 (p + 8) * elem \<le> x"
      using that desc(3) assms(3) small by (metis add_left_mono mult.commute order_trans)
    then show ?thesis by (simp add: m2_def memcpy_other)
  qed
  have rb: "24 \<le> b" using assms(1) by (simp add: b_def hdr_ok_def)
  have rp: "24 \<le> p" using range_of_tag [OF h1 tp] assms(7) by simp
  have pb: "p + 12 \<le> b" using range_of_tag [OF assms(1,6,7)] by (simp add: b_def)
  have rd2: "rd32 m2 x = rd32 m1 x" if "x + 4 \<le> b" for x
    by (rule rd32_eqI) (use that in \<open>auto intro!: m2o\<close>)
  have rd': "rd32 m' x = rd32 m2 x" if "x + 4 \<le> p \<or> p + 12 \<le> x \<or> x = p + 4" for x
    using that by (auto simp: m'_def rd32_wr32_other)
  have off': "rdn m' p = b" "rdn m' (p + 8) = nc"
    by (simp_all add: m'_def rd32_wr32_other b_def nc)
  have "same_table m1 m2" using rd2 rb by (simp add: same_table_def)
  then have tab: "same_table m m'"
    using takes_table [OF al(2)] wr32_table [OF rp] wr32_table [of "p + 8"] rp
    unfolding m'_def by (meson same_table_trans trans_le_add1)
  have used': "arena_used m' = arena_used m1" using rd' [of 4] rd2 [of 4] rp rb by simp
  have "hdr_ok own' m'"
    by (rule hdr_ok_cong [OF h1]) (use rd' [of 0] rd2 [of 0] rp rb used' in simp_all)
  moreover have "writes {p..<p + 12} own m own' m'"
  proof -
    have "writes {} own m own' m2"
      using takes_writes [OF al(2)] m2o hdr_ok_used [OF assms(1)] unfolding writes_def b_def
      by (metis (no_types, lifting) insertCI)
    from writes_trans [OF writes_trans [OF this wr32_writes [where a = p]] wr32_writes [where a = "p + 8"]]
    have "writes ({} \<union> {p..<p + 4} \<union> {p + 8..<p + 8 + 4}) own m own' m'" unfolding m'_def .
    then show ?thesis by (auto simp: writes_def)
  qed
  moreover have "rd32 m' (b + x) = rd32 m (rdn m p + x)" if "x + 4 \<le> elem * n" for x
  proof -
    have n0: "n \<noteq> 0" using that by (cases n) auto
    then have "rd32 m1 p \<noteq> 0" using assms(4) desc(1) by (metis unat_0)
    then have "rd32 m2 (b + x) = rd32 m1 (rdn m p + x)"
      using rd32_memcpy_inside [of x "rdn m1 (p + 8) * elem"] that desc assms(3) by (simp add: m2_def mult.commute)
    also have "\<dots> = rd32 m (rdn m p + x)"
      by (rule writes_rd32 [OF takes_writes [OF al(2)] tagged_sub [OF assms(5)] assms(9)]) (use that in auto)
    finally show ?thesis using rd' [of "b + x"] pb by simp
  qed
  moreover have "unat (arena_used m') \<le> unat (arena_used m) + grow_cost elem n"
    using al(2) used' by (simp add: takes_def grow_cost_def nc_def)
  moreover have "rd32 m' (p + 4) = rd32 m (p + 4)" using rd' [of "p + 4"] rd2 [of "p + 4"] desc pb by simp
  moreover have "n < nc" "b \<noteq> 0" using rb by (auto simp: nc_def)
  ultimately show ?thesis
    using that [OF eq, of own'] tab tb off' unfolding grown_def by simp
qed

lemma array_grow_step:
  assumes "hdr_ok own m" "arr_at own m elem p t P xs" "tagged own d p 12" "d \<notin> {Hdr, Free}" "d \<noteq> t" "t \<notin> {Hdr, Free}"
    "0 < elem" "elem \<le> 100" "unat (arena_used m) + grow_cost elem (length xs) \<le> unat (arena_size m)"
  obtains own' m' where "array_grow elem p m = (True, m')" "grown elem p t (length xs) own m own' m'"
proof -
  note a = assms(2) [unfolded arr_at_def]
  show ?thesis
  proof (cases "length xs < rdn m (p + 8)")
    case True
    then show ?thesis using that array_grow_none [OF assms(1) _ True, of t elem] a by blast
  next
    case False
    then have n: "rdn m (p + 8) = length xs" using a by simp
    obtain own' m' where "array_grow elem p m = (True, m')" "grown elem p t (length xs) own m own' m'"
    proof (rule array_grow_full [OF assms(1) _ n _ _ assms(3-9)])
      show "rdn m (p + 4) = length xs" "length xs = 0 \<longleftrightarrow> rdn m p = 0" "tagged own t (rdn m p) (elem * length xs)"
        using a n by simp_all
    qed
    then show ?thesis using that by blast
  qed
qed

text \<open>Appending an element whose first two words point to new strings.\<close>

lemma append_two:
  assumes "hdr_ok own m" "tagged own d p 12" "d \<notin> {Hdr, Free}" "tagged own t q 8" "t \<notin> {Hdr, Free}" "d \<noteq> t" "t \<noteq> Str"
    and "CHR 0x00 \<notin> set s1" "CHR 0x00 \<notin> set s2" "rdn m (p + 4) + 1 < 2 ^ 32"
    and "unat (arena_used m) + up8 (length s1 + 1) + up8 (length s2 + 1) \<le> unat (arena_size m)"
  obtains own' o1 m3 o2 m5 m6 where "shm_strdup s1 (wr32 (p + 4) (rd32 m (p + 4) + 1) m) = (o1, m3)"
    "shm_strdup s2 (wr32 q o1 m3) = (o2, m5)" "m6 = wr32 (q + 4) o2 m5"
    "hdr_ok own' m6" "writes ({p + 4..<p + 8} \<union> {q..<q + 8}) own m own' m6" "same_table m m6"
    "unat (arena_used m6) = unat (arena_used m) + up8 (length s1 + 1) + up8 (length s2 + 1)"
    "rdn m6 (p + 4) = rdn m (p + 4) + 1" "rd32 m6 p = rd32 m p" "rd32 m6 (p + 8) = rd32 m (p + 8)"
    "str_at own' m6 (rdn m6 q) s1" "str_at own' m6 (rdn m6 (q + 4)) s2"
proof -
  define m2 where "m2 = wr32 (p + 4) (rd32 m (p + 4) + 1) m"
  have rp: "24 \<le> p" and rq: "24 \<le> q"
    using range_of_tag [OF assms(1-3)] range_of_tag [OF assms(1,4,5)] by simp_all
  have dpq: "p + 12 \<le> q \<or> q + 8 \<le> p" using tagged_disjoint [OF assms(2,4,6)] by simp
  have h2: "hdr_ok own m2" unfolding m2_def by (rule hdr_ok_wr32 [OF assms(1)]) (use rp in simp)
  have u2: "arena_used m2 = arena_used m" "arena_size m2 = arena_size m"
    using rp by (simp_all add: m2_def rd32_wr32_other)
  obtain own3 m3 where s1: "shm_strdup s1 m2 = (arena_used m2, m3)" "takes (up8 (length s1 + 1)) own m2 own3 m3"
    "str_at own3 m3 (unat (arena_used m2)) s1"
    by (rule strdup_step [OF h2 _ assms(8)]) (use assms(11) u2 in simp_all)
  define m4 where "m4 = wr32 q (arena_used m2) m3"
  have h4: "hdr_ok own3 m4"
    unfolding m4_def by (rule hdr_ok_wr32) (use s1(2) rq in \<open>simp_all add: takes_def\<close>)
  have u4: "unat (arena_used m4) = unat (arena_used m) + up8 (length s1 + 1)" "arena_size m4 = arena_size m"
    using s1(2) u2 rq by (simp_all add: m4_def rd32_wr32_other takes_def)
  obtain own' m5 where s2: "shm_strdup s2 m4 = (arena_used m4, m5)" "takes (up8 (length s2 + 1)) own3 m4 own' m5"
    "str_at own' m5 (unat (arena_used m4)) s2"
    by (rule strdup_step [OF h4 _ assms(9)]) (use assms(11) u4 in simp_all)
  define m6 where "m6 = wr32 (q + 4) (arena_used m4) m5"
  have h6: "hdr_ok own' m6"
    unfolding m6_def by (rule hdr_ok_wr32) (use s2(2) rq in \<open>simp_all add: takes_def\<close>)
  have w3: "writes ({p + 4..<p + 4 + 4} \<union> {}) own m own3 m3"
    unfolding m2_def by (rule writes_trans [OF wr32_writes takes_writes [OF s1(2) [unfolded m2_def]]])
  have w4: "writes ({q..<q + 4} \<union> {}) own3 m3 own' m5"
    unfolding m4_def by (rule writes_trans [OF wr32_writes takes_writes [OF s2(2) [unfolded m4_def]]])
  have w6: "writes {q + 4..<q + 4 + 4} own' m5 own' m6" unfolding m6_def by (rule wr32_writes)
  have tq3: "tagged own3 t q 8" and tp3: "tagged own3 d p 12"
    using writes_tagged [OF w3] assms(2-5) by auto
  have tq5: "tagged own' t q 8" using writes_tagged [OF w4 tq3 assms(5)] .
  have w: "writes ({p + 4..<p + 8} \<union> {q..<q + 8}) own m own' m6"
    using writes_trans [OF writes_trans [OF w3 w4] w6] by (auto simp: writes_def)
  have w36: "writes ({q..<q + 4} \<union> {} \<union> {q + 4..<q + 4 + 4}) own3 m3 own' m6" by (rule writes_trans [OF w4 w6])
  have "keeps id {Str} own3 m3 own' m6" "keeps id {Str} own' m5 own' m6"
    using taggedD [OF tq3] taggedD [OF tq5] assms(7)
    by (auto intro!: writes_keeps [OF w36] writes_keeps [OF w6])
  then have strs: "str_at own' m6 (unat (arena_used m2)) s1" "str_at own' m6 (unat (arena_used m4)) s2"
    using keeps_str s1(3) s2(3) by (metis id_apply singletonI)+
  have q1: "rd32 m6 q = arena_used m2"
  proof -
    have "rd32 m5 q = rd32 m4 q"
      by (rule writes_rd32 [OF takes_writes [OF s2(2)] tagged_sub [OF tq3] assms(5)]) auto
    then show ?thesis by (simp add: m6_def m4_def rd32_wr32_other)
  qed
  have q2: "rd32 m6 (q + 4) = arena_used m4" by (simp add: m6_def)
  have p4: "rd32 m6 (p + 4) = rd32 m (p + 4) + 1"
  proof -
    have "rd32 m3 (p + 4) = rd32 m2 (p + 4)"
      by (rule writes_rd32 [OF takes_writes [OF s1(2)] tagged_sub [OF assms(2)] assms(3)]) auto
    moreover have "rd32 m6 (p + 4) = rd32 m3 (p + 4)"
      by (rule writes_rd32 [OF w36 tagged_sub [OF tp3] assms(3)]) (use dpq in auto)
    ultimately show ?thesis by (simp add: m2_def)
  qed
  then have p4': "rdn m6 (p + 4) = rdn m (p + 4) + 1"
    using assms(10) by (simp add: unat_word_ariths)
  have p08: "rd32 m6 p = rd32 m p" "rd32 m6 (p + 8) = rd32 m (p + 8)"
    by (rule writes_rd32 [OF w tagged_sub [OF assms(2)] assms(3)]; use dpq in auto)+
  have tab: "same_table m m6"
    using wr32_table [of "p + 4" m] takes_table [OF s1(2)] wr32_table [OF rq, of m3] takes_table [OF s2(2)]
      wr32_table [of "q + 4" m5] rp rq
    unfolding m6_def m4_def m2_def by (simp add: same_table_def)
  have "arena_used m6 = arena_used m5" using rq by (simp add: m6_def rd32_wr32_other)
  then have u6: "unat (arena_used m6) = unat (arena_used m) + up8 (length s1 + 1) + up8 (length s2 + 1)"
    using s2(2) u4 by (simp add: takes_def)
  have e: "shm_strdup s1 (wr32 (p + 4) (rd32 m (p + 4) + 1) m) = (arena_used m2, m3)"
    "shm_strdup s2 (wr32 q (arena_used m2) m3) = (arena_used m4, m5)"
    using s1(1) s2(1) by (simp_all only: m2_def [symmetric] m4_def [symmetric])
  show ?thesis
    by (rule that [OF e m6_def h6 w tab u6 p4' p08]) (simp_all only: q1 q2 strs)
qed

subsection \<open>Adding patches and transforms\<close>

text \<open>A step that writes only into the row, the patches and the transforms of one entry.\<close>

lemma rep_replace:
  assumes "rep own m \<sigma>" "i < length \<sigma>" "hdr_ok own' m'" "same_table m m'" "writes W own m own' m'"
    and "\<And>x. x \<in> W \<Longrightarrow> own x \<in> {Vals, Pats i} \<union> range (Trs i)"
    and "\<And>x. x \<in> W \<Longrightarrow> own x = Vals \<Longrightarrow> values_off m + 12 * i \<le> x \<and> x < values_off m + 12 * i + 12"
    and "list_at own' m' i (values_off m + 12 * i) ps"
  shows "rep own' m' (\<sigma>[i := (fst (\<sigma> ! i), ps)])"
proof -
  have tab: "keys_off m' = keys_off m" "values_off m' = values_off m" "map_count m' = map_count m" "map_capacity m' = map_capacity m"
    using assms(4) by (simp_all add: same_table_def)
  have key: "rd32 m' (keys_off m + 4 * l) = rd32 m (keys_off m + 4 * l)" if "l < length \<sigma>" for l
  proof (rule writes_rd32 [OF assms(5)])
    note r = table_rows(1) [OF assms(1) rep_cap [OF assms(1) that]]
    show "tagged own Keys (keys_off m + 4 * l) 4" by (rule r)
    show "{keys_off m + 4 * l..<keys_off m + 4 * l + 4} \<inter> W = {}"
      using assms(6) taggedD [OF r] by fastforce
  qed simp
  have strs: "keeps id {Str} own m own' m'"
    by (rule writes_keeps [OF assms(5)]) (auto dest: assms(6))
  have e: "entry_at own m l (\<sigma> ! l)" if "l < length \<sigma>" for l using assms(1) that by (simp add: rep_def)
  have "entry_at own' m' l (\<sigma>[i := (fst (\<sigma> ! i), ps)] ! l)" if l: "l < length \<sigma>" for l
  proof (cases "l = i")
    case True
    with e [OF l] key [OF l] assms(2,8) tab keeps_str [OF strs] show ?thesis
      by (simp add: entry_at_def)
  next
    case False
    have kp: "keeps id ({Str, Pats l} \<union> range (Trs l)) own m own' m'"
      by (rule writes_keeps [OF assms(5)]) (use False in \<open>auto dest: assms(6)\<close>)
    note r = table_rows(2) [OF assms(1) rep_cap [OF assms(1) l]]
    have row: "rd32 m' b = rd32 m b" if "values_off m + 12 * l \<le> b" "b + 4 \<le> values_off m + 12 * l + 12" for b
    proof (rule writes_rd32 [OF assms(5) tagged_sub [OF r]])
      have "x \<notin> W" if "b \<le> x" "x < b + 4" for x
      proof
        assume "x \<in> W"
        moreover have "own x = Vals" using taggedD [OF r, of x] that \<open>values_off m + 12 * l \<le> b\<close> \<open>b + 4 \<le> _\<close> by simp
        ultimately show False
          using assms(7) [of x] that \<open>values_off m + 12 * l \<le> b\<close> \<open>b + 4 \<le> _\<close> False by auto
      qed
      then show "{b..<b + 4} \<inter> W = {}" by auto
    qed (use that in auto)
    have "entry_at own' m' l (\<sigma> ! l)"
      by (rule keeps_entry [OF e [OF l] kp]) (use key [OF l] row in \<open>auto simp: tab same_desc_def\<close>)
    with False show ?thesis by simp
  qed
  moreover have "table_ok own' m' (length \<sigma>)"
    using assms(1) writes_tagged [OF assms(5)] tab by (simp add: rep_def table_ok_def)
  moreover have "map fst (\<sigma>[i := (fst (\<sigma> ! i), ps)]) = map fst \<sigma>"
    using assms(2) by (simp add: map_update list_update_same_conv)
  ultimately show ?thesis
    using assms(1,3) by (simp add: rep_def)
qed

lemma list_grown:
  assumes "list_at own m i p ps" "grown 20 p (Pats i) (length ps) own m own' m'" "tagged own Vals p 12"
  shows "list_at own' m' i p ps"
proof -
  note g = assms(2) [unfolded grown_def]
  have w: "writes {p..<p + 12} own m own' m'" using g by blast
  have "patch_at own' m' i j (rdn m' p + 20 * j) (ps ! j)" if j: "j < length ps" for j
  proof (rule keeps_patch_at [where f = id])
    show "keeps id {Str, Trs i j} own m own' m'"
      by (rule writes_keeps [OF w]) (use taggedD [OF assms(3)] in auto)
    show "patch_at own m i j (rdn m p + 20 * j) (ps ! j)" using assms(1) j by (simp add: list_at_def arr_at_def)
    show "rd32 m' (rdn m' p + 20 * j + b) = rd32 m (rdn m p + 20 * j + b)" if "b \<le> 16" for b
    proof -
      have "20 * j + b + 4 \<le> 20 * length ps" using that j by simp
      then show ?thesis using g by (metis add.assoc)
    qed
  qed auto
  with assms(1) g show ?thesis
    by (auto simp: list_at_def arr_at_def)
qed

lemma list_appended:
  assumes "list_at own m i p ps" "tagged own Vals p 12" "length ps < rdn m (p + 8)"
    and "writes ({p + 4..<p + 8} \<union> {q..<q + 20}) own m own' m'" "q = rdn m p + 20 * length ps"
    and "rdn m' (p + 4) = length ps + 1" "rd32 m' p = rd32 m p" "rd32 m' (p + 8) = rd32 m (p + 8)"
    and "patch_at own' m' i (length ps) q x"
  shows "list_at own' m' i p (ps @ [x])"
proof -
  note a = assms(1) [unfolded list_at_def arr_at_def]
  have tq: "tagged own (Pats i) (rdn m p) (20 * rdn m (p + 8))" using a by blast
  have W: "own y \<in> {Vals, Pats i}" if "y \<in> {p + 4..<p + 8} \<union> {q..<q + 20}" for y
    using taggedD [OF assms(2), of y] taggedD [OF tq, of y] that assms(3,5) by auto
  have old: "patch_at own' m' i j (rdn m p + 20 * j) (ps ! j)" if j: "j < length ps" for j
  proof (rule keeps_patch_at [where f = id])
    show "keeps id {Str, Trs i j} own m own' m'"
      by (rule writes_keeps [OF assms(4)]) (use W in force, simp_all)
    show "patch_at own m i j (rdn m p + 20 * j) (ps ! j)" using a j by blast
    show "rd32 m' (rdn m p + 20 * j + b) = rd32 m (rdn m p + 20 * j + b)" if "b \<le> 16" for b
    proof (rule writes_rd32 [OF assms(4) tagged_sub [OF tq]])
      have "y \<notin> {p + 4..<p + 8}" if "rdn m p + 20 * j + b \<le> y" "y < rdn m p + 20 * j + b + 4" for y
        using taggedD [OF assms(2), of y] taggedD [OF tq, of y] that \<open>b \<le> 16\<close> j assms(3) by auto
      then show "{rdn m p + 20 * j + b..<rdn m p + 20 * j + b + 4} \<inter> ({p + 4..<p + 8} \<union> {q..<q + 20}) = {}"
        using that j assms(5) by auto
    qed (use that j assms(3) in auto)
  qed auto
  have "patch_at own' m' i j (rdn m p + 20 * j) ((ps @ [x]) ! j)" if "j < length ps + 1" for j
    using that old [of j] assms(5,9) by (cases "j = length ps") (auto simp: nth_append)
  with a assms writes_tagged [OF assms(4) tq] show ?thesis
    by (simp add: list_at_def arr_at_def)
qed

definition add_patch_cost :: "patch list \<Rightarrow> string \<Rightarrow> string \<Rightarrow> nat" where
  "add_patch_cost ps file fnd = grow_cost 20 (length ps) + up8 (length file + 1) + up8 (length fnd + 1)"

lemma arr_count_bound: "rdn m (p + 4) < rdn m (p + 8) \<Longrightarrow> rdn m (p + 4) + 1 < 2 ^ 32"
  using unsigned_less [of "rd32 m (p + 8)", where ?'a = nat] by simp

lemma patchlist_grow_rep:
  assumes "rep own m \<sigma>" "i < length \<sigma>"
    and "unat (arena_used m) + grow_cost 20 (length (snd (\<sigma> ! i))) \<le> unat (arena_size m)"
  obtains own' m' where "array_grow 20 (values_off m + 12 * i) m = (True, m')" "rep own' m' \<sigma>" "same_table m m'"
    "grown 20 (values_off m + 12 * i) (Pats i) (length (snd (\<sigma> ! i))) own m own' m'"
proof -
  let ?p = "values_off m + 12 * i" and ?ps = "snd (\<sigma> ! i)"
  have h: "hdr_ok own m" using assms(1) by (simp add: rep_def)
  note tp = table_rows(2) [OF assms(1) rep_cap [OF assms(1,2)]]
  have la: "list_at own m i ?p ?ps" using assms(1,2) by (simp add: rep_def entry_at_def)
  obtain own' m' where g: "array_grow 20 ?p m = (True, m')" "grown 20 ?p (Pats i) (length ?ps) own m own' m'"
    by (rule array_grow_step [OF h la [unfolded list_at_def] tp]) (use assms(3) in simp_all)
  note gd = g(2) [unfolded grown_def]
  have "rep own' m' (\<sigma>[i := (fst (\<sigma> ! i), ?ps)])"
    by (rule rep_replace [OF assms(1,2), of own' m' "{?p..<?p + 12}"])
      (use gd taggedD [OF tp] list_grown [OF la g(2) tp] in auto)
  with that [OF g(1) _ _ g(2)] gd show ?thesis by simp
qed

lemma patchlist_add_rep:
  assumes "rep own m \<sigma>" "i < length \<sigma>" "CHR 0x00 \<notin> set file" "CHR 0x00 \<notin> set fnd"
    and "unat (arena_used m) + add_patch_cost (snd (\<sigma> ! i)) file fnd \<le> unat (arena_size m)"
  defines "p \<equiv> values_off m + 12 * i" and "ps \<equiv> snd (\<sigma> ! i)"
  obtains own' m' where "patchlist_add p file fnd m = (Some (rdn m' p + 20 * length ps), m')"
    "rep own' m' (\<sigma>[i := (fst (\<sigma> ! i), ps @ [(file, fnd, [])])])" "same_table m m'"
    "unat (arena_used m') \<le> unat (arena_used m) + add_patch_cost ps file fnd"
proof -
  obtain own1 m1 where g: "array_grow 20 p m = (True, m1)" "rep own1 m1 \<sigma>" "same_table m m1"
    "grown 20 p (Pats i) (length ps) own m own1 m1"
    unfolding p_def ps_def by (rule patchlist_grow_rep [OF assms(1,2)]) (use assms(5) in \<open>simp add: add_patch_cost_def\<close>)
  note gd = g(4) [unfolded grown_def]
  have voff: "values_off m1 = values_off m" using g(3) by (simp add: same_table_def)
  have h1: "hdr_ok own1 m1" using g(2) by (simp add: rep_def)
  have tp: "tagged own1 Vals p 12" using table_rows(2) [OF g(2) rep_cap [OF g(2) assms(2)]] voff by (simp add: p_def)
  have la: "list_at own1 m1 i p ps" using g(2) assms(2) voff by (simp add: rep_def entry_at_def p_def ps_def)
  note a = la [unfolded list_at_def arr_at_def]
  define q where "q = rdn m1 p + 20 * length ps"
  have ta: "tagged own1 (Pats i) (rdn m1 p) (20 * rdn m1 (p + 8))" "length ps < rdn m1 (p + 8)" using gd by blast+
  have tq: "tagged own1 (Pats i) q 20" by (rule tagged_sub [OF ta(1)]) (use ta(2) in \<open>simp_all add: q_def\<close>)
  have cb: "rdn m1 (p + 4) + 1 < 2 ^ 32" by (rule arr_count_bound) (use a gd in simp)
  have sp: "unat (arena_used m1) + up8 (length file + 1) + up8 (length fnd + 1) \<le> unat (arena_size m1)"
    using gd assms(5) by (simp add: add_patch_cost_def same_table_def ps_def)
  obtain own' o1 m3 o2 m5 m6 where ap: "shm_strdup file (wr32 (p + 4) (rd32 m1 (p + 4) + 1) m1) = (o1, m3)"
    "shm_strdup fnd (wr32 q o1 m3) = (o2, m5)" "m6 = wr32 (q + 4) o2 m5"
    "hdr_ok own' m6" "writes ({p + 4..<p + 8} \<union> {q..<q + 8}) own1 m1 own' m6" "same_table m1 m6"
    "unat (arena_used m6) = unat (arena_used m1) + up8 (length file + 1) + up8 (length fnd + 1)"
    "rdn m6 (p + 4) = rdn m1 (p + 4) + 1" "rd32 m6 p = rd32 m1 p" "rd32 m6 (p + 8) = rd32 m1 (p + 8)"
    "str_at own' m6 (rdn m6 q) file" "str_at own' m6 (rdn m6 (q + 4)) fnd"
    by (rule append_two [OF h1 tp _ tagged_sub [OF tq] _ _ _ assms(3,4) cb sp]) auto
  define m' where "m' = wr32 (q + 16) 0 (wr32 (q + 12) 0 (wr32 (q + 8) 0 m6))"
  have eq: "patchlist_add p file fnd m = (Some q, m')"
    using g(1) ap(1-3) conjunct1 [OF a] by (simp add: patchlist_add_def Let_def m'_def q_def)
  have rq: "24 \<le> q" and rp: "24 \<le> p"
    using range_of_tag [OF h1 tq] range_of_tag [OF h1 tp] by simp_all
  have dpq: "p + 12 \<le> q \<or> q + 20 \<le> p" using tagged_disjoint [OF tp tq] by simp
  have w: "writes ({p + 4..<p + 8} \<union> {q..<q + 20}) own1 m1 own' m'"
  proof -
    have "writes ({q + 8..<q + 8 + 4} \<union> {q + 12..<q + 12 + 4} \<union> {q + 16..<q + 16 + 4}) own' m6 own' m'"
      unfolding m'_def by (rule writes_trans [OF writes_trans [OF wr32_writes wr32_writes] wr32_writes])
    from writes_trans [OF ap(5) this] show ?thesis by (auto simp: writes_def)
  qed
  have rd: "rd32 m' x = rd32 m6 x" if "x + 4 \<le> q + 8 \<or> q + 20 \<le> x" for x
    using that unfolding m'_def by (elim disjE) (simp_all add: rd32_wr32_other)
  have h': "hdr_ok own' m'" by (rule hdr_ok_cong [OF ap(4)]) (use rd rq in simp_all)
  have tab: "same_table m1 m'" using ap(6) rd rq by (simp add: same_table_def)
  have "keeps id {Str} own' m6 own' m'"
  proof (rule keeps_sub)
    have "tagged own' (Pats i) q 20" using writes_tagged [OF ap(5) tq] by simp
    then show "keeps id (- {Pats i}) own' m6 own' m'"
      unfolding m'_def by (intro keeps_wr32_step [where t = "Pats i"] keeps_refl) (auto elim!: tagged_sub)
  qed auto
  then have strs: "str_at own' m' (rdn m' q) file" "str_at own' m' (rdn m' (q + 4)) fnd"
    using keeps_str ap(11,12) rd [of q] rd [of "q + 4"] by simp_all
  have zero: "rd32 m' (q + 8) = 0" "rd32 m' (q + 12) = 0" "rd32 m' (q + 16) = 0"
    by (simp_all add: m'_def rd32_wr32_other)
  have "patch_at own' m' i (length ps) q (file, fnd, [])"
    using strs zero by (simp add: patch_at_def arr_at_def tagged_def add.assoc)
  moreover have "rdn m' (p + 4) = length ps + 1" "rd32 m' p = rd32 m1 p" "rd32 m' (p + 8) = rd32 m1 (p + 8)"
    using ap(8-10) a rd [of p] rd [of "p + 4"] rd [of "p + 8"] dpq by auto
  ultimately have la': "list_at own' m' i p (ps @ [(file, fnd, [])])"
    by (intro list_appended [OF la tp ta(2) w q_def])
  have "rep own' m' (\<sigma>[i := (fst (\<sigma> ! i), ps @ [(file, fnd, [])])])"
  proof (rule rep_replace [OF g(2) assms(2) h' tab w])
    show "own1 x \<in> {Vals, Pats i} \<union> range (Trs i)" if "x \<in> {p + 4..<p + 8} \<union> {q..<q + 20}" for x
      using taggedD [OF tp, of x] taggedD [OF tq, of x] that by auto
    show "values_off m1 + 12 * i \<le> x \<and> x < values_off m1 + 12 * i + 12"
      if "x \<in> {p + 4..<p + 8} \<union> {q..<q + 20}" "own1 x = Vals" for x
      using taggedD [OF tq, of x] that voff by (auto simp: p_def)
  qed (use la' voff in \<open>simp add: p_def\<close>)
  moreover have "arena_used m' = arena_used m6" using rd [of 4] rq by simp
  ultimately show ?thesis
    using that [of m' own'] eq same_table_trans [OF g(3) tab] ap(7) gd rd [of p] ap(9) dpq
    by (auto simp: q_def add_patch_cost_def)
qed

text \<open>A step that writes only into one patch and its transforms.\<close>

lemma patch_replaced:
  assumes "list_at own m i p ps" "tagged own Vals p 12" "j < length ps" "a = rdn m p + 20 * j"
    and "writes W own m own' m'" "\<And>x. x \<in> W \<Longrightarrow> own x \<in> {Pats i, Trs i j}"
    and "\<And>x. x \<in> W \<Longrightarrow> own x = Pats i \<Longrightarrow> a \<le> x \<and> x < a + 20"
    and "patch_at own' m' i j a y"
  shows "list_at own' m' i p (ps[j := y])" "rd32 m' p = rd32 m p"
proof -
  note la = assms(1) [unfolded list_at_def arr_at_def]
  have tq: "tagged own (Pats i) (rdn m p) (20 * rdn m (p + 8))" using la by blast
  have desc: "rd32 m' b = rd32 m b" if "p \<le> b" "b + 4 \<le> p + 12" for b
  proof (rule writes_rd32 [OF assms(5) tagged_sub [OF assms(2)]])
    have "x \<notin> W" if "b \<le> x" "x < b + 4" for x
      using assms(6) [of x] taggedD [OF assms(2), of x] that \<open>p \<le> b\<close> \<open>b + 4 \<le> p + 12\<close> by auto
    then show "{b..<b + 4} \<inter> W = {}" by auto
  qed (use that in auto)
  then show d0: "rd32 m' p = rd32 m p" by simp
  have other: "patch_at own' m' i l (rdn m p + 20 * l) (ps ! l)" if l: "l < length ps" "l \<noteq> j" for l
  proof (rule keeps_patch_at [where f = id])
    show "keeps id {Str, Trs i l} own m own' m'"
      by (rule writes_keeps [OF assms(5)]) (use assms(6) l in force, simp_all)
    show "patch_at own m i l (rdn m p + 20 * l) (ps ! l)" using la l by blast
    show "rd32 m' (rdn m p + 20 * l + b) = rd32 m (rdn m p + 20 * l + b)" if "b \<le> 16" for b
    proof (rule writes_rd32 [OF assms(5) tagged_sub [OF tq]])
      have "x \<notin> W" if "rdn m p + 20 * l + b \<le> x" "x < rdn m p + 20 * l + b + 4" for x
        using assms(7) [of x] taggedD [OF tq, of x] that \<open>b \<le> 16\<close> l la assms(4) by auto
      then show "{rdn m p + 20 * l + b..<rdn m p + 20 * l + b + 4} \<inter> W = {}" by auto
    qed (use that l la in auto)
  qed auto
  have "patch_at own' m' i l (rdn m p + 20 * l) (ps[j := y] ! l)" if "l < length ps" for l
    using that other [of l] assms(3,4,8) by (cases "l = j") auto
  with la desc [of "p + 4"] desc [of "p + 8"] d0 writes_tagged [OF assms(5) tq]
  show "list_at own' m' i p (ps[j := y])"
    by (simp add: list_at_def arr_at_def)
qed

lemma transforms_grown:
  assumes "patch_at own m i j a (file, fnd, ts)" "grown 8 (a + 8) (Trs i j) (length ts) own m own' m'"
    "tagged own (Pats i) a 20"
  shows "patch_at own' m' i j a (file, fnd, ts)"
proof -
  note g = assms(2) [unfolded grown_def]
  note pa = assms(1) [unfolded patch_at_def arr_at_def, simplified]
  have w: "writes {a + 8..<a + 8 + 12} own m own' m'" using g by blast
  have strs: "keeps id {Str} own m own' m'"
    by (rule writes_keeps [OF w]) (use taggedD [OF assms(3)] in auto)
  have "trans_at own' m' (rdn m' (a + 8) + 8 * k) (ts ! k)" if k: "k < length ts" for k
  proof -
    have "rd32 m' (rdn m' (a + 8) + 8 * k) = rd32 m (rdn m (a + 8) + 8 * k)"
      "rd32 m' (rdn m' (a + 8) + (8 * k + 4)) = rd32 m (rdn m (a + 8) + (8 * k + 4))"
      using g k by simp_all
    with pa k keeps_str [OF strs] show ?thesis by (simp add: trans_at_def ac_simps)
  qed
  moreover have "rd32 m' a = rd32 m a" "rd32 m' (a + 4) = rd32 m (a + 4)"
    by (rule writes_rd32 [OF w tagged_sub [OF assms(3)]]; simp)+
  ultimately show ?thesis
    using pa g keeps_str [OF strs] by (simp add: patch_at_def arr_at_def ac_simps)
qed

definition add_transform_cost :: "transform list \<Rightarrow> string \<Rightarrow> string \<Rightarrow> nat" where
  "add_transform_cost ts mt rp = grow_cost 8 (length ts) + up8 (length mt + 1) + up8 (length rp + 1)"

lemma transforms_appended:
  assumes "patch_at own m i j a (file, fnd, ts)" "tagged own (Pats i) a 20" "length ts < rdn m (a + 16)"
    and "writes ({a + 12..<a + 16} \<union> {q..<q + 8}) own m own' m'" "q = rdn m (a + 8) + 8 * length ts"
    and "rdn m' (a + 12) = length ts + 1" "rd32 m' (a + 8) = rd32 m (a + 8)" "rd32 m' (a + 16) = rd32 m (a + 16)"
    and "trans_at own' m' q x"
  shows "patch_at own' m' i j a (file, fnd, ts @ [x])"
proof -
  have pa: "str_at own m (rdn m a) file" "str_at own m (rdn m (a + 4)) fnd" "rdn m (a + 16) = 0 \<longleftrightarrow> rdn m (a + 8) = 0"
    "tagged own (Trs i j) (rdn m (a + 8)) (8 * rdn m (a + 16))"
    "\<And>k. k < length ts \<Longrightarrow> trans_at own m (rdn m (a + 8) + 8 * k) (ts ! k)"
    using assms(1) by (simp_all add: patch_at_def arr_at_def add.assoc)
  have W: "own y \<in> {Pats i, Trs i j}" if "y \<in> {a + 12..<a + 16} \<union> {q..<q + 8}" for y
    using taggedD [OF assms(2), of y] taggedD [OF pa(4), of y] that assms(3,5) by auto
  have strs: "keeps id {Str} own m own' m'"
    by (rule writes_keeps [OF assms(4)]) (use W in force, simp_all)
  have rdp: "rd32 m' b = rd32 m b" if "b = a \<or> b = a + 4" for b
  proof (rule writes_rd32 [OF assms(4) tagged_sub [OF assms(2)]])
    have "y \<notin> {q..<q + 8}" if "b \<le> y" "y < b + 4" for y
      using taggedD [OF assms(2), of y] taggedD [OF pa(4), of y] that \<open>b = a \<or> b = a + 4\<close> assms(3,5) by auto
    then show "{b..<b + 4} \<inter> ({a + 12..<a + 16} \<union> {q..<q + 8}) = {}" using that by fastforce
  qed (use that in auto)
  have old: "trans_at own' m' (rdn m (a + 8) + 8 * k) (ts ! k)" if k: "k < length ts" for k
  proof -
    have "rd32 m' b = rd32 m b" if "b = rdn m (a + 8) + 8 * k \<or> b = rdn m (a + 8) + 8 * k + 4" for b
    proof (rule writes_rd32 [OF assms(4) tagged_sub [OF pa(4)]])
      have "y \<notin> {a + 12..<a + 16}" if "b \<le> y" "y < b + 4" for y
        using taggedD [OF assms(2), of y] taggedD [OF pa(4), of y] that k assms(3)
          \<open>b = rdn m (a + 8) + 8 * k \<or> b = rdn m (a + 8) + 8 * k + 4\<close> by auto
      then show "{b..<b + 4} \<inter> ({a + 12..<a + 16} \<union> {q..<q + 8}) = {}" using that assms(5) k by fastforce
    qed (use that k assms(3) in auto)
    then show ?thesis using pa(5) [OF k] keeps_str [OF strs] by (simp add: trans_at_def)
  qed
  have "trans_at own' m' (rdn m (a + 8) + 8 * k) ((ts @ [x]) ! k)" if "k < Suc (length ts)" for k
    using old [of k] that assms(5,9) by (cases "k = length ts") (auto simp: nth_append)
  then show ?thesis
    using pa assms(3,6-8) rdp keeps_str [OF strs] writes_tagged [OF assms(4) pa(4)]
    by (simp add: patch_at_def arr_at_def add.assoc)
qed

text \<open>The whole store after a step that writes only into one patch and its transforms.\<close>

lemma rep_patch:
  assumes "rep own m \<sigma>" "i < length \<sigma>" "j < length (snd (\<sigma> ! i))" "hdr_ok own' m'" "same_table m m'"
    and "writes W own m own' m'" "\<And>x. x \<in> W \<Longrightarrow> own x \<in> {Pats i, Trs i j}"
    and "\<And>x. x \<in> W \<Longrightarrow> own x = Pats i \<Longrightarrow> a \<le> x \<and> x < a + 20"
    and "patch_at own' m' i j a y" "a = rdn m (values_off m + 12 * i) + 20 * j"
  shows "rep own' m' (\<sigma>[i := (fst (\<sigma> ! i), (snd (\<sigma> ! i))[j := y])])"
    "rd32 m' (values_off m + 12 * i) = rd32 m (values_off m + 12 * i)"
proof -
  have la: "list_at own m i (values_off m + 12 * i) (snd (\<sigma> ! i))"
    using assms(1,2) by (simp add: rep_def entry_at_def)
  note r = patch_replaced [OF la table_rows(2) [OF assms(1) rep_cap [OF assms(1,2)]] assms(3,10,6,7,8,9)]
  show "rd32 m' (values_off m + 12 * i) = rd32 m (values_off m + 12 * i)" by (rule r(2))
  show "rep own' m' (\<sigma>[i := (fst (\<sigma> ! i), (snd (\<sigma> ! i))[j := y])])"
  proof (rule rep_replace [OF assms(1,2,4,5,6)])
    show "own x \<in> {Vals, Pats i} \<union> range (Trs i)" if "x \<in> W" for x using assms(7) [OF that] by auto
    show "values_off m + 12 * i \<le> x \<and> x < values_off m + 12 * i + 12" if "x \<in> W" "own x = Vals" for x
      using assms(7) [OF that(1)] that(2) by auto
  qed (rule r(1))
qed

lemma rep_patch_at:
  assumes "rep own m \<sigma>" "i < length \<sigma>" "j < length (snd (\<sigma> ! i))" "a = rdn m (values_off m + 12 * i) + 20 * j"
  shows "patch_at own m i j a (snd (\<sigma> ! i) ! j)" "tagged own (Pats i) a 20"
proof -
  have la: "arr_at own m 20 (values_off m + 12 * i) (Pats i) (patch_at own m i) (snd (\<sigma> ! i))"
    using assms(1,2) by (simp add: rep_def entry_at_def list_at_def)
  then show "patch_at own m i j a (snd (\<sigma> ! i) ! j)" using assms(3,4) by (simp add: arr_at_def)
  show "tagged own (Pats i) a 20"
    by (rule tagged_sub [of own "Pats i" "rdn m (values_off m + 12 * i)"]) (use la assms(3,4) in \<open>auto simp: arr_at_def\<close>)
qed

lemma transforms_grow_rep:
  assumes "rep own m \<sigma>" "i < length \<sigma>" "j < length (snd (\<sigma> ! i))" "snd (\<sigma> ! i) ! j = (file, fnd, ts)"
    and "a = rdn m (values_off m + 12 * i) + 20 * j"
    and "unat (arena_used m) + grow_cost 8 (length ts) \<le> unat (arena_size m)"
  obtains own' m' where "array_grow 8 (a + 8) m = (True, m')" "rep own' m' \<sigma>" "same_table m m'"
    "grown 8 (a + 8) (Trs i j) (length ts) own m own' m'" "rd32 m' (values_off m + 12 * i) = rd32 m (values_off m + 12 * i)"
proof -
  have h: "hdr_ok own m" using assms(1) by (simp add: rep_def)
  note pt = rep_patch_at [OF assms(1,2,3,5), unfolded assms(4)]
  have tq: "tagged own (Pats i) (a + 8) 12" by (rule tagged_sub [OF pt(2)]) simp_all
  have ar: "arr_at own m 8 (a + 8) (Trs i j) (\<lambda>k. trans_at own m) ts" using pt(1) by (simp add: patch_at_def)
  obtain own' m' where g: "array_grow 8 (a + 8) m = (True, m')" "grown 8 (a + 8) (Trs i j) (length ts) own m own' m'"
    by (rule array_grow_step [OF h ar tq]) (use assms(6) in simp_all)
  note gd = g(2) [unfolded grown_def]
  have W: "own x = Pats i \<and> a \<le> x \<and> x < a + 20" if "x \<in> {a + 8..<a + 8 + 12}" for x
    using taggedD [OF tq, of x] that by auto
  note r = rep_patch [OF assms(1-3), of own' m' "{a + 8..<a + 8 + 12}" a "(file, fnd, ts)"]
  have "rep own' m' (\<sigma>[i := (fst (\<sigma> ! i), (snd (\<sigma> ! i))[j := (file, fnd, ts)])])"
    "rd32 m' (values_off m + 12 * i) = rd32 m (values_off m + 12 * i)"
    by (rule r; use gd W transforms_grown [OF pt(1) g(2) pt(2)] assms(5) in auto)+
  with that [OF g(1) _ _ g(2)] gd show ?thesis using assms(2-4) list_update_id [of "snd (\<sigma> ! i)" j] by simp
qed

lemma add_transform_rep:
  assumes "rep own m \<sigma>" "i < length \<sigma>" "j < length (snd (\<sigma> ! i))" "snd (\<sigma> ! i) ! j = (file, fnd, ts)"
    and "a = rdn m (values_off m + 12 * i) + 20 * j" "CHR 0x00 \<notin> set mt" "CHR 0x00 \<notin> set rp"
    and "unat (arena_used m) + add_transform_cost ts mt rp \<le> unat (arena_size m)"
  obtains own' m' where "patch_add_transform a mt rp m = m'"
    "rep own' m' (\<sigma>[i := (fst (\<sigma> ! i), (snd (\<sigma> ! i))[j := (file, fnd, ts @ [(mt, rp)])])])" "same_table m m'"
    "unat (arena_used m') \<le> unat (arena_used m) + add_transform_cost ts mt rp"
    "rd32 m' (values_off m + 12 * i) = rd32 m (values_off m + 12 * i)"
proof -
  obtain own1 m1 where g: "array_grow 8 (a + 8) m = (True, m1)" "rep own1 m1 \<sigma>" "same_table m m1"
    "grown 8 (a + 8) (Trs i j) (length ts) own m own1 m1"
    "rd32 m1 (values_off m + 12 * i) = rd32 m (values_off m + 12 * i)"
    by (rule transforms_grow_rep [OF assms(1-5)]) (use assms(8) in \<open>simp add: add_transform_cost_def\<close>)
  note gd = g(4) [unfolded grown_def]
  have voff: "values_off m1 = values_off m" using g(3) by (simp add: same_table_def)
  have a1: "a = rdn m1 (values_off m1 + 12 * i) + 20 * j" using assms(5) g(5) voff by simp
  have h1: "hdr_ok own1 m1" using g(2) by (simp add: rep_def)
  note pt = rep_patch_at [OF g(2) assms(2,3) a1, unfolded assms(4)]
  have cnt: "rdn m1 (a + 8 + 4) = length ts" using pt(1) by (simp add: patch_at_def arr_at_def)
  define q where "q = rdn m1 (a + 8) + 8 * length ts"
  have ta: "tagged own1 (Trs i j) (rdn m1 (a + 8)) (8 * rdn m1 (a + 8 + 8))" "length ts < rdn m1 (a + 8 + 8)" using gd by blast+
  have tq: "tagged own1 (Trs i j) q 8" by (rule tagged_sub [OF ta(1)]) (use ta(2) in \<open>simp_all add: q_def\<close>)
  have tp: "tagged own1 (Pats i) (a + 8) 12" by (rule tagged_sub [OF pt(2)]) simp_all
  have cb: "rdn m1 (a + 8 + 4) + 1 < 2 ^ 32" by (rule arr_count_bound) (use cnt gd in simp)
  have sp: "unat (arena_used m1) + up8 (length mt + 1) + up8 (length rp + 1) \<le> unat (arena_size m1)"
    using gd assms(8) by (simp add: add_transform_cost_def same_table_def)
  obtain own' o1 m3 o2 m5 m' where ap: "shm_strdup mt (wr32 (a + 8 + 4) (rd32 m1 (a + 8 + 4) + 1) m1) = (o1, m3)"
    "shm_strdup rp (wr32 q o1 m3) = (o2, m5)" "m' = wr32 (q + 4) o2 m5"
    "hdr_ok own' m'" "writes ({a + 8 + 4..<a + 8 + 8} \<union> {q..<q + 8}) own1 m1 own' m'" "same_table m1 m'"
    "unat (arena_used m') = unat (arena_used m1) + up8 (length mt + 1) + up8 (length rp + 1)"
    "rdn m' (a + 8 + 4) = rdn m1 (a + 8 + 4) + 1" "rd32 m' (a + 8) = rd32 m1 (a + 8)" "rd32 m' (a + 8 + 8) = rd32 m1 (a + 8 + 8)"
    "str_at own' m' (rdn m' q) mt" "str_at own' m' (rdn m' (q + 4)) rp"
    by (rule append_two [OF h1 tp _ tq _ _ _ assms(6,7) cb sp]) auto
  have eq: "patch_add_transform a mt rp m = m'"
    using g(1) ap(1-3) cnt by (simp add: patch_add_transform_def Let_def q_def ac_simps)
  have pa: "patch_at own' m' i j a (file, fnd, ts @ [(mt, rp)])"
    by (rule transforms_appended [OF pt, of q]) (use ta ap(5,8-12) cnt in \<open>simp_all add: q_def trans_at_def ac_simps\<close>)
  have W: "own1 x \<in> {Pats i, Trs i j}" "own1 x = Pats i \<Longrightarrow> a \<le> x \<and> x < a + 20"
    if "x \<in> {a + 8 + 4..<a + 8 + 8} \<union> {q..<q + 8}" for x
    using taggedD [OF tp, of x] taggedD [OF tq, of x] that by auto
  note r = rep_patch [OF g(2) assms(2,3) ap(4,6,5) W pa a1]
  have "rd32 m' (values_off m + 12 * i) = rd32 m (values_off m + 12 * i)" by (rule trans [OF r(2) [unfolded voff] g(5)])
  moreover have "unat (arena_used m') \<le> unat (arena_used m) + add_transform_cost ts mt rp"
    using ap(7) gd by (simp add: add_transform_cost_def)
  ultimately show ?thesis by (intro that [OF eq r(1) same_table_trans [OF g(3) ap(6)]])
qed

subsection \<open>The empty arena\<close>

lemma screate_words: "arena_size (screate_header sz m) = sz" "arena_used (screate_header sz m) = 24"
  by (simp_all add: screate_header_def rd32_wr32_other)

lemma init_words:
  "arena_size (init m) = 2 ^ 20" "arena_used (init m) = 280" "keys_off (init m) = 24" "values_off (init m) = 88"
  "map_count (init m) = 0" "map_capacity (init m) = 16"
proof -
  have k: "((64::u32) + 7) AND NOT 7 = 64" "((192::u32) + 7) AND NOT 7 = 192" by code_simp+
  show "arena_size (init m) = 2 ^ 20" "arena_used (init m) = 280" "keys_off (init m) = 24" "values_off (init m) = 88"
    "map_count (init m) = 0" "map_capacity (init m) = 16"
    using k by (simp_all add: init_def screate_header_def hashmap_init_def salloc_def Let_def rd32_wr32_other rd32_memzero_other)
qed

lemma init_rep: "rep (\<lambda>x. if x < 24 then Hdr else if x < 88 then Keys else if x < 280 then Vals else Free) (init m) []"
  by (simp add: rep_def hdr_ok_def table_ok_def init_words tagged_def)

end
