(* ===== verification/PatchRegistry.thy ===== *)
theory PatchRegistry
  imports PatchStore Json
begin

text \<open>
  The writers and readers of the patch arena: the \<^verbatim>\<open>PATCHES\<close> request of a plugin's child process
  (\<^verbatim>\<open>src/engine/plugin_loader.cc\<close>), the removal when a plugin stops (\<^verbatim>\<open>src/engine/backend_mgr.cc\<close>),
  the \<^verbatim>\<open>file.list\<close> request of the event port (\<^verbatim>\<open>src/mep/mep_hooks.cc\<close>) and the print functions of
  \<^verbatim>\<open>src/state/shared_memory.cc\<close>, which walk over the whole arena.

  A request either returns, raises an exception of the JSON library, or follows a null pointer that
  the arena returned because it was full.
\<close>

subsection \<open>The request\<close>

datatype outcome = Finished | Raised string | Crashed

abbreviation value_str :: "string \<Rightarrow> json \<Rightarrow> string result" where
  "value_str key \<equiv> value_string key ''''"

fun add_transforms :: "nat option \<Rightarrow> json list \<Rightarrow> mem \<Rightarrow> outcome \<times> mem" where
  "add_transforms patch [] m = (Finished, m)"
| "add_transforms patch (t # ts) m =
     (case value_str ''match'' t of
        Inl e \<Rightarrow> (Raised e, m)
      | Inr mt \<Rightarrow>
          (case value_str ''replace'' t of
             Inl e \<Rightarrow> (Raised e, m)
           | Inr rp \<Rightarrow>
               (case patch of
                  None \<Rightarrow> (Crashed, m)
                | Some a \<Rightarrow> add_transforms patch ts (patch_add_transform a (c_str mt) (c_str rp) m))))"

text \<open>The elements the loop over \<^verbatim>\<open>transforms\<close> visits.\<close>

definition transforms_of :: "json \<Rightarrow> json list" where
  "transforms_of p =
     (case json_find ''transforms'' p of
        None \<Rightarrow> []
      | Some ts \<Rightarrow> if is_array ts then json_elems ts else [])"

fun add_patches :: "nat option \<Rightarrow> json list \<Rightarrow> mem \<Rightarrow> outcome \<times> mem" where
  "add_patches patch_list [] m = (Finished, m)"
| "add_patches patch_list (p # ps) m =
     (case value_str ''file'' p of
        Inl e \<Rightarrow> (Raised e, m)
      | Inr file \<Rightarrow>
          (case value_str ''find'' p of
             Inl e \<Rightarrow> (Raised e, m)
           | Inr fnd \<Rightarrow>
               (case patch_list of
                  None \<Rightarrow> (Crashed, m)
                | Some l \<Rightarrow>
                    (let (patch, m1) = patchlist_add l (c_str file) (c_str fnd) m in
                     case add_transforms patch (transforms_of p) m1 of
                       (Finished, m2) \<Rightarrow> add_patches patch_list ps m2
                     | r \<Rightarrow> r))))"

text \<open>The request of a child that holds the name \<open>plugin\<close>.  Reading a missing key of a constant object
  is an assertion of the JSON library.\<close>

definition patches_request :: "string \<Rightarrow> json \<Rightarrow> mem \<Rightarrow> outcome \<times> mem" where
  "patches_request plugin params m =
     (case (if is_object params then json_find ''patches'' params else Some params) of
        None \<Rightarrow> (Crashed, m)
      | Some patches \<Rightarrow>
          if is_array patches \<and> json_elems patches \<noteq> []
          then let (patch_list, m1) = hashmap_add_key (c_str plugin) m in
               add_patches patch_list (json_elems patches) m1
          else (Finished, m))"

text \<open>What stopping a plugin does to the arena.\<close>

definition plugin_stopped :: "string \<Rightarrow> mem \<Rightarrow> mem" where
  "plugin_stopped plugin m = hashmap_remove (c_str plugin) m"

datatype event = Patches string json | Stopped string

fun serve :: "event list \<Rightarrow> mem \<Rightarrow> mem" where
  "serve [] m = m"
| "serve (Patches plugin params # es) m = serve es (snd (patches_request plugin params m))"
| "serve (Stopped plugin # es) m = serve es (plugin_stopped plugin m)"

subsection \<open>The readers\<close>

text \<open>The C string at an offset.  The bound is the size of the arena.\<close>

fun read_cstr :: "nat \<Rightarrow> mem \<Rightarrow> nat \<Rightarrow> string" where
  "read_cstr 0 m a = []"
| "read_cstr (Suc n) m a = (if m a = 0 then [] else char_of_byte (m a) # read_cstr n m (a + 1))"

abbreviation arena_str :: "mem \<Rightarrow> nat \<Rightarrow> string" where
  "arena_str m a \<equiv> read_cstr (unat (arena_size m)) m (rdn m a)"

text \<open>The entries that the print functions log.\<close>

definition shown :: "mem \<Rightarrow> nat \<Rightarrow> string" where
  "shown m a = (if rd32 m a \<noteq> 0 then arena_str m a else ''(null)'')"

definition print_transforms :: "mem \<Rightarrow> nat \<Rightarrow> transform list" where
  "print_transforms m patch =
     (if rd32 m (patch + 8) \<noteq> 0
      then map (\<lambda>i. (shown m (rdn m (patch + 8) + 8 * i), shown m (rdn m (patch + 8) + 8 * i + 4))) [0..<rdn m (patch + 12)]
      else [])"

definition patch_print :: "mem \<Rightarrow> nat \<Rightarrow> patch" where
  "patch_print m patch = (shown m patch, shown m (patch + 4), print_transforms m patch)"

definition patchlist_print :: "mem \<Rightarrow> nat \<Rightarrow> patch list" where
  "patchlist_print m plist =
     (if rd32 m plist \<noteq> 0 then map (\<lambda>i. patch_print m (rdn m plist + 20 * i)) [0..<rdn m (plist + 4)] else [])"

definition hashmap_print :: "mem \<Rightarrow> store" where
  "hashmap_print m = map (\<lambda>i. (arena_str m (keys_off m + 4 * i), patchlist_print m (values_off m + 12 * i))) [0..<map_count m]"

definition file_list :: "mem \<Rightarrow> (string \<times> string) list" where
  "file_list m = concat (map (\<lambda>i. let p = values_off m + 12 * i in
      map (\<lambda>j. (arena_str m (keys_off m + 4 * i), arena_str m (rdn m p + 20 * j))) [0..<rdn m (p + 4)])
      [0..<map_count m])"

subsection \<open>The specification\<close>

definition spec_transform :: "json \<Rightarrow> transform result" where
  "spec_transform t = rbind (value_str ''match'' t) (\<lambda>mt. rbind (value_str ''replace'' t) (\<lambda>rp. Return (c_str mt, c_str rp)))"

fun collect :: "('a \<Rightarrow> 'b result) \<Rightarrow> 'a list \<Rightarrow> 'b list result" where
  "collect f [] = Return []"
| "collect f (x # xs) = rbind (f x) (\<lambda>y. rbind (collect f xs) (\<lambda>ys. Return (y # ys)))"

definition spec_patch :: "json \<Rightarrow> patch result" where
  "spec_patch p = rbind (value_str ''file'' p) (\<lambda>file. rbind (value_str ''find'' p) (\<lambda>fnd.
     rbind (collect spec_transform (transforms_of p)) (\<lambda>ts. Return (c_str file, c_str fnd, ts))))"

text \<open>A plugin's patches are appended to those it has.\<close>

definition store_register :: "string \<Rightarrow> patch list \<Rightarrow> store \<Rightarrow> store" where
  "store_register key ps \<sigma> =
     (if ps = [] then \<sigma>
      else let \<sigma>' = store_add_key key \<sigma>; i = key_index key \<sigma> in \<sigma>'[i := (fst (\<sigma>' ! i), snd (\<sigma>' ! i) @ ps)])"

text \<open>The bytes the arena hands out for them.\<close>

fun transforms_cost :: "transform list \<Rightarrow> transform list \<Rightarrow> nat" where
  "transforms_cost old [] = 0"
| "transforms_cost old (t # ts) = add_transform_cost old (fst t) (snd t) + transforms_cost (old @ [t]) ts"

fun patches_cost :: "patch list \<Rightarrow> patch list \<Rightarrow> nat" where
  "patches_cost old [] = 0"
| "patches_cost old (p # ps) =
     add_patch_cost old (fst p) (fst (snd p)) + transforms_cost [] (snd (snd p)) + patches_cost (old @ [p]) ps"

definition register_cost :: "string \<Rightarrow> patch list \<Rightarrow> store \<Rightarrow> nat" where
  "register_cost key ps \<sigma> =
     (if ps = [] then 0
      else add_key_cost key \<sigma> + patches_cost (snd (store_add_key key \<sigma> ! key_index key \<sigma>)) ps)"

text \<open>The events as operations on the store, with the space they need.  A request is well formed if it
  is an object whose \<^verbatim>\<open>patches\<close> are an array of patches.\<close>

fun spec_request :: "json \<Rightarrow> patch list option" where
  "spec_request params =
     (case json_find ''patches'' params of
        Some (JArr ps) \<Rightarrow> (case collect spec_patch ps of Inl e \<Rightarrow> None | Inr qs \<Rightarrow> Some qs)
      | _ \<Rightarrow> None)"

fun spec_serve :: "event list \<Rightarrow> store \<times> nat \<Rightarrow> (store \<times> nat) option" where
  "spec_serve [] s = Some s"
| "spec_serve (Patches plugin params # es) (\<sigma>, used) =
     (case spec_request params of
        None \<Rightarrow> None
      | Some ps \<Rightarrow> spec_serve es (store_register (c_str plugin) ps \<sigma>, used + register_cost (c_str plugin) ps \<sigma>))"
| "spec_serve (Stopped plugin # es) (\<sigma>, used) = spec_serve es (store_remove (c_str plugin) \<sigma>, used)"

subsection \<open>Reading\<close>

lemma c_str_no_nul [simp]: "CHR 0x00 \<notin> set (c_str s)"
  by (auto simp: c_str_def dest: set_takeWhileD)

lemma read_cstr_at:
  "str_at own m a s \<Longrightarrow> length s < n \<Longrightarrow> read_cstr n m a = s"
proof (induction s arbitrary: a n)
  case Nil
  then show ?case by (cases n) (auto simp: str_at_def)
next
  case (Cons c s)
  obtain n' where n: "n = Suc n'" using Cons.prems(2) by (cases n) auto
  have m: "m a = byte_of_char c" "c \<noteq> CHR 0x00" using Cons.prems(1) by (auto simp: str_at_def)
  have "m (a + 1 + i) = byte_of_char (s ! i)" if "i < length s" for i
    using Cons.prems(1) that by (auto simp: str_at_def dest!: spec [of _ "Suc i"])
  then have "str_at own m (a + 1) s"
    using Cons.prems(1) by (auto simp: str_at_def elim!: tagged_sub)
  then show ?case using Cons.IH [of "a + 1" n'] Cons.prems(2) m n byte_of_char_zero by simp
qed

lemma arena_str_at: "hdr_ok own m \<Longrightarrow> str_at own m (rdn m a) s \<Longrightarrow> arena_str m a = s"
proof (rule read_cstr_at)
  assume h: "hdr_ok own m" and s: "str_at own m (rdn m a) s"
  have "rdn m a + (length s + 1) \<le> unat (arena_used m)"
    using range_of_tag [OF h, of Str "rdn m a" "length s + 1"] s by (simp add: str_at_def)
  then show "length s < unat (arena_size m)" using h by (simp add: hdr_ok_def)
qed

lemma map_upt_eqI: "length xs = n \<Longrightarrow> (\<And>i. i < n \<Longrightarrow> f i = xs ! i) \<Longrightarrow> map f [0..<n] = xs"
  by (rule nth_equalityI) simp_all

lemma shown_at: "hdr_ok own m \<Longrightarrow> str_at own m (rdn m a) s \<Longrightarrow> shown m a = s"
proof -
  assume h: "hdr_ok own m" and s: "str_at own m (rdn m a) s"
  have "24 \<le> rdn m a" using range_of_tag [OF h, of Str "rdn m a" "length s + 1"] s by (simp add: str_at_def)
  then have "rd32 m a \<noteq> 0" by auto
  then show ?thesis using arena_str_at [OF h s] by (simp add: shown_def)
qed

text \<open>An array without elements may have no storage.\<close>

lemma print_array_at:
  assumes "arr_at own m elem p t P xs" "\<And>i. i < length xs \<Longrightarrow> P i (rdn m p + elem * i) (xs ! i) \<Longrightarrow> f i = xs ! i"
  shows "(if rd32 m p \<noteq> 0 then map f [0..<rdn m (p + 4)] else []) = xs"
proof (cases "rd32 m p = 0")
  case True
  then have "rdn m p = 0" by simp
  with True assms(1) show ?thesis by (auto simp: arr_at_def)
next
  case False
  with assms show ?thesis by (auto simp: arr_at_def intro!: map_upt_eqI)
qed

lemma print_patch_at:
  assumes "hdr_ok own m" "patch_at own m i j a x"
  shows "patch_print m a = x"
proof -
  have e: "a + 8 + 4 = a + 12" by simp
  have pr: "(if rd32 m (a + 8) \<noteq> 0
      then map (\<lambda>i. (shown m (rdn m (a + 8) + 8 * i), shown m (rdn m (a + 8) + 8 * i + 4))) [0..<rdn m (a + 8 + 4)]
      else []) = snd (snd x)"
  proof (rule print_array_at)
    show "arr_at own m 8 (a + 8) (Trs i j) (\<lambda>k. trans_at own m) (snd (snd x))" using assms(2) by (simp add: patch_at_def)
    show "(shown m (rdn m (a + 8) + 8 * k), shown m (rdn m (a + 8) + 8 * k + 4)) = snd (snd x) ! k"
      if "trans_at own m (rdn m (a + 8) + 8 * k) (snd (snd x) ! k)" for k
      using that shown_at [OF assms(1)] by (cases "snd (snd x) ! k") (simp add: trans_at_def)
  qed
  have "print_transforms m a = snd (snd x)" unfolding print_transforms_def by (rule pr [unfolded e])
  then show ?thesis using assms(2) shown_at [OF assms(1)] by (cases x) (simp add: patch_print_def patch_at_def)
qed

lemma print_list_at: "hdr_ok own m \<Longrightarrow> list_at own m i p ps \<Longrightarrow> patchlist_print m p = ps"
  unfolding patchlist_print_def list_at_def
  by (rule print_array_at [where t = "Pats i" and elem = 20 and P = "patch_at own m i"]) (auto intro: print_patch_at)

lemma rep_read: "rep own m \<sigma> \<Longrightarrow> hashmap_print m = \<sigma>"
  unfolding hashmap_print_def
proof (rule map_upt_eqI)
  assume r: "rep own m \<sigma>"
  then show "length \<sigma> = map_count m" by (simp add: rep_def table_ok_def)
  show "(arena_str m (keys_off m + 4 * i), patchlist_print m (values_off m + 12 * i)) = \<sigma> ! i" if "i < map_count m" for i
  proof -
    have e: "entry_at own m i (\<sigma> ! i)" and h: "hdr_ok own m" using r that by (simp_all add: rep_def table_ok_def)
    then show ?thesis
      using arena_str_at [OF h] print_list_at [OF h, of i "values_off m + 12 * i"] by (cases "\<sigma> ! i") (auto simp: entry_at_def)
  qed
qed

lemma rep_file_list:
  assumes "rep own m \<sigma>"
  shows "file_list m = concat (map (\<lambda>(key, ps). map (\<lambda>p. (key, fst p)) ps) \<sigma>)"
proof -
  have h: "hdr_ok own m" using assms by (simp add: rep_def)
  have "map (\<lambda>i. let p = values_off m + 12 * i in
      map (\<lambda>j. (arena_str m (keys_off m + 4 * i), arena_str m (rdn m p + 20 * j))) [0..<rdn m (p + 4)])
      [0..<map_count m] = map (\<lambda>(key, ps). map (\<lambda>p. (key, fst p)) ps) \<sigma>"
    (is "map ?f _ = _")
  proof (rule map_upt_eqI)
    show "length (map (\<lambda>(key, ps). map (\<lambda>p. (key, fst p)) ps) \<sigma>) = map_count m"
      using assms by (simp add: rep_def table_ok_def)
    show "?f i = map (\<lambda>(key, ps). map (\<lambda>p. (key, fst p)) ps) \<sigma> ! i" if "i < map_count m" for i
    proof -
      have i: "i < length \<sigma>" using that assms by (simp add: rep_def table_ok_def)
      then have "entry_at own m i (\<sigma> ! i)" using assms by (simp add: rep_def)
      then have "arena_str m (keys_off m + 4 * i) = fst (\<sigma> ! i)" "list_at own m i (values_off m + 12 * i) (snd (\<sigma> ! i))"
        using arena_str_at [OF h] by (simp_all add: entry_at_def)
      then show ?thesis
        using i arena_str_at [OF h]
        by (auto simp: list_at_def arr_at_def patch_at_def Let_def case_prod_beta intro!: map_upt_eqI)
    qed
  qed
  then show ?thesis by (simp add: file_list_def)
qed

subsection \<open>Registering\<close>

lemma collect_Cons: "collect f (x # xs) = Inr ys \<longleftrightarrow> (\<exists>y zs. f x = Inr y \<and> collect f xs = Inr zs \<and> ys = y # zs)"
  by (auto simp: rbind_Inr)

lemma add_transforms_rep:
  assumes "rep own m \<sigma>" "i < length \<sigma>" "j < length (snd (\<sigma> ! i))" "snd (\<sigma> ! i) ! j = (file, fnd, old)"
    and "a = rdn m (values_off m + 12 * i) + 20 * j" "collect spec_transform js = Return ts"
    and "unat (arena_used m) + transforms_cost old ts \<le> unat (arena_size m)"
  shows "\<exists>own' m'. add_transforms (Some a) js m = (Finished, m') \<and> same_table m m' \<and>
    rep own' m' (\<sigma>[i := (fst (\<sigma> ! i), (snd (\<sigma> ! i))[j := (file, fnd, old @ ts)])]) \<and>
    unat (arena_used m') \<le> unat (arena_used m) + transforms_cost old ts"
  using assms
proof (induction js arbitrary: own m \<sigma> old ts)
  case Nil
  then have "\<sigma>[i := (fst (\<sigma> ! i), (snd (\<sigma> ! i))[j := (file, fnd, old @ ts)])] = \<sigma>"
    using list_update_id [of "snd (\<sigma> ! i)" j] by simp
  with Nil show ?case by (auto simp: same_table_def)
next
  case (Cons t js)
  obtain y zs where yz: "spec_transform t = Inr y" "collect spec_transform js = Inr zs" "ts = y # zs"
    using Cons.prems(6) unfolding collect_Cons by blast
  obtain mt rp where v: "value_str ''match'' t = Inr mt" "value_str ''replace'' t = Inr rp" "y = (c_str mt, c_str rp)"
    using yz(1) by (auto simp: spec_transform_def rbind_Inr)
  have c: "transforms_cost old ts = add_transform_cost old (c_str mt) (c_str rp) + transforms_cost (old @ [y]) zs"
    using yz(3) v(3) by simp
  obtain own1 m1 where s: "patch_add_transform a (c_str mt) (c_str rp) m = m1"
    "rep own1 m1 (\<sigma>[i := (fst (\<sigma> ! i), (snd (\<sigma> ! i))[j := (file, fnd, old @ [(c_str mt, c_str rp)])])])" "same_table m m1"
    "unat (arena_used m1) \<le> unat (arena_used m) + add_transform_cost old (c_str mt) (c_str rp)"
    "rd32 m1 (values_off m + 12 * i) = rd32 m (values_off m + 12 * i)"
    by (rule add_transform_rep [OF Cons.prems(1-5), of "c_str mt" "c_str rp"]) (use Cons.prems(7) c in simp_all)
  have tab: "values_off m1 = values_off m" "arena_size m1 = arena_size m" using s(3) by (simp_all add: same_table_def)
  have "a = rdn m1 (values_off m1 + 12 * i) + 20 * j" unfolding tab s(5) by (rule Cons.prems(5))
  moreover have "unat (arena_used m1) + transforms_cost (old @ [y]) zs \<le> unat (arena_size m1)"
    using s(4) Cons.prems(7) unfolding c tab by simp
  ultimately obtain own' m' where r: "add_transforms (Some a) js m1 = (Finished, m')" "same_table m1 m'"
    "rep own' m' (\<sigma>[i := (fst (\<sigma> ! i), (snd (\<sigma> ! i))[j := (file, fnd, (old @ [y]) @ zs)])])"
    "unat (arena_used m') \<le> unat (arena_used m1) + transforms_cost (old @ [y]) zs"
    using Cons.IH [OF s(2), of "old @ [y]" zs] Cons.prems(2,3) yz(2) v(3) by auto
  have "add_transforms (Some a) (t # js) m = (Finished, m')" using v(1,2) s(1) r(1) by simp
  with r(3,4) s(4) same_table_trans [OF s(3) r(2)] c yz(3) show ?case
    by (intro exI [of _ own'] exI [of _ m']) simp
qed

lemma add_patches_rep:
  assumes "rep own m \<sigma>" "i < length \<sigma>" "l = values_off m + 12 * i" "collect spec_patch js = Return ps"
    and "unat (arena_used m) + patches_cost (snd (\<sigma> ! i)) ps \<le> unat (arena_size m)"
  shows "\<exists>own' m'. add_patches (Some l) js m = (Finished, m') \<and> same_table m m' \<and>
    rep own' m' (\<sigma>[i := (fst (\<sigma> ! i), snd (\<sigma> ! i) @ ps)]) \<and>
    unat (arena_used m') \<le> unat (arena_used m) + patches_cost (snd (\<sigma> ! i)) ps"
  using assms
proof (induction js arbitrary: own m \<sigma> ps)
  case Nil
  then show ?case using list_update_id [of \<sigma> i] by (auto simp: same_table_def)
next
  case (Cons p js)
  let ?old = "snd (\<sigma> ! i)" and ?key = "fst (\<sigma> ! i)"
  obtain y zs where yz: "spec_patch p = Inr y" "collect spec_patch js = Inr zs" "ps = y # zs"
    using Cons.prems(4) unfolding collect_Cons by blast
  obtain fl fnd ts where v: "value_str ''file'' p = Inr fl" "value_str ''find'' p = Inr fnd"
    "collect spec_transform (transforms_of p) = Inr ts" "y = (c_str fl, c_str fnd, ts)"
    using yz(1) by (auto simp: spec_patch_def rbind_Inr)
  have c: "patches_cost ?old ps = add_patch_cost ?old (c_str fl) (c_str fnd) + transforms_cost [] ts + patches_cost (?old @ [y]) zs"
    using yz(3) v(4) by simp
  have "unat (arena_used m) + add_patch_cost ?old (c_str fl) (c_str fnd) \<le> unat (arena_size m)"
    using Cons.prems(5) unfolding c by simp
  then obtain own1 m1 where s: "patchlist_add l (c_str fl) (c_str fnd) m = (Some (rdn m1 l + 20 * length ?old), m1)"
    "rep own1 m1 (\<sigma>[i := (?key, ?old @ [(c_str fl, c_str fnd, [])])])" "same_table m m1"
    "unat (arena_used m1) \<le> unat (arena_used m) + add_patch_cost ?old (c_str fl) (c_str fnd)"
    unfolding Cons.prems(3) using patchlist_add_rep [OF Cons.prems(1,2) c_str_no_nul c_str_no_nul] by metis
  let ?s1 = "\<sigma>[i := (?key, ?old @ [(c_str fl, c_str fnd, [])])]"
  have tab1: "values_off m1 = values_off m" "arena_size m1 = arena_size m" using s(3) by (simp_all add: same_table_def)
  have at1: "?s1 ! i = (?key, ?old @ [(c_str fl, c_str fnd, [])])" using Cons.prems(2) by simp
  obtain own2 m2 where t: "add_transforms (Some (rdn m1 l + 20 * length ?old)) (transforms_of p) m1 = (Finished, m2)"
    "same_table m1 m2" "rep own2 m2 (?s1[i := (?key, (?old @ [(c_str fl, c_str fnd, [])])[length ?old := y])])"
    "unat (arena_used m2) \<le> unat (arena_used m1) + transforms_cost [] ts"
    using add_transforms_rep [OF s(2), of i "length ?old" "c_str fl" "c_str fnd" "[]" _ "transforms_of p" ts]
      Cons.prems(2,3,5) s(4) v(3,4) unfolding at1 tab1 c by auto
  let ?s2 = "\<sigma>[i := (?key, ?old @ [y])]"
  have s2: "rep own2 m2 ?s2" using t(3) by simp
  have tab2: "values_off m2 = values_off m" "arena_size m2 = arena_size m"
    using same_table_trans [OF s(3) t(2)] by (simp_all add: same_table_def)
  have at2: "?s2 ! i = (?key, ?old @ [y])" using Cons.prems(2) by simp
  obtain own' m' where r: "add_patches (Some l) js m2 = (Finished, m')" "same_table m2 m'"
    "rep own' m' (?s2[i := (?key, (?old @ [y]) @ zs)])"
    "unat (arena_used m') \<le> unat (arena_used m2) + patches_cost (?old @ [y]) zs"
    using Cons.IH [OF s2, of zs] Cons.prems(2,3,5) s(4) t(4) yz(2) unfolding at2 tab2 c by auto
  have "add_patches (Some l) (p # js) m = (Finished, m')" using v(1,2) s(1) t(1) r(1) by simp
  moreover have "same_table m m'" by (rule same_table_trans [OF same_table_trans [OF s(3) t(2)] r(2)])
  ultimately show ?case using r(3,4) t(4) s(4) c yz(3) by (intro exI [of _ own'] exI [of _ m']) simp
qed

lemma key_index_less: "key_index key \<sigma> < length (store_add_key key \<sigma>)"
proof (cases "index_of key \<sigma>")
  case None
  then have "key \<notin> set (map fst \<sigma>)" by (simp add: index_of_None)
  with None show ?thesis by (simp add: key_index_def store_add_key_def)
next
  case (Some i)
  then have "i < length \<sigma>" using index_of_Some by simp
  with Some show ?thesis by (simp add: key_index_def store_add_key_def)
qed

lemma patches_request_rep:
  assumes "rep own m \<sigma>" "spec_request params = Some ps"
    and "unat (arena_used m) + register_cost (c_str plugin) ps \<sigma> \<le> unat (arena_size m)"
  shows "\<exists>own' m'. patches_request plugin params m = (Finished, m') \<and> arena_size m' = arena_size m \<and>
    rep own' m' (store_register (c_str plugin) ps \<sigma>) \<and>
    unat (arena_used m') \<le> unat (arena_used m) + register_cost (c_str plugin) ps \<sigma>"
proof -
  let ?k = "c_str plugin" and ?i = "key_index (c_str plugin) \<sigma>"
  obtain js where js: "json_find ''patches'' params = Some (JArr js)" "collect spec_patch js = Inr ps"
    using assms(2) by (auto split: option.splits json.splits sum.splits)
  then have obj: "is_object params" by (cases params) (simp_all add: json_find_def)
  have emp: "js = [] \<longleftrightarrow> ps = []" using js(2) by (cases js) (auto simp: rbind_Inr)
  show ?thesis
  proof (cases "ps = []")
    case True
    then show ?thesis using assms(1) js obj emp by (auto simp: patches_request_def store_register_def)
  next
    case False
    then have c: "register_cost ?k ps \<sigma> = add_key_cost ?k \<sigma> + patches_cost (snd (store_add_key ?k \<sigma> ! ?i)) ps"
      by (simp add: register_cost_def)
    obtain own1 m1 where k: "hashmap_add_key ?k m = (Some (values_off m1 + 12 * ?i), m1)"
      "rep own1 m1 (store_add_key ?k \<sigma>)" "arena_size m1 = arena_size m"
      "unat (arena_used m1) \<le> unat (arena_used m) + add_key_cost ?k \<sigma>"
      by (rule add_key_rep [OF assms(1) c_str_no_nul [of plugin]]) (use assms(3) c in simp_all)
    obtain own' m' where r: "add_patches (Some (values_off m1 + 12 * ?i)) js m1 = (Finished, m')" "same_table m1 m'"
      "rep own' m' ((store_add_key ?k \<sigma>)[?i := (fst (store_add_key ?k \<sigma> ! ?i), snd (store_add_key ?k \<sigma> ! ?i) @ ps)])"
      "unat (arena_used m') \<le> unat (arena_used m1) + patches_cost (snd (store_add_key ?k \<sigma> ! ?i)) ps"
      using add_patches_rep [OF k(2) key_index_less refl js(2)] k(3,4) assms(3) c by auto
    have "patches_request plugin params m = (Finished, m')"
      using js(1) obj emp False k(1) r(1) by (simp add: patches_request_def)
    then show ?thesis using r k(3,4) c False by (auto simp: store_register_def Let_def same_table_def)
  qed
qed

lemma spec_serve_used: "spec_serve es (\<sigma>, used) = Some (\<sigma>', used') \<Longrightarrow> used \<le> used'"
proof (induction es "(\<sigma>, used)" arbitrary: \<sigma> used rule: spec_serve.induct)
  case (2 plugin params es \<sigma> used)
  then show ?case by (fastforce simp del: spec_request.simps split: option.splits)
qed auto

lemma serve_rep:
  assumes "rep own m \<sigma>" "unat (arena_used m) \<le> used" "spec_serve es (\<sigma>, used) = Some (\<sigma>', used')" "used' \<le> unat (arena_size m)"
  shows "\<exists>own'. rep own' (serve es m) \<sigma>' \<and> arena_size (serve es m) = arena_size m"
  using assms
proof (induction es arbitrary: own m \<sigma> used)
  case Nil
  then show ?case by auto
next
  case (Cons e es)
  show ?case
  proof (cases e)
    case (Patches plugin params)
    let ?k = "c_str plugin"
    obtain ps where ps: "spec_request params = Some ps"
      "spec_serve es (store_register ?k ps \<sigma>, used + register_cost ?k ps \<sigma>) = Some (\<sigma>', used')"
      using Cons.prems(3) Patches by (auto simp del: spec_request.simps split: option.splits)
    have "used + register_cost ?k ps \<sigma> \<le> used'" by (rule spec_serve_used [OF ps(2)])
    then obtain own' m' where r: "patches_request plugin params m = (Finished, m')" "arena_size m' = arena_size m"
      "rep own' m' (store_register ?k ps \<sigma>)" "unat (arena_used m') \<le> unat (arena_used m) + register_cost ?k ps \<sigma>"
      using patches_request_rep [OF Cons.prems(1) ps(1), of plugin] Cons.prems(2,4) by auto
    then show ?thesis using Cons.IH [OF r(3) _ ps(2)] Cons.prems(2,4) Patches by simp
  next
    case (Stopped plugin)
    obtain own' where r: "rep own' (plugin_stopped plugin m) (store_remove (c_str plugin) \<sigma>)"
      "arena_size (plugin_stopped plugin m) = arena_size m" "arena_used (plugin_stopped plugin m) = arena_used m"
      unfolding plugin_stopped_def by (rule remove_rep [OF Cons.prems(1) c_str_no_nul])
    then show ?thesis using Cons.IH [OF r(1)] Cons.prems Stopped by simp
  qed
qed

subsection \<open>A full arena\<close>

lemma full_append:
  assumes "rep own m \<sigma>" "arena_used m = arena_size m" "length \<sigma> < map_capacity m" "length key < 2 ^ 30"
  obtains p m' where "hashmap_append key m = (p, m')" "24 \<le> p" "arena_used m' = arena_used m" "arena_size m' = arena_size m"
    "rd32 m' (p + 4) = 0" "rd32 m' (p + 8) = 0"
proof -
  have h: "hdr_ok own m" using assms(1) by (simp add: rep_def)
  have n: "map_count m = length \<sigma>" using assms(1) by (simp add: rep_def table_ok_def)
  define p where "p = values_off m + 12 * length \<sigma>"
  define k where "k = keys_off m + 4 * length \<sigma>"
  have p: "24 \<le> p" and k: "24 \<le> k"
    using range_of_tag [OF h table_rows(2) [OF assms(1,3)]] range_of_tag [OF h table_rows(1) [OF assms(1,3)]]
    by (simp_all add: p_def k_def)
  have len: "unat (of_nat (length key) + 1 :: u32) = length key + 1"
    using unat_of_small [of "length key + 1"] assms(4) by (simp add: add.commute)
  have "salloc (of_nat (length key) + 1) m = (0, m)"
    by (rule salloc_failure)
      (use h assms(2,4) len up8_bounds(1) [of "length key + 1"] in \<open>simp_all add: hdr_ok_def\<close>)
  then have "hashmap_append key m =
      (p, wr32 16 (rd32 m 16 + 1) (wr32 (p + 8) 0 (wr32 (p + 4) 0 (wr32 p 0 (wr32 k 0 m)))))"
    using p k n by (simp add: hashmap_append_def shm_strdup_def Let_def rd32_wr32_other p_def k_def)
  from that [OF this p] p k show ?thesis by (simp add: rd32_wr32_other)
qed

lemma full_patchlist_add:
  assumes "hdr_ok own m" "arena_used m' = arena_used m" "arena_size m' = arena_size m" "arena_used m = arena_size m"
    "rd32 m' (p + 4) = 0" "rd32 m' (p + 8) = 0"
  shows "patchlist_add p fl fnd m' = (None, m')"
proof -
  have "salloc 80 m' = (0, m')"
    by (rule salloc_failure) (use assms up8_bounds(1) [of 80] in \<open>simp_all add: hdr_ok_def\<close>)
  then have "array_grow 20 p m' = (False, m')" using assms(5,6) by (simp add: array_grow_def)
  then show ?thesis by (simp add: patchlist_add_def)
qed

subsection \<open>Properties\<close>

text \<open>C36: When the arena has no byte left and a plugin that is not in the table registers a patch that has a
  transform, the loader follows a null pointer: the handler does not check what \<^verbatim>\<open>patchlist_add\<close>
  returned.\<close>

theorem full_arena_crash:
  assumes "rep own m \<sigma>" "arena_used m = arena_size m" "length \<sigma> < map_capacity m"
    and "c_str plugin \<notin> fst ` set \<sigma>" "length (c_str plugin) < 2 ^ 30"
    and "value_str ''file'' p = Return fl" "value_str ''find'' p = Return fnd"
    and "transforms_of p = t # ts" "value_str ''match'' t = Return mt" "value_str ''replace'' t = Return rp"
  shows "fst (patches_request plugin (JObj [(''patches'', JArr (p # ps))]) m) = Crashed"
proof -
  have "hashmap_get (c_str plugin) m = None"
    using hashmap_get_at [OF assms(1) c_str_no_nul] index_of_None [of "c_str plugin" \<sigma>] assms(4) by simp
  moreover have "map_count m < map_capacity m" using assms(1,3) by (simp add: rep_def table_ok_def)
  moreover obtain l m1 where a: "hashmap_append (c_str plugin) m = (l, m1)" "24 \<le> l" "arena_used m1 = arena_used m"
    "arena_size m1 = arena_size m" "rd32 m1 (l + 4) = 0" "rd32 m1 (l + 8) = 0"
    by (rule full_append [OF assms(1-3,5)])
  ultimately have "hashmap_add_key (c_str plugin) m = (Some l, m1)" by (simp add: hashmap_add_key_def)
  moreover have "patchlist_add l (c_str fl) (c_str fnd) m1 = (None, m1)"
    by (rule full_patchlist_add [of own m]) (use assms(1,2) a in \<open>simp_all add: rep_def\<close>)
  ultimately show ?thesis
    using assms(6-10) by (simp add: patches_request_def json_find_def)
qed

definition full_arena :: mem where
  "full_arena = wr32 4 (2 ^ 20) (init (\<lambda>_. 0))"

definition full_owners :: owners where
  "full_owners x = (if x < 24 then Hdr else if x < 88 then Keys else if x < 280 then Vals else if x < 2 ^ 20 then Dead else Free)"

theorem full_arena_crash_witness:
  "fst (patches_request ''p'' (JObj [(''patches'', JArr [JObj [(''file'', JStr ''f''), (''find'', JStr ''g''),
     (''transforms'', JArr [JObj [(''match'', JStr ''h''), (''replace'', JStr ''i'')]])]])]) full_arena) = Crashed"
proof (rule full_arena_crash [where own = full_owners and \<sigma> = "[]" and fl = "''f''" and fnd = "''g''"
      and t = "JObj [(''match'', JStr ''h''), (''replace'', JStr ''i'')]" and ts = "[]" and mt = "''h''" and rp = "''i''"])
  have w: "rd32 full_arena b = rd32 (init (\<lambda>_. 0)) b" if "b \<noteq> 4" "4 dvd b" for b
    unfolding full_arena_def by (rule rd32_wr32_other) (use that in \<open>auto elim!: dvdE\<close>)
  have u: "arena_used full_arena = 2 ^ 20" by (simp add: full_arena_def)
  show "rep full_owners full_arena []"
    using u by (simp add: rep_def hdr_ok_def table_ok_def w init_words tagged_def full_owners_def)
  show "arena_used full_arena = arena_size full_arena" using u by (simp add: w init_words)
  show "length ([] :: store) < map_capacity full_arena" by (simp add: w init_words)
qed (simp_all add: value_string_def json_find_def transforms_of_def c_str_def)

text \<open>C2: Whatever plugins register their patches and whatever plugins stop, in any order, starting from a
  fresh arena: the arena holds exactly the patches of the plugins that are running, with their file
  patterns, find patterns and transforms in the order of the requests, and \<^verbatim>\<open>file.list\<close> shows the
  same files.  This holds as long as the requests are well formed and the space they need
  stays within the 1 MiB of the arena.\<close>

theorem patch_registry_refines:
  assumes "spec_serve es ([], 280) = Some (\<sigma>, used)" "used \<le> 2 ^ 20"
  shows "hashmap_print (serve es (init m)) = \<sigma> \<and>
    file_list (serve es (init m)) = concat (map (\<lambda>(key, ps). map (\<lambda>p. (key, fst p)) ps) \<sigma>)"
proof -
  obtain own where "rep own (serve es (init m)) \<sigma>"
    using serve_rep [OF init_rep, of m 280 es \<sigma> used] assms by (auto simp: init_words)
  then show ?thesis by (simp add: rep_read rep_file_list)
qed

text \<open>A plugin that registers one patch, a second one with two, and the first one stops.\<close>

definition sample_events :: "event list" where
  "sample_events =
     [Patches ''a'' (JObj [(''patches'', JArr [JObj [(''file'', JStr ''x.js''), (''find'', JStr ''f'')]])]),
      Patches ''b'' (JObj [(''patches'', JArr [
        JObj [(''file'', JStr ''y.js''), (''find'', JStr ''g''),
              (''transforms'', JArr [JObj [(''match'', JStr ''h''), (''replace'', JStr ''i'')]])],
        JObj [(''file'', JStr ''z.js''), (''find'', JStr ''j'')]])]),
      Stopped ''a'']"


theorem patch_registry_refines_witness:
  "hashmap_print (serve sample_events (init (\<lambda>_. 0))) =
     [(''b'', [(''y.js'', ''g'', [(''h'', ''i'')]), (''z.js'', ''j'', [])])]"
proof (rule patch_registry_refines [THEN conjunct1])
  show "spec_serve sample_events ([], 280) =
      Some ([(''b'', [(''y.js'', ''g'', [(''h'', ''i'')]), (''z.js'', ''j'', [])])], 624)" by code_simp
qed simp

end
