(* ===== verification/ResourceMatcher.thy ===== *)
theory ResourceMatcher
  imports PatchRegistry
begin

text \<open>
  How the browser process reads the patch arena: \<^verbatim>\<open>src/instrumentation/loopback/resource_matcher.cc\<close>
  and the first half of \<^verbatim>\<open>resource_transformer.cc\<close>.  The file patterns of all plugins are gathered in a
  pool; a pattern's position in the pool is the number by which its patch is looked up later.

  \<open>al n\<close> says whether an allocation of \<open>n\<close> bytes succeeds.  Pointers have 8 bytes.
\<close>

type_synonym alloc = "nat \<Rightarrow> bool"

definition MAX_FILE_SIZE :: nat where "MAX_FILE_SIZE = 256 * 1024 * 1024"
definition MAX_POOL_CAPACITY :: nat where "MAX_POOL_CAPACITY = 1000000"
definition MAX_PATTERN_COUNT :: nat where "MAX_PATTERN_COUNT = 100000"
definition MAX_PLUGIN_NAME_LEN :: nat where "MAX_PLUGIN_NAME_LEN = 1024"

lemmas limits = MAX_FILE_SIZE_def MAX_POOL_CAPACITY_def MAX_PATTERN_COUNT_def MAX_PLUGIN_NAME_LEN_def

subsection \<open>Checked arithmetic\<close>

definition safe_mul_u32 :: "nat \<Rightarrow> nat \<Rightarrow> nat option" where
  "safe_mul_u32 a b = (if b \<noteq> 0 \<and> a > (2 ^ 32 - 1) div b then None else Some (a * b mod 2 ^ 32))"

definition safe_add_u32 :: "nat \<Rightarrow> nat \<Rightarrow> nat option" where
  "safe_add_u32 a b = (if int a > 2 ^ 32 - 1 - int b then None else Some ((a + b) mod 2 ^ 32))"

definition safe_mul_size :: "nat \<Rightarrow> nat \<Rightarrow> nat option" where
  "safe_mul_size a b = (if b \<noteq> 0 \<and> a > (2 ^ 64 - 1) div b then None else Some (a * b mod 2 ^ 64))"

definition safe_add_size :: "nat \<Rightarrow> nat \<Rightarrow> nat option" where
  "safe_add_size a b = (if int a > 2 ^ 64 - 1 - int b then None else Some ((a + b) mod 2 ^ 64))"

subsection \<open>The pool of file patterns\<close>

text \<open>The two arrays and the number of elements they have room for.\<close>

record pool =
  file_pool :: "string list"
  plugin_map :: "(nat \<times> string) list"
  capacity :: nat

definition empty_pool :: pool where
  "empty_pool = \<lparr>file_pool = [], plugin_map = [], capacity = 0\<rparr>"

definition resize_pools :: "alloc \<Rightarrow> pool \<Rightarrow> pool option" where
  "resize_pools al p =
     (case (if capacity p = 0 then Some 16
            else if capacity p > MAX_POOL_CAPACITY div 2 then None
            else safe_mul_u32 (capacity p) 2) of
        None \<Rightarrow> None
      | Some n \<Rightarrow>
          (let new_capacity = (if n > MAX_POOL_CAPACITY then MAX_POOL_CAPACITY else n) in
           case (safe_mul_size new_capacity 8, safe_mul_size new_capacity 16) of
             (Some pool_size, Some map_size) \<Rightarrow>
               if al pool_size \<and> al map_size then Some (p\<lparr>capacity := new_capacity\<rparr>) else None
           | _ \<Rightarrow> None))"

definition add_file_entry :: "string \<Rightarrow> string \<Rightarrow> pool \<Rightarrow> pool" where
  "add_file_entry file plugin p =
     p\<lparr>file_pool := file_pool p @ [file], plugin_map := plugin_map p @ [(length (file_pool p), plugin)]\<rparr>"

fun add_files :: "alloc \<Rightarrow> string \<Rightarrow> string list \<Rightarrow> pool \<Rightarrow> pool option" where
  "add_files al plugin [] p = Some p"
| "add_files al plugin (file # files) p =
     (if length (file_pool p) \<ge> 2 ^ 32 - 1 then None
      else case (if length (file_pool p) \<ge> capacity p then resize_pools al p else Some p) of
             None \<Rightarrow> None
           | Some p1 \<Rightarrow> add_files al plugin files (add_file_entry file plugin p1))"

definition process_patch_list :: "alloc \<Rightarrow> mem \<Rightarrow> nat \<Rightarrow> string \<Rightarrow> pool \<Rightarrow> pool option" where
  "process_patch_list al m plist plugin p =
     (if rd32 m plist = 0 then Some p
      else if rdn m (plist + 4) > MAX_PATTERN_COUNT then None
      else add_files al plugin (map (\<lambda>j. arena_str m (rdn m plist + 20 * j)) [0..<rdn m (plist + 4)]) p)"

fun pool_lists :: "alloc \<Rightarrow> mem \<Rightarrow> nat list \<Rightarrow> pool \<Rightarrow> pool option" where
  "pool_lists al m [] p = Some p"
| "pool_lists al m (i # is) p =
     (let plugin = arena_str m (keys_off m + 4 * i) in
      if length plugin > MAX_PLUGIN_NAME_LEN then None
      else case process_patch_list al m (values_off m + 12 * i) plugin p of
             None \<Rightarrow> None
           | Some p1 \<Rightarrow> pool_lists al m is p1)"

definition get_file_regex_pool :: "alloc \<Rightarrow> mem \<Rightarrow> pool option" where
  "get_file_regex_pool al m =
     (if map_count m > MAX_PATTERN_COUNT then None else pool_lists al m [0..<map_count m] empty_pool)"

subsection \<open>The lookup by number\<close>

text \<open>The result is the offset of the patch.\<close>

fun find_in_list :: "nat \<Rightarrow> nat \<Rightarrow> nat list \<Rightarrow> nat \<Rightarrow> nat + nat" where
  "find_in_list match_id patches [] global_idx = Inr global_idx"
| "find_in_list match_id patches (k # ks) global_idx =
     (if global_idx = match_id then Inl (patches + 20 * k)
      else find_in_list match_id patches ks (global_idx + 1))"

fun find_in_lists :: "nat \<Rightarrow> mem \<Rightarrow> nat list \<Rightarrow> nat \<Rightarrow> nat option" where
  "find_in_lists match_id m [] global_idx = None"
| "find_in_lists match_id m (j # js) global_idx =
     (let l = values_off m + 12 * j in
      if rd32 m l = 0 then find_in_lists match_id m js global_idx
      else case find_in_list match_id (rdn m l) [0..<rdn m (l + 4)] global_idx of
             Inl patch \<Rightarrow> Some patch
           | Inr global_idx' \<Rightarrow> find_in_lists match_id m js global_idx')"

definition find_patch_by_id :: "mem \<Rightarrow> nat \<Rightarrow> nat option" where
  "find_patch_by_id m match_id = find_in_lists match_id m [0..<map_count m] 0"

definition populate_transform :: "alloc \<Rightarrow> mem \<Rightarrow> nat \<Rightarrow> transform list option" where
  "populate_transform al m patch =
     (if \<not> al (rdn m (patch + 12) * 8) then None
      else Some (map (\<lambda>t. (arena_str m (rdn m (patch + 8) + 8 * t), arena_str m (rdn m (patch + 8) + 8 * t + 4)))
                   [0..<rdn m (patch + 12)]))"

text \<open>A number without a patch leaves a null find pattern and no transforms.\<close>

fun transforms_by_id :: "alloc \<Rightarrow> mem \<Rightarrow> nat list \<Rightarrow> (string option \<times> transform list) list option" where
  "transforms_by_id al m [] = Some []"
| "transforms_by_id al m (i # is) =
     (case find_patch_by_id m i of
        None \<Rightarrow> map_option (Cons (None, [])) (transforms_by_id al m is)
      | Some patch \<Rightarrow>
          (case populate_transform al m patch of
             None \<Rightarrow> None
           | Some ts \<Rightarrow> map_option (Cons (Some (arena_str m (patch + 4)), ts)) (transforms_by_id al m is)))"

definition get_transform_from_matches :: "alloc \<Rightarrow> mem \<Rightarrow> nat list \<Rightarrow> (string option \<times> transform list) list option" where
  "get_transform_from_matches al m ids =
     (if \<not> al (8 * length ids) \<or> \<not> al (24 * length ids) then None else transforms_by_id al m ids)"

text \<open>The list that a scanner fills; it drops what does not fit.\<close>

record match_list =
  ml_ids :: "nat list"
  ml_froms :: "nat list"
  ml_tos :: "nat list"

definition empty_matches :: match_list where
  "empty_matches = \<lparr>ml_ids = [], ml_froms = [], ml_tos = []\<rparr>"

definition match_list_vecscan_handler :: "nat \<Rightarrow> nat \<Rightarrow> nat \<Rightarrow> nat \<Rightarrow> match_list \<Rightarrow> match_list" where
  "match_list_vecscan_handler cap i from to ml =
     (if length (ml_ids ml) < cap
      then \<lparr>ml_ids = ml_ids ml @ [i], ml_froms = ml_froms ml @ [from], ml_tos = ml_tos ml @ [to]\<rparr>
      else ml)"

subsection \<open>What the arena stands for\<close>

text \<open>All patches with their plugins, in the order of their numbers.\<close>

definition numbered :: "store \<Rightarrow> (string \<times> patch) list" where
  "numbered \<sigma> = concat (map (\<lambda>(key, ps). map (Pair key) ps) \<sigma>)"

definition pool_of :: "(string \<times> patch) list \<Rightarrow> pool \<Rightarrow> bool" where
  "pool_of xs p \<longleftrightarrow> file_pool p = map (\<lambda>x. fst (snd x)) xs \<and>
     plugin_map p = zip [0..<length xs] (map fst xs) \<and> length xs \<le> capacity p \<and> capacity p \<le> MAX_POOL_CAPACITY"

lemma safe_mul_u32_eq: "a * b < 2 ^ 32 \<Longrightarrow> safe_mul_u32 a b = Some (a * b)"
proof -
  assume ab: "a * b < 2 ^ 32"
  have "\<not> (b \<noteq> 0 \<and> a > (2 ^ 32 - 1) div b)"
    using ab by (cases "b = 0") (auto simp: not_less less_eq_div_iff_mult_less_eq)
  with ab show ?thesis by (simp add: safe_mul_u32_def)
qed

lemma safe_mul_size_eq: "a * b < 2 ^ 64 \<Longrightarrow> safe_mul_size a b = Some (a * b)"
proof -
  assume ab: "a * b < 2 ^ 64"
  have "\<not> (b \<noteq> 0 \<and> a > (2 ^ 64 - 1) div b)"
    using ab by (cases "b = 0") (auto simp: not_less less_eq_div_iff_mult_less_eq)
  with ab show ?thesis by (simp add: safe_mul_size_def)
qed

lemma safe_add_size_eq: "safe_add_size a b = (if a + b < 2 ^ 64 then Some (a + b) else None)"
  by (auto simp: safe_add_size_def)

subsection \<open>The pool\<close>

lemma resize_pools_room:
  assumes "\<forall>n. al n" "pool_of xs p" "length xs \<le> MAX_POOL_CAPACITY div 2" "length xs \<ge> capacity p"
  shows "\<exists>p1. resize_pools al p = Some p1 \<and> pool_of xs p1 \<and> length xs < capacity p1"
proof -
  have cap: "capacity p = length xs" using assms(2,4) by (simp add: pool_of_def)
  have "safe_mul_u32 (capacity p) 2 = Some (capacity p * 2)"
    by (rule safe_mul_u32_eq) (use cap assms(3) in \<open>simp add: limits\<close>)
  moreover have "safe_mul_size n 8 = Some (n * 8)" "safe_mul_size n 16 = Some (n * 16)" if "n \<le> MAX_POOL_CAPACITY" for n
    using that by (auto intro!: safe_mul_size_eq simp: limits)
  ultimately show ?thesis
    using assms(1-3) cap by (auto simp: resize_pools_def pool_of_def limits)
qed

lemma add_files_pool:
  assumes "\<forall>n. al n" "pool_of xs p" "length xs + length ps \<le> MAX_POOL_CAPACITY div 2"
  shows "\<exists>p'. add_files al plugin (map fst ps) p = Some p' \<and> pool_of (xs @ map (Pair plugin) ps) p'"
  using assms(2,3)
proof (induction ps arbitrary: xs p)
  case Nil
  then show ?case by auto
next
  case (Cons x ps)
  obtain p1 where p1: "(if length (file_pool p) \<ge> capacity p then resize_pools al p else Some p) = Some p1"
    "pool_of xs p1" "length xs < capacity p1"
    using resize_pools_room [OF assms(1) Cons.prems(1)] Cons.prems
    by (cases "length xs \<ge> capacity p") (auto simp: pool_of_def)
  have "pool_of (xs @ [(plugin, x)]) (add_file_entry (fst x) plugin p1)"
    using p1(2,3) by (auto simp: pool_of_def add_file_entry_def)
  then obtain p' where "add_files al plugin (map fst ps) (add_file_entry (fst x) plugin p1) = Some p'"
    "pool_of ((xs @ [(plugin, x)]) @ map (Pair plugin) ps) p'"
    using Cons.IH Cons.prems(2) by fastforce
  then show ?case using p1(1) Cons.prems by (auto simp: pool_of_def limits)
qed

lemma list_files:
  assumes "hdr_ok own m" "list_at own m i p ps"
  shows "map (\<lambda>j. arena_str m (rdn m p + 20 * j)) [0..<rdn m (p + 4)] = map fst ps"
  by (rule map_upt_eqI) (use assms arena_str_at [OF assms(1)] in \<open>auto simp: list_at_def arr_at_def patch_at_def\<close>)

lemma list_null:
  assumes "list_at own m i p ps" "rd32 m p = 0"
  shows "ps = []"
proof -
  have "rdn m p = 0" using assms(2) by simp
  then show ?thesis using assms(1) by (auto simp: list_at_def arr_at_def)
qed

lemma process_patch_list_pool:
  assumes "\<forall>n. al n" "hdr_ok own m" "list_at own m i l ps" "pool_of xs p"
    and "length xs + length ps \<le> MAX_PATTERN_COUNT"
  shows "\<exists>p'. process_patch_list al m l plugin p = Some p' \<and> pool_of (xs @ map (Pair plugin) ps) p'"
proof (cases "rd32 m l = 0")
  case True
  then show ?thesis using list_null [OF assms(3)] assms(4) by (simp add: process_patch_list_def)
next
  case False
  have "rdn m (l + 4) = length ps" using assms(3) by (simp add: list_at_def arr_at_def)
  then show ?thesis
    using False add_files_pool [OF assms(1,4), of ps plugin] assms(5) list_files [OF assms(2,3)]
    by (simp add: process_patch_list_def limits)
qed

lemma numbered_step:
  "i < length \<sigma> \<Longrightarrow> numbered (take (Suc i) \<sigma>) = numbered (take i \<sigma>) @ map (Pair (fst (\<sigma> ! i))) (snd (\<sigma> ! i))"
  by (simp add: take_Suc_conv_app_nth numbered_def case_prod_beta)

lemma numbered_split: "numbered \<sigma> = numbered (take i \<sigma>) @ numbered (drop i \<sigma>)"
  unfolding numbered_def by (metis append_take_drop_id concat_append map_append)

lemma pool_lists_pool:
  assumes "\<forall>n. al n" "rep own m \<sigma>" "i \<le> length \<sigma>" "pool_of (numbered (take i \<sigma>)) p"
    and "length (numbered \<sigma>) \<le> MAX_PATTERN_COUNT" "\<forall>e \<in> set \<sigma>. length (fst e) \<le> MAX_PLUGIN_NAME_LEN"
  shows "\<exists>p'. pool_lists al m [i..<length \<sigma>] p = Some p' \<and> pool_of (numbered \<sigma>) p'"
  using assms(3,4)
proof (induction "length \<sigma> - i" arbitrary: i p)
  case 0
  then show ?case by simp
next
  case (Suc n)
  then have i: "i < length \<sigma>" by simp
  have h: "hdr_ok own m" using assms(2) by (simp add: rep_def)
  have e: "str_at own m (rdn m (keys_off m + 4 * i)) (fst (\<sigma> ! i))" "list_at own m i (values_off m + 12 * i) (snd (\<sigma> ! i))"
    using assms(2) i by (simp_all add: rep_def entry_at_def)
  note nxt = numbered_step [OF i]
  from numbered_split [of \<sigma> "Suc i"] have "length (numbered (take i \<sigma>)) + length (snd (\<sigma> ! i)) \<le> MAX_PATTERN_COUNT"
    using assms(5) nxt by simp
  then obtain p1 where p1: "process_patch_list al m (values_off m + 12 * i) (fst (\<sigma> ! i)) p = Some p1"
    "pool_of (numbered (take (Suc i) \<sigma>)) p1"
    using process_patch_list_pool [OF assms(1) h e(2) Suc.prems(2)] nxt by auto
  have "\<exists>p'. pool_lists al m [Suc i..<length \<sigma>] p1 = Some p' \<and> pool_of (numbered \<sigma>) p'"
    by (rule Suc.hyps(1)) (use Suc.hyps(2) i p1(2) in auto)
  moreover have "length (fst (\<sigma> ! i)) \<le> MAX_PLUGIN_NAME_LEN" using assms(6) i by simp
  ultimately show ?case
    using p1(1) arena_str_at [OF h e(1)] i by (simp add: upt_conv_Cons Let_def)
qed

text \<open>Every patch takes 20 bytes of the arena that no other patch takes.\<close>

lemma number_of_patches:
  assumes "rep own m \<sigma>"
  shows "20 * length (numbered \<sigma>) \<le> unat (arena_used m)"
proof -
  have h: "hdr_ok own m" using assms by (simp add: rep_def)
  let ?S = "\<lambda>i. {x. x < unat (arena_used m) \<and> own x = Pats i}"
  have one: "20 * length (snd (\<sigma> ! i)) \<le> card (?S i)" if i: "i < length \<sigma>" for i
  proof -
    let ?p = "values_off m + 12 * i"
    have la: "length (snd (\<sigma> ! i)) \<le> rdn m (?p + 8)" "tagged own (Pats i) (rdn m ?p) (20 * rdn m (?p + 8))"
      using assms i by (simp_all add: rep_def entry_at_def list_at_def arr_at_def)
    have "{rdn m ?p..<rdn m ?p + 20 * rdn m (?p + 8)} \<subseteq> ?S i"
    proof (cases "rdn m (?p + 8) = 0")
      case False
      then have "rdn m ?p + 20 * rdn m (?p + 8) \<le> unat (arena_used m)" using range_of_tag [OF h la(2)] by simp
      then show ?thesis using taggedD [OF la(2)] by auto
    qed simp
    then have "card {rdn m ?p..<rdn m ?p + 20 * rdn m (?p + 8)} \<le> card (?S i)" by (intro card_mono) auto
    with la(1) show ?thesis by simp
  qed
  have "20 * length (numbered \<sigma>) = (\<Sum>i<length \<sigma>. 20 * length (snd (\<sigma> ! i)))"
    by (simp add: numbered_def length_concat comp_def case_prod_beta sum_list_sum_nth sum_distrib_left atLeast0LessThan)
  also have "\<dots> \<le> (\<Sum>i<length \<sigma>. card (?S i))" by (intro sum_mono one) simp
  also have "\<dots> = card (\<Union>i<length \<sigma>. ?S i)" by (intro card_UN_disjoint [symmetric]) auto
  also have "\<dots> \<le> card {..<unat (arena_used m)}" by (intro card_mono) auto
  finally show ?thesis by simp
qed

lemma get_file_regex_pool_at:
  assumes "\<forall>n. al n" "rep own m \<sigma>" "unat (arena_size m) \<le> 2 ^ 20" "\<forall>e \<in> set \<sigma>. length (fst e) \<le> MAX_PLUGIN_NAME_LEN"
  shows "\<exists>p. get_file_regex_pool al m = Some p \<and> pool_of (numbered \<sigma>) p"
proof -
  have h: "hdr_ok own m" and t: "table_ok own m (length \<sigma>)" using assms(2) by (simp_all add: rep_def)
  have u: "unat (arena_used m) \<le> 2 ^ 20" using h assms(3) by (simp add: hdr_ok_def)
  then have n: "length (numbered \<sigma>) \<le> MAX_PATTERN_COUNT"
    using number_of_patches [OF assms(2)] by (simp add: limits)
  have "values_off m + 12 * map_capacity m \<le> unat (arena_used m)"
    using range_of_tag [OF h, of Vals "values_off m" "12 * map_capacity m"] t by (simp add: table_ok_def)
  then have c: "map_count m = length \<sigma>" "12 * length \<sigma> \<le> 2 ^ 20" using t u by (simp_all add: table_ok_def)
  have "\<exists>p. pool_lists al m [0..<length \<sigma>] empty_pool = Some p \<and> pool_of (numbered \<sigma>) p"
    by (rule pool_lists_pool [OF assms(1,2)]) (use n assms(4) in \<open>simp_all add: pool_of_def numbered_def empty_pool_def\<close>)
  then show ?thesis using c by (simp add: get_file_regex_pool_def limits)
qed

subsection \<open>The lookup\<close>

lemma find_in_list_upt:
  "k \<le> n \<Longrightarrow> g \<le> match_id \<Longrightarrow> find_in_list match_id patches [k..<n] g =
     (if match_id < g + (n - k) then Inl (patches + 20 * (k + (match_id - g))) else Inr (g + (n - k)))"
proof (induction "n - k" arbitrary: k g)
  case 0
  then show ?case by simp
next
  case (Suc d)
  then have k: "k < n" by simp
  show ?case
  proof (cases "g = match_id")
    case True
    then show ?thesis using k by (simp add: upt_conv_Cons)
  next
    case False
    have "find_in_list match_id patches [Suc k..<n] (g + 1) =
        (if match_id < g + 1 + (n - Suc k) then Inl (patches + 20 * (Suc k + (match_id - (g + 1)))) else Inr (g + 1 + (n - Suc k)))"
      by (rule Suc.hyps(1)) (use Suc k False in auto)
    then show ?thesis using False Suc.prems k by (auto simp: upt_conv_Cons)
  qed
qed

lemma find_in_lists_at:
  assumes "rep own m \<sigma>" "i \<le> length \<sigma>" "length (numbered (take i \<sigma>)) \<le> n" "n < length (numbered \<sigma>)"
  shows "\<exists>a j k. find_in_lists n m [i..<length \<sigma>] (length (numbered (take i \<sigma>))) = Some a \<and>
    patch_at own m j k a (snd (numbered \<sigma> ! n))"
  using assms(2,3)
proof (induction "length \<sigma> - i" arbitrary: i)
  case 0
  then show ?case using assms(4) by simp
next
  case (Suc d)
  let ?g = "length (numbered (take i \<sigma>))" and ?p = "values_off m + 12 * i" and ?ps = "snd (\<sigma> ! i)"
  have i: "i < length \<sigma>" using Suc.hyps(2) by simp
  have la: "list_at own m i ?p ?ps" using assms(1) i by (simp add: rep_def entry_at_def)
  then have cnt: "rdn m (?p + 4) = length ?ps" by (simp add: list_at_def arr_at_def)
  have g': "length (numbered (take (Suc i) \<sigma>)) = ?g + length ?ps" using numbered_step [OF i] by simp
  have rest: "\<exists>a j k. find_in_lists n m [Suc i..<length \<sigma>] (?g + length ?ps) = Some a \<and>
      patch_at own m j k a (snd (numbered \<sigma> ! n))" if "?g + length ?ps \<le> n"
    using Suc.hyps(1) [of "Suc i"] Suc.hyps(2) i that unfolding g' by simp
  show ?case
  proof (cases "rd32 m ?p = 0")
    case True
    then show ?thesis using rest list_null [OF la] Suc.prems(2) i by (simp add: upt_conv_Cons)
  next
    case False
    have scan: "find_in_list n (rdn m ?p) [0..<length ?ps] ?g =
        (if n < ?g + length ?ps then Inl (rdn m ?p + 20 * (n - ?g)) else Inr (?g + length ?ps))"
      using find_in_list_upt [of 0 "length ?ps" ?g n] Suc.prems(2) by simp
    show ?thesis
    proof (cases "n < ?g + length ?ps")
      case True
      have "numbered \<sigma> ! n = numbered (take (Suc i) \<sigma>) ! n"
        using True g' numbered_split [of \<sigma> "Suc i"] by (simp add: nth_append)
      also have "\<dots> = (fst (\<sigma> ! i), ?ps ! (n - ?g))"
        using True Suc.prems(2) numbered_step [OF i] by (simp add: nth_append)
      finally have "patch_at own m i (n - ?g) (rdn m ?p + 20 * (n - ?g)) (snd (numbered \<sigma> ! n))"
        using la True Suc.prems(2) by (simp add: list_at_def arr_at_def)
      then show ?thesis using True False scan cnt i by (auto simp: upt_conv_Cons)
    next
      case n: False
      then show ?thesis using False scan cnt i rest by (simp add: upt_conv_Cons)
    qed
  qed
qed

lemma find_patch_at:
  assumes "rep own m \<sigma>" "n < length (numbered \<sigma>)"
  obtains a j k where "find_patch_by_id m n = Some a" "patch_at own m j k a (snd (numbered \<sigma> ! n))"
proof -
  have "map_count m = length \<sigma>" using assms(1) by (simp add: rep_def table_ok_def)
  then show ?thesis
    using find_in_lists_at [OF assms(1), of 0 n] assms(2) that by (auto simp: find_patch_by_id_def numbered_def)
qed

lemma populate_at:
  assumes "\<forall>n. al n" "hdr_ok own m" "patch_at own m i j a x"
  shows "populate_transform al m a = Some (snd (snd x))" "arena_str m (a + 4) = fst (snd x)" "arena_str m a = fst x"
proof -
  have "map (\<lambda>t. (arena_str m (rdn m (a + 8) + 8 * t), arena_str m (rdn m (a + 8) + 8 * t + 4))) [0..<rdn m (a + 12)] = snd (snd x)"
  proof (rule map_upt_eqI)
    show "length (snd (snd x)) = rdn m (a + 12)" using assms(3) by (simp add: patch_at_def arr_at_def add.assoc)
    show "(arena_str m (rdn m (a + 8) + 8 * k), arena_str m (rdn m (a + 8) + 8 * k + 4)) = snd (snd x) ! k"
      if "k < rdn m (a + 12)" for k
    proof -
      have "trans_at own m (rdn m (a + 8) + 8 * k) (snd (snd x) ! k)"
        using assms(3) that by (simp add: patch_at_def arr_at_def add.assoc)
      then show ?thesis using arena_str_at [OF assms(2)] by (cases "snd (snd x) ! k") (simp add: trans_at_def)
    qed
  qed
  then show "populate_transform al m a = Some (snd (snd x))" using assms(1) by (simp add: populate_transform_def)
  show "arena_str m (a + 4) = fst (snd x)" "arena_str m a = fst x"
    using assms(3) arena_str_at [OF assms(2)] by (simp_all add: patch_at_def)
qed

definition looked_up :: "store \<Rightarrow> nat \<Rightarrow> string option \<times> transform list" where
  "looked_up \<sigma> n = (Some (fst (snd (snd (numbered \<sigma> ! n)))), snd (snd (snd (numbered \<sigma> ! n))))"

lemma get_transforms_at:
  assumes "\<forall>n. al n" "rep own m \<sigma>" "\<forall>n \<in> set ids. n < length (numbered \<sigma>)"
  shows "get_transform_from_matches al m ids = Some (map (looked_up \<sigma>) ids)"
proof -
  have h: "hdr_ok own m" using assms(2) by (simp add: rep_def)
  have "transforms_by_id al m ids = Some (map (looked_up \<sigma>) ids)"
    using assms(3)
  proof (induction ids)
    case (Cons n ids)
    then obtain a j k where "find_patch_by_id m n = Some a" "patch_at own m j k a (snd (numbered \<sigma> ! n))"
      using find_patch_at [OF assms(2), of n] by auto
    with Cons show ?case using populate_at(1,2) [OF assms(1) h] by (simp add: looked_up_def)
  qed simp
  with assms(1) show ?thesis by (simp add: get_transform_from_matches_def)
qed

end
