(* ===== verification/ResourceTransformer.thy ===== *)
theory ResourceTransformer
  imports ResourceMatcher "HOL-Library.Multiset" "HOL-Library.List_Lexorder" "HOL-Library.Char_ord"
begin

text \<open>
  Patching a file on its way to the browser, \<^verbatim>\<open>src/instrumentation/loopback/resource_transformer.cc\<close>.

  The regular expressions are those of the library RE2, which is not part of the repository: \<open>re2\<close>
  holds the functions the code calls, and \<open>re2_ok\<close> what their documentation promises.  \<open>srt\<close> is
  \<^verbatim>\<open>std::sort\<close>, which is not stable: it may return any sorted arrangement.  A text is a list of bytes.
\<close>

subsection \<open>The libraries\<close>

text \<open>\<open>re_ok p\<close>: the pattern compiles; \<open>set_compile ps\<close>: the set of patterns compiles; \<open>set_match ps text\<close>: the
  numbers of the patterns that match somewhere; \<open>re_match p text\<close>: offset and length of the leftmost
  match; \<open>global_replace p rewrite text\<close>: the text with all matches rewritten, and their number.\<close>

record re2 =
  re_ok :: "string \<Rightarrow> bool"
  set_compile :: "string list \<Rightarrow> bool"
  set_match :: "string list \<Rightarrow> string \<Rightarrow> int list"
  re_match :: "string \<Rightarrow> string \<Rightarrow> (int \<times> nat) option"
  global_replace :: "string \<Rightarrow> string \<Rightarrow> string \<Rightarrow> string \<times> nat"

definition re2_ok :: "re2 \<Rightarrow> bool" where
  "re2_ok R \<longleftrightarrow>
     (\<forall>p text off len. re_match R p text = Some (off, len) \<longrightarrow> 0 \<le> off \<and> nat off + len \<le> length text) \<and>
     (\<forall>ps text. distinct (set_match R ps text) \<and>
        set (set_match R ps text) = {int i |i. i < length ps \<and> re_match R (ps ! i) text \<noteq> None})"

type_synonym sorter = "(nat \<Rightarrow> nat \<Rightarrow> bool) \<Rightarrow> nat list \<Rightarrow> nat list"

definition sorter_ok :: "sorter \<Rightarrow> bool" where
  "sorter_ok srt \<longleftrightarrow> (\<forall>less xs. mset (srt less xs) = mset xs \<and>
     (transp less \<and> (\<forall>x. \<not> less x x) \<and> (\<forall>x y z. \<not> less x y \<and> \<not> less y z \<longrightarrow> \<not> less x z) \<longrightarrow>
        sorted_wrt (\<lambda>x y. \<not> less y x) (srt less xs)))"

subsection \<open>Replacements\<close>

definition placeholder :: string where "placeholder = ''#{{self}}''"

definition preprocess_replacement :: "alloc \<Rightarrow> string \<Rightarrow> string \<Rightarrow> string option" where
  "preprocess_replacement al replacement plugin =
     (if length plugin > MAX_PLUGIN_NAME_LEN then None
      else case find_str placeholder replacement of
             None \<Rightarrow> if al (length replacement + 1) then Some replacement else None
           | Some prefix_len \<Rightarrow>
               (let suffix = drop (prefix_len + length placeholder) replacement;
                    substitute = ''window.PLUGIN_LIST['' @ [CHR 0x27] @ plugin @ [CHR 0x27] @ '']'' in
                case safe_add_size 22 (length plugin) of
                  None \<Rightarrow> None
                | Some substitute_len \<Rightarrow>
                    if substitute_len > 8192 \<or> \<not> al (substitute_len + 1) then None
                    else case safe_add_size prefix_len substitute_len of
                           None \<Rightarrow> None
                         | Some n \<Rightarrow> (case safe_add_size n (length suffix) of
                             None \<Rightarrow> None
                           | Some n' \<Rightarrow> (case safe_add_size n' 1 of
                               None \<Rightarrow> None
                             | Some total_len \<Rightarrow>
                                 if al total_len then Some (take prefix_len replacement @ substitute @ suffix) else None))))"

subsection \<open>Matching\<close>

text \<open>The bounds that are kept of a match.\<close>

definition clamp :: "nat \<Rightarrow> int \<times> nat \<Rightarrow> (nat \<times> nat) option" where
  "clamp limit mt =
     (if fst mt < 0 \<or> fst mt > int limit then None
      else Some (nat (fst mt),
        (case safe_add_size (nat (fst mt)) (snd mt) of
           None \<Rightarrow> limit
         | Some end_offset \<Rightarrow> if end_offset \<le> limit then end_offset else limit)))"

definition match_bounds :: "re2 \<Rightarrow> string \<Rightarrow> string \<Rightarrow> nat \<times> nat" where
  "match_bounds R pattern text =
     (case re_match R pattern text of
        None \<Rightarrow> (0, 0)
      | Some mt \<Rightarrow> (case clamp (length text) mt of None \<Rightarrow> (0, 0) | Some b \<Rightarrow> b))"

definition re2_multi_match :: "alloc \<Rightarrow> re2 \<Rightarrow> string option list \<Rightarrow> string \<Rightarrow> match_list option" where
  "re2_multi_match al R patterns text =
     (if length text > MAX_FILE_SIZE then None
      else if patterns = [] then Some empty_matches
      else if length patterns > MAX_PATTERN_COUNT then None
      else if list_ex (\<lambda>p. p = None \<or> \<not> re_ok R (the p)) patterns then None
      else let ps = map the patterns in
        if \<not> set_compile R ps then None
        else let match_ids = set_match R ps text in
          if match_ids = [] then Some empty_matches
          else if length match_ids > MAX_PATTERN_COUNT then None
          else if \<not> al (4 * length match_ids) \<or> \<not> al (8 * length match_ids) then None
          else if list_ex (\<lambda>i. i < 0 \<or> nat i \<ge> length ps) match_ids then None
          else let ids = map nat match_ids in
            Some \<lparr>ml_ids = ids,
                  ml_froms = map (\<lambda>i. fst (match_bounds R (ps ! i) text)) ids,
                  ml_tos = map (\<lambda>i. snd (match_bounds R (ps ! i) text)) ids\<rparr>)"

definition re2_find_in_buffer :: "re2 \<Rightarrow> string \<Rightarrow> string \<Rightarrow> (nat \<times> nat) option" where
  "re2_find_in_buffer R pattern buffer =
     (if length buffer > MAX_FILE_SIZE \<or> \<not> re_ok R pattern then None
      else case re_match R pattern buffer of
             None \<Rightarrow> None
           | Some mt \<Rightarrow> clamp (length buffer) mt)"

subsection \<open>Substitution\<close>

definition apply_scoped_substitution :: "alloc \<Rightarrow> re2 \<Rightarrow> string \<Rightarrow> string \<Rightarrow> nat \<Rightarrow> nat \<Rightarrow> string \<Rightarrow> string option" where
  "apply_scoped_substitution al R pattern input from to replacement =
     (if \<not> re_ok R pattern then None
      else if from > to \<or> to > length input \<or> length input > MAX_FILE_SIZE then None
      else let (region, n_subst) = global_replace R pattern replacement (take (to - from) (drop from input)) in
        if n_subst = 0 then None
        else let suffix_len = length input - to in
          case safe_add_size from (length region) of
            None \<Rightarrow> None
          | Some n \<Rightarrow> (case safe_add_size n suffix_len of
              None \<Rightarrow> None
            | Some new_total \<Rightarrow>
                if new_total > MAX_FILE_SIZE \<or> \<not> al new_total then None
                else Some (take from input @ region @ drop to input)))"

text \<open>The bounds are 64-bit unsigned; the end of the region moves by the difference of the sizes.\<close>

fun apply_transform_set_scoped :: "alloc \<Rightarrow> re2 \<Rightarrow> string \<Rightarrow> transform list \<Rightarrow> string \<Rightarrow> nat \<Rightarrow> nat \<Rightarrow> string" where
  "apply_transform_set_scoped al R plugin [] buffer from to = buffer"
| "apply_transform_set_scoped al R plugin ((mt, rp) # ts) buffer from to =
     (case preprocess_replacement al rp plugin of
        None \<Rightarrow> apply_transform_set_scoped al R plugin ts buffer from to
      | Some processed \<Rightarrow>
          if \<not> re_ok R mt then apply_transform_set_scoped al R plugin ts buffer from to
          else case apply_scoped_substitution al R mt buffer from to processed of
                 None \<Rightarrow> apply_transform_set_scoped al R plugin ts buffer from to
               | Some new_buffer \<Rightarrow>
                   (let delta = int (length new_buffer) - int (length buffer) in
                    apply_transform_set_scoped al R plugin ts new_buffer from (nat ((int to + delta) mod 2 ^ 64))))"

subsection \<open>Conflicts\<close>

text \<open>What \<^verbatim>\<open>detect_and_log_conflicts\<close> logs: the two plugins in the order of the matches, and the one that
  patches first.\<close>

definition conflict_pairs :: "match_list \<Rightarrow> (nat \<times> nat) list" where
  "conflict_pairs ob = concat (map (\<lambda>i. map (Pair i) [i + 1..<length (ml_ids ob)]) [0..<length (ml_ids ob)])"

definition detect_and_log_conflicts ::
    "alloc \<Rightarrow> re2 \<Rightarrow> string option list \<Rightarrow> nat list \<Rightarrow> (nat \<times> string) list \<Rightarrow> string \<Rightarrow> (string \<times> string \<times> string) list" where
  "detect_and_log_conflicts al R finds ids pmap content =
     (if finds = [] then []
      else case re2_multi_match al R finds content of
             None \<Rightarrow> []
           | Some ob \<Rightarrow>
               concat (map (\<lambda>(i, j).
                 let idx_i = ml_ids ob ! i; idx_j = ml_ids ob ! j in
                 if idx_i \<ge> length finds \<or> idx_j \<ge> length finds then []
                 else if idx_i \<ge> length ids \<or> idx_j \<ge> length ids then []
                 else let plugin_i = snd (pmap ! (ids ! idx_i)); plugin_j = snd (pmap ! (ids ! idx_j)) in
                   if plugin_i = plugin_j then []
                   else if ml_froms ob ! i < ml_tos ob ! j \<and> ml_froms ob ! j < ml_tos ob ! i
                        then [(plugin_i, plugin_j, if plugin_i < plugin_j then plugin_i else plugin_j)]
                        else [])
                 (conflict_pairs ob)))"

subsection \<open>Patching a file\<close>

text \<open>One patch: its find pattern is searched in the current text, and its transforms work on the part
  that was found.\<close>

definition apply_patch :: "alloc \<Rightarrow> re2 \<Rightarrow> string \<Rightarrow> string option \<times> transform list \<Rightarrow> string \<Rightarrow> string" where
  "apply_patch al R plugin x buffer =
     (case fst x of
        None \<Rightarrow> buffer
      | Some fnd \<Rightarrow>
          if fnd = [] then buffer
          else case re2_find_in_buffer R fnd buffer of
                 None \<Rightarrow> buffer
               | Some (from, to) \<Rightarrow> apply_transform_set_scoped al R plugin (snd x) buffer from to)"

definition handle_file_patches ::
    "alloc \<Rightarrow> re2 \<Rightarrow> sorter \<Rightarrow> mem \<Rightarrow> nat list \<Rightarrow> (nat \<times> string) list \<Rightarrow> string \<Rightarrow> string option" where
  "handle_file_patches al R srt m ids pmap content =
     (if length content > MAX_FILE_SIZE then None
      else case get_transform_from_matches al m ids of
             None \<Rightarrow> None
           | Some xs \<Rightarrow>
               if \<not> al (length content) then None
               else let name = (\<lambda>i. snd (pmap ! (ids ! i)));
                        sorted = srt (\<lambda>a b. name a < name b) [0..<length ids] in
                 Some (fold (\<lambda>si. apply_patch al R (name si) (xs ! si)) sorted content))"

text \<open>The result code and the text that is delivered.\<close>

definition find_file_matches :: "alloc \<Rightarrow> re2 \<Rightarrow> sorter \<Rightarrow> mem option \<Rightarrow> string \<Rightarrow> int \<times> string" where
  "find_file_matches al R srt arena content =
     (if length content > MAX_FILE_SIZE then (-1, content)
      else case arena of
             None \<Rightarrow> (-1, content)
           | Some m \<Rightarrow>
               (case get_file_regex_pool al m of
                  None \<Rightarrow> (-1, content)
                | Some p \<Rightarrow>
                    if file_pool p = [] then (0, content)
                    else case re2_multi_match al R (map Some (file_pool p)) content of
                           None \<Rightarrow> (-1, content)
                         | Some ml \<Rightarrow>
                             if ml_ids ml = [] then (0, content)
                             else case handle_file_patches al R srt m (ml_ids ml) (plugin_map p) content of
                                    None \<Rightarrow> (-1, content)
                                  | Some out_data \<Rightarrow> (0, out_data)))"

subsection \<open>The specification\<close>

text \<open>The transforms of a patch, on the text that was found; \<open>outside\<close> is the size of the rest.  A transform
  that cannot be applied is skipped.\<close>

definition region_step :: "alloc \<Rightarrow> re2 \<Rightarrow> string \<Rightarrow> nat \<Rightarrow> string \<Rightarrow> transform \<Rightarrow> string" where
  "region_step al R plugin outside region t =
     (case preprocess_replacement al (snd t) plugin of
        None \<Rightarrow> region
      | Some processed \<Rightarrow>
          if \<not> re_ok R (fst t) then region
          else let (region', n_subst) = global_replace R (fst t) processed region in
            if n_subst = 0 \<or> outside + length region' > MAX_FILE_SIZE \<or> \<not> al (outside + length region') then region
            else region')"

definition patched :: "alloc \<Rightarrow> re2 \<Rightarrow> string \<times> patch \<Rightarrow> string \<Rightarrow> string" where
  "patched al R x text =
     (let fnd = fst (snd (snd x)) in
      if fnd = [] \<or> \<not> re_ok R fnd then text
      else case re_match R fnd text of
             None \<Rightarrow> text
           | Some (off, len) \<Rightarrow>
               take (nat off) text @
               foldl (region_step al R (fst x) (length text - len)) (take len (drop (nat off) text)) (snd (snd (snd x))) @
               drop (nat off + len) text)"

subsection \<open>Substitution stays inside the region\<close>

lemma scoped_substitution:
  assumes "from \<le> to" "to \<le> length input" "length input \<le> MAX_FILE_SIZE" "re_ok R pattern"
    and "global_replace R pattern replacement (take (to - from) (drop from input)) = (region, n_subst)"
  shows "apply_scoped_substitution al R pattern input from to replacement =
    (let total = length input - (to - from) + length region in
     if n_subst = 0 \<or> total > MAX_FILE_SIZE \<or> \<not> al total then None
     else Some (take from input @ region @ drop to input))"
proof -
  have t: "from + length region + (length input - to) = length input - (to - from) + length region"
    using assms(1,2) by simp
  show ?thesis
    using assms unfolding apply_scoped_substitution_def Let_def t [symmetric]
    by (auto simp: safe_add_size_eq limits)
qed

lemma transforms_scoped:
  assumes "from \<le> to" "to \<le> length buffer" "length buffer \<le> MAX_FILE_SIZE"
  shows "apply_transform_set_scoped al R plugin ts buffer from to =
    take from buffer @
    foldl (region_step al R plugin (length buffer - (to - from))) (take (to - from) (drop from buffer)) ts @
    drop to buffer"
  using assms
proof (induction ts arbitrary: buffer to)
  case Nil
  then have "buffer = take from buffer @ drop from (take to buffer) @ drop to buffer"
    by (metis append_assoc append_take_drop_id min.absorb1 take_drop take_take le_add_diff_inverse drop_take)
  then show ?case by (simp add: drop_take)
next
  case (Cons t ts)
  obtain mt rp where t: "t = (mt, rp)" by (cases t)
  let ?region = "take (to - from) (drop from buffer)" and ?out = "length buffer - (to - from)"
  note IH = Cons.IH [OF Cons.prems]
  show ?case
  proof (cases "preprocess_replacement al rp plugin")
    case None
    then show ?thesis using IH t by (simp add: region_step_def)
  next
    case (Some processed)
    show ?thesis
    proof (cases "re_ok R mt")
      case False
      then show ?thesis using IH t Some by (simp add: region_step_def)
    next
      case True
      obtain region' n_subst where g: "global_replace R mt processed ?region = (region', n_subst)" by fastforce
      note sub = scoped_substitution [OF Cons.prems True g, of al]
      show ?thesis
      proof (cases "n_subst = 0 \<or> ?out + length region' > MAX_FILE_SIZE \<or> \<not> al (?out + length region')")
        case True
        then show ?thesis using IH t Some g sub \<open>re_ok R mt\<close> by (auto simp: region_step_def Let_def)
      next
        case False
        let ?new = "take from buffer @ region' @ drop to buffer" and ?to = "from + length region'"
        have len: "length ?new = ?out + length region'" using Cons.prems by simp
        have "int to + (int (length ?new) - int (length buffer)) = int ?to" using Cons.prems by simp
        moreover have "?to < 2 ^ 64"
          using False Cons.prems by (auto simp: limits not_less le_diff_conv)
        ultimately have to: "nat ((int to + (int (length ?new) - int (length buffer))) mod 2 ^ 64) = ?to" by simp
        have "apply_transform_set_scoped al R plugin ts ?new from ?to =
            take from buffer @ foldl (region_step al R plugin ?out) region' ts @ drop to buffer"
          using Cons.IH [of ?to ?new] False len Cons.prems by (simp add: add.commute)
        moreover have "apply_transform_set_scoped al R plugin (t # ts) buffer from to =
            apply_transform_set_scoped al R plugin ts ?new from ?to"
          using False t Some sub \<open>re_ok R mt\<close> to by (simp add: Let_def)
        moreover have "region_step al R plugin ?out ?region t = region'"
          using False t Some g \<open>re_ok R mt\<close> by (simp add: region_step_def)
        ultimately show ?thesis by simp
      qed
    qed
  qed
qed

lemma region_step_size: "outside + length region \<le> MAX_FILE_SIZE \<Longrightarrow>
    outside + length (region_step al R plugin outside region t) \<le> MAX_FILE_SIZE"
  by (auto simp: region_step_def Let_def split: option.splits prod.splits)

lemma region_steps_size: "outside + length region \<le> MAX_FILE_SIZE \<Longrightarrow>
    outside + length (foldl (region_step al R plugin outside) region ts) \<le> MAX_FILE_SIZE"
  by (induction ts arbitrary: region) (simp_all add: region_step_size)

lemma match_in_text:
  "re2_ok R \<Longrightarrow> re_match R p body = Some (off, len) \<Longrightarrow> 0 \<le> off \<and> nat off + len \<le> length body"
  by (auto simp: re2_ok_def)

lemma clamp_match:
  assumes "re2_ok R" "re_match R p body = Some (off, len)" "length body \<le> MAX_FILE_SIZE"
  shows "clamp (length body) (off, len) = Some (nat off, nat off + len)"
proof -
  have "0 \<le> off" "nat off + len \<le> length body" "off \<le> int (length body)"
    using match_in_text [OF assms(1,2)] by auto
  moreover from this have "nat off + len < 2 ^ 64" using assms(3) by (simp add: limits)
  ultimately show ?thesis by (simp add: clamp_def safe_add_size_eq)
qed

lemma patched_size:
  assumes "re2_ok R" "length body \<le> MAX_FILE_SIZE"
  shows "length (patched al R x body) \<le> MAX_FILE_SIZE"
proof (cases "fst (snd (snd x)) = [] \<or> \<not> re_ok R (fst (snd (snd x))) \<or> re_match R (fst (snd (snd x))) body = None")
  case True
  then show ?thesis using assms(2) by (auto simp: patched_def Let_def)
next
  case False
  then obtain off len where m: "re_match R (fst (snd (snd x))) body = Some (off, len)" by auto
  note b = match_in_text [OF assms(1) m]
  have "length body - len + length (foldl (region_step al R (fst x) (length body - len)) (take len (drop (nat off) body)) (snd (snd (snd x))))
      \<le> MAX_FILE_SIZE"
    by (rule region_steps_size) (use b assms(2) in simp)
  then show ?thesis using False m b by (simp add: patched_def Let_def)
qed

lemma apply_patch_patched:
  assumes "re2_ok R" "length body \<le> MAX_FILE_SIZE"
  shows "apply_patch al R plugin (Some fnd, ts) body = patched al R (plugin, fl, fnd, ts) body"
proof (cases "fnd = [] \<or> \<not> re_ok R fnd \<or> re_match R fnd body = None")
  case True
  then show ?thesis using assms(2) by (auto simp: patched_def Let_def apply_patch_def re2_find_in_buffer_def)
next
  case False
  then obtain off len where m: "re_match R fnd body = Some (off, len)" by auto
  note b = match_in_text [OF assms(1) m]
  have "re2_find_in_buffer R fnd body = Some (nat off, nat off + len)"
    using False m clamp_match [OF assms(1) m assms(2)] assms(2) by (simp add: re2_find_in_buffer_def)
  then show ?thesis
    using False m b transforms_scoped [of "nat off" "nat off + len" body al R plugin ts] assms(2)
    by (simp add: patched_def apply_patch_def Let_def)
qed

lemma fold_patches:
  assumes "re2_ok R" "length body \<le> MAX_FILE_SIZE"
    and "\<And>si. si \<in> set order \<Longrightarrow> snd (pmap ! (ids ! si)) = fst (ns ! (ids ! si))"
    and "\<And>si. si \<in> set order \<Longrightarrow> xs ! si = (Some (fst (snd (snd (ns ! (ids ! si))))), snd (snd (snd (ns ! (ids ! si)))))"
  shows "fold (\<lambda>si. apply_patch al R (snd (pmap ! (ids ! si))) (xs ! si)) order body =
    fold (patched al R) (map (\<lambda>si. ns ! (ids ! si)) order) body"
  using assms(2-4)
proof (induction order arbitrary: body)
  case (Cons si order)
  obtain plugin fl fnd ts where n: "ns ! (ids ! si) = (plugin, fl, fnd, ts)" by (metis prod.collapse)
  then have "apply_patch al R (snd (pmap ! (ids ! si))) (xs ! si) body = patched al R (ns ! (ids ! si)) body"
    using Cons.prems(2,3) [of si] apply_patch_patched [OF assms(1) Cons.prems(1)] by simp
  moreover have "length (patched al R (ns ! (ids ! si)) body) \<le> MAX_FILE_SIZE"
    by (rule patched_size [OF assms(1) Cons.prems(1)])
  ultimately show ?case using Cons by simp
qed simp

subsection \<open>The order of the patches\<close>

lemma sorter_names:
  assumes "sorter_ok srt"
  shows "mset (srt (\<lambda>a b. name a < name b) xs) = mset xs" "sorted (map (name :: nat \<Rightarrow> string) (srt (\<lambda>a b. name a < name b) xs))"
proof -
  let ?less = "\<lambda>a b. name a < name b"
  have "transp ?less \<and> (\<forall>x. \<not> ?less x x) \<and> (\<forall>x y z. \<not> ?less x y \<and> \<not> ?less y z \<longrightarrow> \<not> ?less x z)"
    by (auto simp: transp_def not_less)
  moreover have o: "mset (srt ?less xs) = mset xs \<and>
      (transp ?less \<and> (\<forall>x. \<not> ?less x x) \<and> (\<forall>x y z. \<not> ?less x y \<and> \<not> ?less y z \<longrightarrow> \<not> ?less x z) \<longrightarrow>
        sorted_wrt (\<lambda>x y. \<not> ?less y x) (srt ?less xs))"
    by (rule assms [unfolded sorter_ok_def, THEN spec, THEN spec])
  ultimately have "sorted_wrt (\<lambda>x y. \<not> ?less y x) (srt ?less xs)" by (rule mp [rotated, OF _ conjunct2])
  then show "sorted (map name (srt ?less xs))"
    by (simp add: sorted_wrt_map not_less)
  show "mset (srt ?less xs) = mset xs" by (rule conjunct1 [OF o])
qed

lemma filter_by_index: "map (nth xs) (filter (\<lambda>i. P (xs ! i)) [0..<length xs]) = filter P xs"
proof -
  have "filter P xs = filter P (map (nth xs) [0..<length xs])" by (simp add: map_nth)
  also have "\<dots> = map (nth xs) (filter (\<lambda>i. P (xs ! i)) [0..<length xs])" by (simp only: filter_map comp_def)
  finally show ?thesis by simp
qed

lemma matching_ids:
  assumes "re2_ok R"
  shows "mset (map (nth xs) (map nat (set_match R (map f xs) body))) = mset (filter (\<lambda>x. re_match R (f x) body \<noteq> None) xs)"
proof -
  let ?P = "\<lambda>i. re_match R (f (xs ! i)) body \<noteq> None" and ?ids = "map nat (set_match R (map f xs) body)"
  have s: "set (set_match R (map f xs) body) = {int i |i. i < length xs \<and> ?P i}" "distinct (set_match R (map f xs) body)"
    using assms by (auto simp: re2_ok_def)
  have "set ?ids = set (filter ?P [0..<length xs])" unfolding set_map s(1) by force
  moreover have "inj_on nat (set (set_match R (map f xs) body))" unfolding s(1) by (auto simp: inj_on_def)
  then have "distinct ?ids" using s(2) by (simp add: distinct_map)
  ultimately have "mset ?ids = mset (filter ?P [0..<length xs])"
    by (intro iffD1 [OF set_eq_iff_mset_eq_distinct]) simp_all
  from arg_cong [OF this, of "image_mset (nth xs)"]
  have "mset (map (nth xs) ?ids) = mset (map (nth xs) (filter ?P [0..<length xs]))" unfolding mset_map [symmetric] .
  then show ?thesis unfolding filter_by_index [of xs "\<lambda>x. re_match R (f x) body \<noteq> None"] .
qed

lemma matching_ids_bounds:
  assumes "re2_ok R" "i \<in> set (set_match R ps body)"
  shows "0 \<le> i" "nat i < length ps"
  using assms by (auto simp: re2_ok_def)

lemma matching_ids_number:
  assumes "re2_ok R"
  shows "length (set_match R ps body) \<le> length ps"
proof -
  have "length (set_match R ps body) = card (set (set_match R ps body))"
    by (rule distinct_card [symmetric]) (use assms in \<open>simp add: re2_ok_def\<close>)
  also have "\<dots> \<le> card (int ` {..<length ps})"
    by (rule card_mono) (use assms in \<open>auto simp: re2_ok_def\<close>)
  finally show ?thesis by (simp add: card_image)
qed

lemma multi_match_ids:
  assumes "\<forall>n. al n" "re2_ok R" "length body \<le> MAX_FILE_SIZE" "length ps \<le> MAX_PATTERN_COUNT"
    and "\<forall>p \<in> set ps. re_ok R p" "set_compile R ps"
  shows "\<exists>ml. re2_multi_match al R (map Some ps) body = Some ml \<and> ml_ids ml = map nat (set_match R ps body)"
proof (cases "ps = []")
  case True
  then have "set_match R ps body = []" using matching_ids_number [OF assms(2), of "[]" body] by simp
  with True show ?thesis using assms(3) by (simp add: re2_multi_match_def empty_matches_def)
next
  case False
  have "\<not> list_ex (\<lambda>p. p = None \<or> \<not> re_ok R (the p)) (map Some ps)" using assms(5) by (auto simp: list_ex_iff)
  moreover have "map the (map Some ps) = ps" by (simp add: comp_def)
  moreover have "\<not> list_ex (\<lambda>i. i < 0 \<or> nat i \<ge> length ps) (set_match R ps body)"
    using matching_ids_bounds [OF assms(2)] by (fastforce simp: list_ex_iff)
  moreover have "length (set_match R ps body) \<le> MAX_PATTERN_COUNT"
    using matching_ids_number [OF assms(2), of ps body] assms(4) by simp
  ultimately show ?thesis
    using False assms(1,3,4,6)
    by (cases "set_match R ps body = []") (simp_all add: re2_multi_match_def empty_matches_def Let_def)
qed

lemma handle_file_patches_at:
  assumes "\<forall>n. al n" "re2_ok R" "sorter_ok srt" "rep own m \<sigma>" "length body \<le> MAX_FILE_SIZE"
    and "\<forall>n \<in> set ids. n < length (numbered \<sigma>)" "plugin_map p = zip [0..<length (numbered \<sigma>)] (map fst (numbered \<sigma>))"
  shows "\<exists>order. mset order = mset (map (nth (numbered \<sigma>)) ids) \<and> sorted (map fst order) \<and>
    handle_file_patches al R srt m ids (plugin_map p) body = Some (fold (patched al R) order body)"
proof -
  let ?ns = "numbered \<sigma>"
  define name where "name = (\<lambda>i. snd (plugin_map p ! (ids ! i)))"
  define perm where "perm = srt (\<lambda>a b. name a < name b) [0..<length ids]"
  define order where "order = map (\<lambda>si. ?ns ! (ids ! si)) perm"
  have perm: "mset perm = mset [0..<length ids]" "sorted (map name perm)"
    unfolding perm_def by (rule sorter_names [OF assms(3)])+
  have in_range: "si < length ids" "ids ! si < length ?ns" if "si \<in> set perm" for si
  proof -
    show "si < length ids" using that mset_eq_setD [OF perm(1)] by auto
    then show "ids ! si < length ?ns" using assms(6) by simp
  qed
  have names: "snd (plugin_map p ! (ids ! si)) = fst (?ns ! (ids ! si))" if "si \<in> set perm" for si
    using in_range [OF that] assms(7) by simp
  have "mset order = image_mset (\<lambda>si. ?ns ! (ids ! si)) (mset [0..<length ids])"
    unfolding order_def mset_map perm(1) ..
  also have "\<dots> = mset (map (nth ?ns) (map (nth ids) [0..<length ids]))" by (simp only: mset_map [symmetric] map_map comp_def)
  finally have "mset order = mset (map (nth ?ns) ids)" by (simp only: map_nth)
  moreover have "map fst order = map name perm" using names by (simp add: order_def name_def)
  then have "sorted (map fst order)" using perm(2) by simp
  moreover have "fold (\<lambda>si. apply_patch al R (snd (plugin_map p ! (ids ! si))) (map (looked_up \<sigma>) ids ! si)) perm body =
      fold (patched al R) order body"
    unfolding order_def
    by (rule fold_patches [OF assms(2,5) names]) (use in_range in \<open>auto simp: looked_up_def\<close>)
  then have "handle_file_patches al R srt m ids (plugin_map p) body = Some (fold (patched al R) order body)"
    using spec [OF assms(1), of "length body"] assms(5) get_transforms_at [OF assms(1,4,6)]
    by (simp add: handle_file_patches_def Let_def perm_def name_def)
  ultimately show ?thesis by blast
qed

lemma find_file_matches_at:
  assumes "\<forall>n. al n" "re2_ok R" "sorter_ok srt" "rep own m \<sigma>" "unat (arena_size m) \<le> 2 ^ 20"
    and "\<forall>e \<in> set \<sigma>. length (fst e) \<le> MAX_PLUGIN_NAME_LEN" "length body \<le> MAX_FILE_SIZE"
    and "\<forall>x \<in> set (numbered \<sigma>). re_ok R (fst (snd x))" "set_compile R (map (\<lambda>x. fst (snd x)) (numbered \<sigma>))"
  shows "\<exists>order. mset order = mset (filter (\<lambda>x. re_match R (fst (snd x)) body \<noteq> None) (numbered \<sigma>)) \<and>
    sorted (map fst order) \<and> find_file_matches al R srt (Some m) body = (0, fold (patched al R) order body)"
proof -
  let ?files = "map (\<lambda>x. fst (snd x)) (numbered \<sigma>)" and ?ids = "map nat (set_match R (map (\<lambda>x. fst (snd x)) (numbered \<sigma>)) body)"
  obtain p where p: "get_file_regex_pool al m = Some p" "pool_of (numbered \<sigma>) p"
    using get_file_regex_pool_at [OF assms(1,4,5,6)] by blast
  have fp: "file_pool p = ?files" "plugin_map p = zip [0..<length (numbered \<sigma>)] (map fst (numbered \<sigma>))"
    using p(2) by (simp_all add: pool_of_def)
  have "length ?files \<le> MAX_PATTERN_COUNT"
    using number_of_patches [OF assms(4)] assms(4,5) by (simp add: rep_def hdr_ok_def limits)
  then obtain ml where ml: "re2_multi_match al R (map Some ?files) body = Some ml" "ml_ids ml = ?ids"
    using multi_match_ids [OF assms(1,2,7), of ?files] assms(8,9) by auto
  have b: "\<forall>n \<in> set ?ids. n < length (numbered \<sigma>)"
    using matching_ids_bounds(2) [OF assms(2), of _ ?files body] by auto
  obtain order where o: "mset order = mset (map (nth (numbered \<sigma>)) ?ids)" "sorted (map fst order)"
    "handle_file_patches al R srt m ?ids (plugin_map p) body = Some (fold (patched al R) order body)"
    using handle_file_patches_at [OF assms(1-4,7) b fp(2)] by blast
  have none: "order = []" if "?ids = [] \<or> ?files = []" using o(1) b that by (cases "?ids") auto
  have "find_file_matches al R srt (Some m) body = (0, fold (patched al R) order body)"
    using p(1) fp(1) ml o(3) none assms(7) by (auto simp: find_file_matches_def)
  with o(1,2) matching_ids [OF assms(2), of "numbered \<sigma>" "\<lambda>x. fst (snd x)" body] show ?thesis by auto
qed

text \<open>A reported conflict is between two plugins, and the winner is the one that patches first.\<close>

lemma conflict_winner:
  "(a, b, w) \<in> set (detect_and_log_conflicts al R finds ids pmap content) \<Longrightarrow> a \<noteq> b \<and> w = min a b"
  by (auto simp: detect_and_log_conflicts_def Let_def min_def split: if_splits option.splits)

subsection \<open>Sizes\<close>

lemma apply_patch_size:
  assumes "re2_ok R" "length buffer \<le> MAX_FILE_SIZE"
  shows "length (apply_patch al R plugin x buffer) \<le> MAX_FILE_SIZE"
proof (cases "fst x")
  case None
  then show ?thesis using assms(2) by (simp add: apply_patch_def)
next
  case (Some fnd)
  then have "apply_patch al R plugin x buffer = apply_patch al R plugin (Some fnd, snd x) buffer"
    by (cases x) simp
  also have "\<dots> = patched al R (plugin, [], fnd, snd x) buffer" by (rule apply_patch_patched [OF assms])
  finally show ?thesis using patched_size [OF assms] by simp
qed

lemma fold_apply_size:
  "re2_ok R \<Longrightarrow> length buffer \<le> MAX_FILE_SIZE \<Longrightarrow>
    length (fold (\<lambda>si. apply_patch al R (name si) (xs ! si)) order buffer) \<le> MAX_FILE_SIZE"
  by (induction order arbitrary: buffer) (simp_all add: apply_patch_size)

subsection \<open>Properties\<close>

text \<open>C1: Patching follows what the plugins registered: after any sequence of registrations and stops, the
  delivered file is the original one with the patches applied that belong to running plugins and whose
  file pattern matches, each exactly once and in the alphabetical order of the plugins.  Patches of the
  same plugin come in an order that the sorting algorithm chooses.\<close>

theorem patches_applied:
  assumes "spec_serve es ([], 280) = Some (\<sigma>, used)" "used \<le> 2 ^ 20"
    and "\<forall>n. al n" "re2_ok R" "sorter_ok srt"
    and "\<forall>e \<in> set \<sigma>. length (fst e) \<le> MAX_PLUGIN_NAME_LEN" "length body \<le> MAX_FILE_SIZE"
    and "\<forall>x \<in> set (numbered \<sigma>). re_ok R (fst (snd x))" "set_compile R (map (\<lambda>x. fst (snd x)) (numbered \<sigma>))"
  shows "\<exists>order. mset order = mset (filter (\<lambda>x. re_match R (fst (snd x)) body \<noteq> None) (numbered \<sigma>)) \<and>
    sorted (map fst order) \<and>
    find_file_matches al R srt (Some (serve es (init m))) body = (0, fold (patched al R) order body)"
proof -
  obtain own where "rep own (serve es (init m)) \<sigma>" "arena_size (serve es (init m)) = 2 ^ 20"
    using serve_rep [OF init_rep, of m 280 es \<sigma> used] assms(1,2) by (auto simp: init_words)
  then show ?thesis using find_file_matches_at [OF assms(3-5) _ _ assms(6-9)] by simp
qed

text \<open>C19: The transforms of a patch change nothing outside the region its find pattern matched: they are the
  replacements on that region alone, put back between the untouched rest.\<close>

theorem transforms_stay_in_region:
  assumes "from \<le> to" "to \<le> length buffer" "length buffer \<le> MAX_FILE_SIZE"
  shows "apply_transform_set_scoped al R plugin ts buffer from to =
    take from buffer @
    foldl (region_step al R plugin (length buffer - (to - from))) (take (to - from) (drop from buffer)) ts @
    drop to buffer"
  by (rule transforms_scoped [OF assms])

text \<open>C37: Whatever the arena holds, a patched file is never larger than the limit of 256 MiB, and a file
  above the limit is delivered unchanged.\<close>

theorem patched_file_size:
  assumes "re2_ok R"
  shows "(length body > MAX_FILE_SIZE \<longrightarrow> find_file_matches al R srt arena body = (-1, body)) \<and>
    (length body \<le> MAX_FILE_SIZE \<longrightarrow> length (snd (find_file_matches al R srt arena body)) \<le> MAX_FILE_SIZE)"
proof -
  have "length x \<le> MAX_FILE_SIZE"
    if "handle_file_patches al R srt m ids pmap body = Some x" "length body \<le> MAX_FILE_SIZE" for m ids pmap x
    using that fold_apply_size [OF assms that(2)] by (auto simp: handle_file_patches_def Let_def split: option.splits if_splits)
  then show ?thesis
    by (auto simp: find_file_matches_def split: option.splits)
qed

text \<open>C38: One plugin whose file pattern is not a valid regular expression keeps the patches of all plugins
  from being applied: every file is delivered unchanged, with an error.\<close>

theorem invalid_pattern_blocks_all:
  assumes "spec_serve es ([], 280) = Some (\<sigma>, used)" "used \<le> 2 ^ 20" "\<forall>n. al n"
    and "\<forall>e \<in> set \<sigma>. length (fst e) \<le> MAX_PLUGIN_NAME_LEN" "x \<in> set (numbered \<sigma>)" "\<not> re_ok R (fst (snd x))"
  shows "find_file_matches al R srt (Some (serve es (init m))) body = (-1, body)"
proof -
  obtain own where r: "rep own (serve es (init m)) \<sigma>" "arena_size (serve es (init m)) = 2 ^ 20"
    using serve_rep [OF init_rep, of m 280 es \<sigma> used] assms(1,2) by (auto simp: init_words)
  obtain p where p: "get_file_regex_pool al (serve es (init m)) = Some p" "pool_of (numbered \<sigma>) p"
    using get_file_regex_pool_at [OF assms(3) r(1) _ assms(4)] r(2) by auto
  have "Some (fst (snd x)) \<in> set (map Some (file_pool p))" using p(2) assms(5) by (auto simp: pool_of_def)
  then have "list_ex (\<lambda>q. q = None \<or> \<not> re_ok R (the q)) (map Some (file_pool p))" "file_pool p \<noteq> []"
    using assms(6) by (fastforce simp: list_ex_iff)+
  then show ?thesis using p(1) by (simp add: find_file_matches_def re2_multi_match_def)
qed

subsection \<open>Witnesses\<close>

text \<open>Regular expressions without metacharacters; the replacement works on single characters.\<close>

definition literal_re2 :: re2 where
  "literal_re2 = \<lparr>re_ok = (\<lambda>p. p \<noteq> ''(''), set_compile = (\<lambda>_. True),
     set_match = (\<lambda>ps t. map int (filter (\<lambda>i. find_str (ps ! i) t \<noteq> None) [0..<length ps])),
     re_match = (\<lambda>p t. map_option (\<lambda>i. (int i, length p)) (find_str p t)),
     global_replace = (\<lambda>p rw t. (concat (map (\<lambda>c. if [c] = p then rw else [c]) t), length (filter (\<lambda>c. [c] = p) t)))\<rparr>"

lemma find_str_bound: "find_str p t = Some i \<Longrightarrow> i + length p \<le> length t"
  by (induction t arbitrary: i) (auto split: if_splits dest: prefix_length_le)

lemma literal_re2_ok: "re2_ok literal_re2"
  unfolding re2_ok_def literal_re2_def
  by (auto simp: find_str_bound distinct_map inj_on_def)

fun insert_by :: "(nat \<Rightarrow> nat \<Rightarrow> bool) \<Rightarrow> nat \<Rightarrow> nat list \<Rightarrow> nat list" where
  "insert_by lt x [] = [x]"
| "insert_by lt x (y # ys) = (if lt y x then y # insert_by lt x ys else x # y # ys)"

definition insertion_sort :: sorter where
  "insertion_sort lt xs = foldr (insert_by lt) xs []"

lemma mset_insert_by: "mset (insert_by lt x ys) = add_mset x (mset ys)"
  by (induction ys) auto

lemma sorted_insert_by:
  assumes "transp lt" "\<forall>x. \<not> lt x x" "\<forall>x y z. \<not> lt x y \<and> \<not> lt y z \<longrightarrow> \<not> lt x z"
  shows "sorted_wrt (\<lambda>x y. \<not> lt y x) ys \<Longrightarrow> sorted_wrt (\<lambda>x y. \<not> lt y x) (insert_by lt x ys)"
proof (induction ys)
  case (Cons y ys)
  have asym: "\<not> lt x y" if "lt y x" using transpD [OF assms(1), of y x y] assms(2) that by auto
  have set: "set (insert_by lt x ys) = insert x (set ys)"
    unfolding set_mset_mset [symmetric] mset_insert_by by simp
  show ?case
  proof (cases "lt y x")
    case True
    then show ?thesis using Cons asym set by auto
  next
    case False
    have "\<not> lt z x" if "z \<in> set ys" for z
      using assms(3) [rule_format, of z y x] Cons.prems that False by simp
    with False Cons.prems show ?thesis by simp
  qed
qed simp

lemma insertion_sort_ok: "sorter_ok insertion_sort"
proof -
  have "mset (insertion_sort lt xs) = mset xs" for lt xs
    unfolding insertion_sort_def by (induction xs) (simp_all add: mset_insert_by)
  moreover have "sorted_wrt (\<lambda>x y. \<not> lt y x) (insertion_sort lt xs)"
    if "transp lt" "\<forall>x. \<not> lt x x" "\<forall>x y z. \<not> lt x y \<and> \<not> lt y z \<longrightarrow> \<not> lt x z" for lt xs
    unfolding insertion_sort_def by (induction xs) (simp_all add: sorted_insert_by [OF that])
  ultimately show ?thesis unfolding sorter_ok_def by blast
qed

definition patch_event :: "string \<Rightarrow> event" where
  "patch_event fl = Patches ''p'' (JObj [(''patches'', JArr [JObj [(''file'', JStr fl), (''find'', JStr ''ab''),
     (''transforms'', JArr [JObj [(''match'', JStr ''b''), (''replace'', JStr ''Z'')]])]])])"


theorem patches_applied_witness:
  "find_file_matches (\<lambda>_. True) literal_re2 insertion_sort (Some (serve [patch_event ''y''] (init (\<lambda>_. 0)))) ''xy ab b'' =
     (0, ''xy aZ b'')"
proof -
  let ?s = "[(''p'', [(''y'', ''ab'', [(''b'', ''Z'')])])]"
  have "spec_serve [patch_event ''y''] ([], 280) = Some (?s, 432)" by code_simp
  then obtain order where o:
    "mset order = mset (filter (\<lambda>x. re_match literal_re2 (fst (snd x)) ''xy ab b'' \<noteq> None) (numbered ?s))"
    "find_file_matches (\<lambda>_. True) literal_re2 insertion_sort (Some (serve [patch_event ''y''] (init (\<lambda>_. 0)))) ''xy ab b'' =
        (0, fold (patched (\<lambda>_. True) literal_re2) order ''xy ab b'')"
    using patches_applied [of "[patch_event ''y'']" ?s 432 "\<lambda>_. True" literal_re2 insertion_sort "''xy ab b''" "\<lambda>_. 0"]
      literal_re2_ok insertion_sort_ok by (auto simp: limits literal_re2_def numbered_def)
  have f: "filter (\<lambda>x. re_match literal_re2 (fst (snd x)) ''xy ab b'' \<noteq> None) (numbered ?s) =
      [(''p'', ''y'', ''ab'', [(''b'', ''Z'')])]" by (simp add: literal_re2_def numbered_def)
  have "order = [(''p'', ''y'', ''ab'', [(''b'', ''Z'')])]" using o(1) unfolding f by simp
  moreover have "patched (\<lambda>_. True) literal_re2 (''p'', ''y'', ''ab'', [(''b'', ''Z'')]) ''xy ab b'' = ''xy aZ b''"
    by (simp add: patched_def region_step_def preprocess_replacement_def placeholder_def literal_re2_def limits)
  ultimately show ?thesis using o(2) by simp
qed

theorem transforms_stay_in_region_witness:
  "apply_transform_set_scoped (\<lambda>_. True) literal_re2 ''p'' [(''b'', ''#{{self}}''), (''c'', ''d'')] ''b abc c'' 2 5 =
     ''b awindow.PLUGIN_LIST['' @ [CHR 0x27] @ ''p'' @ [CHR 0x27] @ '']d c''"
  by (subst transforms_stay_in_region)
    (simp_all add: region_step_def preprocess_replacement_def placeholder_def literal_re2_def limits safe_add_size_eq)

theorem patched_file_size_witness:
  "length (snd (find_file_matches (\<lambda>_. True) literal_re2 insertion_sort (Some (serve [patch_event ''y''] (init (\<lambda>_. 0)))) ''xy ab b''))
     \<le> MAX_FILE_SIZE"
  using patched_file_size [OF literal_re2_ok, of "''xy ab b''"] by (simp add: limits)

theorem invalid_pattern_blocks_all_witness:
  "find_file_matches (\<lambda>_. True) literal_re2 insertion_sort (Some (serve [patch_event ''y'', patch_event ''(''] (init (\<lambda>_. 0)))) ''xy ab b'' =
     (-1, ''xy ab b'')"
proof (rule invalid_pattern_blocks_all)
  show "spec_serve [patch_event ''y'', patch_event ''(''] ([], 280) =
      Some ([(''p'', [(''y'', ''ab'', [(''b'', ''Z'')]), (''('', ''ab'', [(''b'', ''Z'')])])], 576)" by code_simp
  show "(''p'', ''('', ''ab'', [(''b'', ''Z'')]) \<in> set (numbered [(''p'', [(''y'', ''ab'', [(''b'', ''Z'')]), (''('', ''ab'', [(''b'', ''Z'')])])])"
    by (simp add: numbered_def)
qed (simp_all add: limits literal_re2_def)

end
