(* ===== verification/HttpHooks.thy ===== *)
theory HttpHooks
  imports UrlCodec Base64 Json Listeners
begin

text \<open>
  The interception of the browser's requests, \<^verbatim>\<open>src/engine/http_hooks.cc\<close> and
  \<^verbatim>\<open>include/cloude/http_hooks.h\<close>, with the file types of \<^verbatim>\<open>include/cloude/mime_types.h\<close> and the list of
  \<^verbatim>\<open>src/engine/plugin_webkit_store.cc\<close>.

  A handler returns the calls it makes to the browser, and the exception it leaves with, if any.  The
  files, the matching of regular expressions and the files that the build embeds are fields of
  \<open>http_env\<close>.  Paths are those of Linux and macOS.
\<close>

subsection \<open>File types\<close>

datatype file_type =
    CSS | JS | JSON | PY | TTF | OTF | WOFF | WOFF2 | PNG | JPEG | JPG | GIF | WEBP | SVG | HTML | UNKNOWN

definition file_types :: "(file_type \<times> string \<times> string \<times> bool) list" where
  "file_types =
     [(CSS, ''.css'', ''text/css'', False),
      (JS, ''.js'', ''application/javascript'', False),
      (JSON, ''.json'', ''application/json'', False),
      (PY, ''.py'', ''text/x-python'', False),
      (TTF, ''.ttf'', ''font/ttf'', True),
      (OTF, ''.otf'', ''font/otf'', True),
      (WOFF, ''.woff'', ''font/woff'', True),
      (WOFF2, ''.woff2'', ''font/woff2'', True),
      (PNG, ''.png'', ''image/png'', True),
      (JPEG, ''.jpeg'', ''image/jpeg'', True),
      (JPG, ''.jpg'', ''image/jpeg'', True),
      (GIF, ''.gif'', ''image/gif'', True),
      (WEBP, ''.webp'', ''image/webp'', True),
      (SVG, ''.svg'', ''image/svg+xml'', True),
      (HTML, ''.html'', ''text/html'', False)]"

text \<open>\<^verbatim>\<open>std::filesystem::path\<close>: the file name, its extension and the operator \<^verbatim>\<open>/\<close>.\<close>

definition path_filename :: "string \<Rightarrow> string" where
  "path_filename p = rev (takeWhile (\<lambda>c. c \<noteq> CHR ''/'') (rev p))"

definition path_extension :: "string \<Rightarrow> string" where
  "path_extension p =
     (let f = path_filename p; e = rev (takeWhile (\<lambda>c. c \<noteq> CHR ''.'') (rev f)) in
      if f = ''.'' \<or> f = ''..'' \<or> length e \<ge> length f - 1 then [] else CHR ''.'' # e)"

definition path_append :: "string \<Rightarrow> string \<Rightarrow> string" where
  "path_append p q =
     (if q \<noteq> [] \<and> hd q = CHR ''/'' then q
      else if p = [] \<or> last p = CHR ''/'' then p @ q
      else p @ CHR ''/'' # q)"

definition get_file_type :: "string \<Rightarrow> file_type" where
  "get_file_type path =
     (case filter (\<lambda>(t, e, mt, b). path_extension path = e) file_types of
        (t, _) # _ \<Rightarrow> t
      | [] \<Rightarrow> UNKNOWN)"

definition get_mime_str :: "file_type \<Rightarrow> string" where
  "get_mime_str ft =
     (case filter (\<lambda>(t, e, mt, b). t = ft) file_types of (_, _, mt, _) # _ \<Rightarrow> mt | [] \<Rightarrow> ''text/plain'')"

definition is_bin_file :: "file_type \<Rightarrow> bool" where
  "is_bin_file ft =
     (case filter (\<lambda>(t, e, mt, b). t = ft) file_types of (_, _, _, b) # _ \<Rightarrow> b | [] \<Rightarrow> False)"

subsection \<open>The state\<close>

datatype tag_type = STYLESHEET | JAVASCRIPT

record hook_t =
  h_path :: string
  url_pattern :: string
  h_type :: tag_type

text \<open>The list of hooks, the counter \<^verbatim>\<open>g_hookedModuleId\<close> and what the provider of the dynamic style sheets
  returns, if there is one.\<close>

record hook_ctl =
  hook_list :: "(nat \<times> hook_t) list"
  next_hook :: nat
  dynamic_css :: "(string \<times> string) option"

definition new_hook_ctl :: hook_ctl where
  "new_hook_ctl = \<lparr>hook_list = [], next_hook = 0, dynamic_css = None\<rparr>"

definition add_hook :: "hook_t \<Rightarrow> hook_ctl \<Rightarrow> nat \<times> hook_ctl" where
  "add_hook h c = (next_hook c, c\<lparr>hook_list := hook_list c @ [(next_hook c, h)], next_hook := next_hook c + 1\<rparr>)"

definition remove_hook :: "nat \<Rightarrow> hook_ctl \<Rightarrow> bool \<times> hook_ctl" where
  "remove_hook moduleId c =
     (let hs = filter (\<lambda>(i, _). i \<noteq> moduleId) (hook_list c) in
      (length hs < length (hook_list c), c\<lparr>hook_list := hs\<rparr>))"

record http_env =
  read_text :: "string \<Rightarrow> string option"
  read_bytes :: "string \<Rightarrow> byte list option"
  cloude_path :: string
  embedded :: "(string \<times> string) list"
  regex_match :: "string \<Rightarrow> string \<Rightarrow> bool"

subsection \<open>Addresses\<close>

definition m_ftp_url :: string where "m_ftp_url = ''https://cloude.ftp/''"
definition m_themes_url :: string where "m_themes_url = ''https://cloude.host/v1/themes/''"
definition m_legacy_hook_url :: string where "m_legacy_hook_url = ''https://pseudo.cloude.app/''"
definition m_legacy_virt_js_url :: string where "m_legacy_virt_js_url = ''https://js.cloude.app/''"
definition m_legacy_virt_css_url :: string where "m_legacy_virt_css_url = ''https://css.cloude.app/''"

definition m_ftpUrls :: "string list" where
  "m_ftpUrls = [m_ftp_url, m_themes_url, m_legacy_virt_js_url, m_legacy_virt_css_url, m_legacy_hook_url]"

definition is_vfs_request :: "string \<Rightarrow> bool" where
  "is_vfs_request url = list_ex (\<lambda>u. find_str u url \<noteq> None) m_ftpUrls"

fun path_from_ftp :: "string list \<Rightarrow> string \<Rightarrow> string" where
  "path_from_ftp [] url = get_path_from_url Linux url"
| "path_from_ftp (addr # addrs) url =
     (case find_str addr url of
        Some pos \<Rightarrow> get_path_from_url Linux (take pos url @ drop (pos + length addr) url)
      | None \<Rightarrow> path_from_ftp addrs url)"

definition path_from_url :: "http_env \<Rightarrow> string \<Rightarrow> string" where
  "path_from_url env url =
     (case find_str m_themes_url url of
        Some pos \<Rightarrow>
          (let relativePath = drop (pos + length m_themes_url) url;
               relativePath' = (case find_char (CHR ''?'') relativePath of Some q \<Rightarrow> take q relativePath | None \<Rightarrow> relativePath) in
           path_append (path_append (cloude_path env) ''themes'') (decode_url relativePath'))
      | None \<Rightarrow> path_from_ftp m_ftpUrls url)"

subsection \<open>Virtual files\<close>

type_synonym cdp_call = "string \<times> json"

definition make_headers :: "(string \<times> string) list \<Rightarrow> json" where
  "make_headers headers = JArr (map (\<lambda>(n, v). JObj [(''name'', JStr n), (''value'', JStr v)]) headers)"

text \<open>Reading a member of a constant value: a missing key is an assertion, a wrong type an exception.\<close>

definition member_at :: "string \<Rightarrow> json \<Rightarrow> json result" where
  "member_at key j = (case json_find key j of None \<Rightarrow> Throw ''assertion'' | Some v \<Rightarrow> Return v)"

definition request_url :: "json \<Rightarrow> string result" where
  "request_url message = rbind (member_at ''request'' message) (\<lambda>r. rbind (member_at ''url'' r)
     (\<lambda>u. case as_string u of None \<Rightarrow> Throw ''type_error.302'' | Some s \<Rightarrow> Return s))"

text \<open>The file that is delivered from the disk: type, body, status and message.\<close>

definition disk_file :: "http_env \<Rightarrow> string \<Rightarrow> file_type \<times> string \<times> int \<times> string" where
  "disk_file env url =
     (let localFilePath = path_from_url env url;
          bFailedRead = (read_text env localFilePath = None);
          responseCode = (if bFailedRead then 404 else 200);
          responseMessage = (if bFailedRead then ''cloude couldn'' @ [CHR 0x27] @ ''t read '' @ localFilePath else ''OK cloude'');
          ft = get_file_type localFilePath;
          fileType = (if ft = UNKNOWN then get_file_type (path_from_url env url) else ft);
          fileContent =
            (if is_bin_file fileType
             then (case read_bytes env localFilePath of Some bs \<Rightarrow> Base64Encode_vector bs | None \<Rightarrow> [])
             else Base64Encode (case read_text env localFilePath of Some s \<Rightarrow> s | None \<Rightarrow> [])) in
      (fileType, fileContent, responseCode, responseMessage))"

definition vfs_request_handler :: "http_env \<Rightarrow> json \<Rightarrow> cdp_call list \<times> string option" where
  "vfs_request_handler env message =
     (case request_url message of
        Inl e \<Rightarrow> ([], Some e)
      | Inr url \<Rightarrow>
          (case member_at ''requestId'' message of
             Inl e \<Rightarrow> ([], Some e)
           | Inr requestId \<Rightarrow>
               (let (fileType, fileContent, responseCode, responseMessage) =
                      (case map_of (embedded env) url of
                         Some text \<Rightarrow> (JS, Base64Encode text, 200, ''OK cloude'')
                       | None \<Rightarrow> disk_file env url);
                    headers = make_headers [(''Access-Control-Allow-Origin'', ''*''), (''Content-Type'', get_mime_str fileType)] in
                ([(''Fetch.fulfillRequest'',
                   JObj [(''body'', JStr fileContent), (''requestId'', requestId), (''responseCode'', JInt responseCode),
                         (''responseHeaders'', headers), (''responsePhrase'', JStr responseMessage)])], None))))"

subsection \<open>Documents\<close>

record processed_hooks =
  m_css :: string
  m_preloads :: string
  m_scripts :: string

definition nl :: string where "nl = [CHR 0x0A]"
definition dq :: string where "dq = [CHR 0x22]"

definition add_stylesheet :: "string \<Rightarrow> processed_hooks \<Rightarrow> processed_hooks" where
  "add_stylesheet href r =
     r\<lparr>m_css := m_css r @ ''<link rel='' @ dq @ ''stylesheet'' @ dq @ '' href='' @ dq @ href @ dq @ ''>'' @ nl\<rparr>"

definition add_script_module :: "string \<Rightarrow> processed_hooks \<Rightarrow> processed_hooks" where
  "add_script_module href r =
     r\<lparr>m_preloads := m_preloads r @ ''<link rel='' @ dq @ ''modulepreload'' @ dq @ '' href='' @ dq @ href @ dq @
           '' fetchpriority='' @ dq @ ''high'' @ dq @ ''>'' @ nl,
       m_scripts := m_scripts r @ ''<script type='' @ dq @ ''module'' @ dq @ '' src='' @ dq @ href @ dq @ ''></script>'' @ nl\<rparr>"

definition add_inline_style :: "string \<Rightarrow> string \<Rightarrow> processed_hooks \<Rightarrow> processed_hooks" where
  "add_inline_style ident css r =
     r\<lparr>m_css := m_css r @ ''<style id='' @ dq @ ident @ dq @ ''>'' @ css @ ''</style>'' @ nl\<rparr>"

definition no_hooks :: processed_hooks where
  "no_hooks = \<lparr>m_css = [], m_preloads = [], m_scripts = []\<rparr>"

definition hooks_empty :: "processed_hooks \<Rightarrow> bool" where
  "hooks_empty r \<longleftrightarrow> m_css r = [] \<and> m_preloads r = [] \<and> m_scripts r = []"

definition apply_hook :: "hook_t \<Rightarrow> processed_hooks \<Rightarrow> processed_hooks" where
  "apply_hook h r =
     (case h_type h of
        STYLESHEET \<Rightarrow> add_stylesheet (m_themes_url @ encode_url (h_path h)) r
      | JAVASCRIPT \<Rightarrow> add_script_module (m_themes_url @ encode_url (h_path h)) r)"

definition apply_user_webkit_hooks :: "http_env \<Rightarrow> hook_ctl \<Rightarrow> string \<Rightarrow> processed_hooks" where
  "apply_user_webkit_hooks env c requestUrl =
     (let hs = filter (\<lambda>h. regex_match env (url_pattern h) requestUrl) (map snd (hook_list c));
          r = fold apply_hook hs no_hooks in
      case dynamic_css c of
        Some (rootColors, sliderCss) \<Rightarrow>
          if hs \<noteq> []
          then let r1 = (if rootColors \<noteq> [] then add_inline_style ''RootColors'' rootColors r else r) in
               if sliderCss \<noteq> [] then add_inline_style ''CloudeSliderConditions'' sliderCss r1 else r1
          else r
      | None \<Rightarrow> r)"

definition inject_into_document_head :: "string \<Rightarrow> string \<Rightarrow> string" where
  "inject_into_document_head original content =
     (case find_str ''</head>'' original of
        None \<Rightarrow> original
      | Some headPos \<Rightarrow> take headPos original @ content @ drop headPos original)"

definition g_js_and_css_hook_blacklist :: "string list" where
  "g_js_and_css_hook_blacklist =
     (let tail = ''[^'' @ [CHR 0x5C] @ ''s'' @ dq @ [CHR 0x27] @ '']*''; b = [CHR 0x5C];
          host = (\<lambda>h. ''https?:'' @ b @ ''/'' @ b @ ''/(?:['' @ b @ ''w-]+'' @ b @ ''.)*'' @ h @ b @ ''/'' @ tail);
          host2 = (\<lambda>h. ''https?://(?:['' @ b @ ''w-]+'' @ b @ ''.)*'' @ h @ ''/'' @ tail) in
      [host (''paypal'' @ b @ ''.com''), host (''paypalobjects'' @ b @ ''.com''), host (''recaptcha'' @ b @ ''.net''),
       host2 (''(?:youtube(?:-nocookie)?|youtu|ytimg|googlevideo|googleusercontent|studioyoutube)'' @ b @ ''.com''),
       host2 (''youtu'' @ b @ ''.be''), host (''chromewebstore'' @ b @ ''.google'' @ b @ ''.com'')])"

definition redirect_codes :: "int list" where
  "redirect_codes = [303, 301, 302, 307, 308]"

text \<open>What the handler does with the body of the response once it has it.\<close>

definition fulfill_document ::
    "json \<Rightarrow> string \<Rightarrow> int \<Rightarrow> string \<Rightarrow> processed_hooks \<Rightarrow> json \<Rightarrow> json \<Rightarrow> cdp_call result" where
  "fulfill_document message requestId statusCode requestUrl hooks params response =
     rbind (value_string ''body'' [] response) (\<lambda>responseBody.
     rbind (value_bool ''base64Encoded'' False response) (\<lambda>isBase64.
     let decodedBody = (if isBase64 then Base64Decode responseBody else responseBody) in
     if requestUrl = [] \<or> decodedBody = [] then Return (''Fetch.continueResponse'', params)
     else rbind (value_string ''responseStatusText'' ''OK'' message) (\<lambda>responseMessage.
       Return (''Fetch.fulfillRequest'',
         JObj [(''body'', JStr (Base64Encode (inject_into_document_head decodedBody (m_preloads hooks @ m_css hooks @ m_scripts hooks)))),
               (''requestId'', JStr requestId), (''responseCode'', JInt statusCode),
               (''responseHeaders'', (case json_find ''responseHeaders'' message of Some h \<Rightarrow> h | None \<Rightarrow> JArr [])),
               (''responsePhrase'', JStr (if responseMessage = [] then ''OK'' else responseMessage))]))))"

text \<open>\<open>reply\<close> is what the call \<^verbatim>\<open>Fetch.getResponseBody\<close> returns; its exception leaves the handler.\<close>

definition mime_doc_request_handler :: "http_env \<Rightarrow> hook_ctl \<Rightarrow> json \<Rightarrow> json result \<Rightarrow> cdp_call list \<times> string option" where
  "mime_doc_request_handler env c message reply =
     (case rbind (value_string ''requestId'' [] message) (\<lambda>requestId.
           rbind (member_at ''responseStatusCode'' message) (\<lambda>sc.
           rbind (case as_int sc of None \<Rightarrow> Throw ''type_error.302'' | Some i \<Rightarrow> Return i) (\<lambda>statusCode.
           rbind (request_url message) (\<lambda>requestUrl.
           rbind (member_at ''requestId'' message) (\<lambda>rid. Return (requestId, statusCode, requestUrl, rid)))))) of
        Inl e \<Rightarrow> ([], Some e)
      | Inr (requestId, statusCode, requestUrl, rid) \<Rightarrow>
          (let params = JObj [(''requestId'', rid)]; hooks = apply_user_webkit_hooks env c requestUrl in
           if list_ex (\<lambda>doNotHook. regex_match env doNotHook requestUrl) g_js_and_css_hook_blacklist
           then ([(''Fetch.continueResponse'', params)], None)
           else if statusCode \<in> set redirect_codes then ([(''Fetch.continueResponse'', params)], None)
           else if hooks_empty hooks then ([(''Fetch.continueResponse'', params)], None)
           else case rbind reply (fulfill_document message requestId statusCode requestUrl hooks params) of
                  Inl e \<Rightarrow> ([(''Fetch.getResponseBody'', params)], Some e)
                | Inr call \<Rightarrow> ([(''Fetch.getResponseBody'', params), call], None)))"

text \<open>The listener for \<^verbatim>\<open>Fetch.requestPaused\<close>; exceptions are logged.\<close>

definition request_paused :: "http_env \<Rightarrow> hook_ctl \<Rightarrow> json \<Rightarrow> json result \<Rightarrow> cdp_call list" where
  "request_paused env c message reply =
     (case request_url message of
        Inl e \<Rightarrow> []
      | Inr url \<Rightarrow>
          if is_vfs_request url then fst (vfs_request_handler env message)
          else fst (mime_doc_request_handler env c message reply))"

definition k_steam_tlds :: "string list" where
  "k_steam_tlds = [''steampowered.com'', ''steamcommunity.com'', ''steamgames.com'', ''steam-chat.com'', ''steamstatic.com'']"

definition fetch_patterns :: json where
  "fetch_patterns =
     JArr (map (\<lambda>hook. JObj [(''requestStage'', JStr ''Request''), (''urlPattern'', JStr (hook @ ''*''))])
             [m_ftp_url, m_themes_url, m_legacy_hook_url, m_legacy_virt_js_url, m_legacy_virt_css_url] @
           [JObj [(''requestStage'', JStr ''Response''), (''resourceType'', JStr ''Document''),
                  (''urlPattern'', JStr ''https://steamloopback.host/*'')]] @
           map (\<lambda>tld. JObj [(''requestStage'', JStr ''Response''), (''resourceType'', JStr ''Document''),
                             (''urlPattern'', JStr (''https://*.'' @ tld @ ''/*''))]) k_steam_tlds)"

subsection \<open>The list of plugin scripts\<close>

type_synonym webkit_item = "string \<times> string"

definition webkit_add :: "webkit_item \<Rightarrow> webkit_item list \<Rightarrow> webkit_item list" where
  "webkit_add x s = s @ [x]"

definition webkit_remove :: "webkit_item \<Rightarrow> webkit_item list \<Rightarrow> bool \<times> webkit_item list" where
  "webkit_remove x s = (if x \<in> set s then (True, remove1 x s) else (False, s))"

subsection \<open>The table of hooks\<close>

definition hooks_ok :: "hook_ctl \<Rightarrow> bool" where
  "hooks_ok c \<longleftrightarrow> distinct (map fst (hook_list c)) \<and> (\<forall>i \<in> fst ` set (hook_list c). i < next_hook c)"

interpretation hook_tab: listener_table hooks_ok "\<lambda>c. map_of (hook_list c)" add_hook "\<lambda>i c. snd (remove_hook i c)"
proof
  fix c h assume ok: "hooks_ok c"
  then have new: "next_hook c \<notin> fst ` set (hook_list c)" by (auto simp: hooks_ok_def)
  then show "map_of (hook_list c) (fst (add_hook h c)) = None" by (simp add: add_hook_def map_of_eq_None_iff)
  show "map_of (hook_list (snd (add_hook h c))) = (map_of (hook_list c))(fst (add_hook h c) \<mapsto> h)"
    using new map_of_eq_None_iff [of "hook_list c" "next_hook c"]
    by (auto simp: add_hook_def map_add_def fun_eq_iff split: option.splits)
  show "hooks_ok (snd (add_hook h c))"
    using ok new by (auto simp: hooks_ok_def add_hook_def)
next
  fix c i assume ok: "hooks_ok c"
  show "map_of (hook_list (snd (remove_hook i c))) = (map_of (hook_list c))(i := None)"
    by (simp add: remove_hook_def Let_def map_of_filter_neq)
  show "hooks_ok (snd (remove_hook i c))"
    using ok by (auto simp: hooks_ok_def remove_hook_def Let_def distinct_map intro: inj_on_subset)
qed

text \<open>The result of a removal says whether the hook was there.\<close>

lemma remove_hook_found: "fst (remove_hook i c) \<longleftrightarrow> i \<in> fst ` set (hook_list c)"
proof -
  have "length (filter (\<lambda>(j, _). j \<noteq> i) hs) < length hs \<longleftrightarrow> i \<in> fst ` set hs" for hs :: "(nat \<times> hook_t) list"
    by (induction hs) (auto simp: less_Suc_eq_le)
  then show ?thesis by (simp add: remove_hook_def Let_def)
qed

subsection \<open>Lemmas\<close>

lemma find_str_here: "find_str p (p @ s) = Some 0"
proof -
  have "prefix p t \<Longrightarrow> find_str p t = Some 0" for t by (cases t) auto
  then show ?thesis by simp
qed

lemma themes_path:
  assumes "\<forall>c \<in> set p. 16 \<le> ascii c"
  shows "path_from_url env (m_themes_url @ encode_url p) = path_append (path_append (cloude_path env) ''themes'') p"
proof -
  have "find_char (CHR ''?'') (encode_url p) = None"
    using encode_url_no_query by (simp add: find_char_None)
  then show ?thesis
    using decode_encode_high [OF assms, of "[]"] by (simp add: path_from_url_def find_str_here)
qed

lemma themes_are_virtual: "is_vfs_request (m_themes_url @ s)"
  using find_str_here [of m_themes_url s] by (simp add: is_vfs_request_def m_ftpUrls_def)

text \<open>The calls that let the browser go on with a request.\<close>

definition answers :: "cdp_call list \<Rightarrow> cdp_call list" where
  "answers = filter (\<lambda>call. fst call \<in> {''Fetch.continueResponse'', ''Fetch.fulfillRequest''})"

lemma vfs_handler_answers:
  assumes "request_url message = Return url" "json_find ''requestId'' message = Some rid"
  shows "\<exists>p. vfs_request_handler env message = ([(''Fetch.fulfillRequest'', p)], None) \<and> json_find ''requestId'' p = Some rid"
  using assms by (auto simp: vfs_request_handler_def member_at_def json_find_def split: prod.splits)

lemma fulfill_document_answers:
  assumes "value_string ''body'' [] response = Return body" "value_bool ''base64Encoded'' False response = Return enc"
    and "value_string ''responseStatusText'' ''OK'' message = Return st"
  shows "\<exists>m p. fulfill_document message rid code url hooks (JObj [(''requestId'', JStr rid)]) response = Return (m, p) \<and>
    m \<in> {''Fetch.continueResponse'', ''Fetch.fulfillRequest''} \<and> json_find ''requestId'' p = Some (JStr rid)"
  using assms by (auto simp: fulfill_document_def json_find_def Let_def)

lemma fulfill_document_body:
  assumes "fulfill_document message rid code url hooks params response = Return (''Fetch.fulfillRequest'', p)"
  shows "\<exists>body enc new tags. value_string ''body'' [] response = Return body \<and>
    value_bool ''base64Encoded'' False response = Return enc \<and> json_find ''body'' p = Some (JStr new) \<and>
    json_find ''responseCode'' p = Some (JInt code) \<and>
    (let original = (if enc then Base64Decode body else body) in
     case find_str ''</head>'' original of
       None \<Rightarrow> Base64Decode new = original
     | Some i \<Rightarrow> Base64Decode new = take i original @ tags @ drop i original)"
proof -
  obtain body enc where b: "value_string ''body'' [] response = Return body" "value_bool ''base64Encoded'' False response = Return enc"
    using assms by (auto simp: fulfill_document_def rbind_Inr)
  let ?o = "if enc then Base64Decode body else body" and ?t = "m_preloads hooks @ m_css hooks @ m_scripts hooks"
  have "json_find ''body'' p = Some (JStr (Base64Encode (inject_into_document_head ?o ?t)))"
    "json_find ''responseCode'' p = Some (JInt code)"
    using assms b by (auto simp: fulfill_document_def rbind_Inr json_find_def Let_def split: if_splits)
  moreover have "case find_str ''</head>'' ?o of
       None \<Rightarrow> Base64Decode (Base64Encode (inject_into_document_head ?o ?t)) = ?o
     | Some i \<Rightarrow> Base64Decode (Base64Encode (inject_into_document_head ?o ?t)) = take i ?o @ ?t @ drop i ?o"
    by (simp add: text_b64.dec_enc inject_into_document_head_def split: option.splits)
  ultimately show ?thesis unfolding Let_def using b by blast
qed

lemma object_of_find: "json_find k j = Some v \<Longrightarrow> is_object j"
  by (cases j) (simp_all add: json_find_def)

lemma mime_handler_start:
  assumes "request_url message = Return url" "json_find ''requestId'' message = Some (JStr rid)"
    and "json_find ''responseStatusCode'' message = Some (JInt code)"
  shows "mime_doc_request_handler env c message reply =
    (let params = JObj [(''requestId'', JStr rid)]; hooks = apply_user_webkit_hooks env c url in
     if list_ex (\<lambda>doNotHook. regex_match env doNotHook url) g_js_and_css_hook_blacklist \<or> code \<in> set redirect_codes \<or>
        hooks_empty hooks
     then ([(''Fetch.continueResponse'', params)], None)
     else case rbind reply (fulfill_document message rid code url hooks params) of
            Inl e \<Rightarrow> ([(''Fetch.getResponseBody'', params)], Some e)
          | Inr call \<Rightarrow> ([(''Fetch.getResponseBody'', params), call], None))"
proof -
  have "value_string ''requestId'' [] message = Return rid"
    using assms(2) object_of_find [OF assms(2)] by (simp add: value_string_def)
  then show ?thesis
    using assms by (simp add: mime_doc_request_handler_def member_at_def Let_def)
qed

subsection \<open>Properties\<close>


text \<open>C39: When the body of a document cannot be fetched, the request is never let go: the exception is
  logged and neither \<^verbatim>\<open>continueResponse\<close> nor \<^verbatim>\<open>fulfillRequest\<close> is sent, so the page stays paused.\<close>

theorem failed_body_leaves_request_paused:
  assumes "request_url message = Return url" "\<not> is_vfs_request url"
    and "json_find ''requestId'' message = Some (JStr rid)" "json_find ''responseStatusCode'' message = Some (JInt code)"
    and "\<not> list_ex (\<lambda>doNotHook. regex_match env doNotHook url) g_js_and_css_hook_blacklist"
    and "code \<notin> set redirect_codes" "\<not> hooks_empty (apply_user_webkit_hooks env c url)" "reply = Throw e"
  shows "answers (request_paused env c message reply) = []"
  using assms mime_handler_start [OF assms(1,3,4), of env c reply]
  by (simp add: request_paused_def answers_def Let_def)

text \<open>C16: A document is changed only by inserting the tags of the matching hooks in front of the first
  \<^verbatim>\<open></head>\<close>, and pages of the block list, redirects and pages without a matching hook are not
  touched at all.\<close>

theorem documents_changed_by_insertion:
  assumes "request_url message = Return url" "\<not> is_vfs_request url"
    and "json_find ''requestId'' message = Some (JStr rid)" "json_find ''responseStatusCode'' message = Some (JInt code)"
    and "(''Fetch.fulfillRequest'', p) \<in> set (request_paused env c message reply)"
  shows "\<not> list_ex (\<lambda>doNotHook. regex_match env doNotHook url) g_js_and_css_hook_blacklist \<and> code \<notin> set redirect_codes \<and>
    (\<exists>response body enc new tags. reply = Return response \<and> value_string ''body'' [] response = Return body \<and>
      value_bool ''base64Encoded'' False response = Return enc \<and> json_find ''body'' p = Some (JStr new) \<and>
      json_find ''responseCode'' p = Some (JInt code) \<and>
      (let original = (if enc then Base64Decode body else body) in
       case find_str ''</head>'' original of
         None \<Rightarrow> Base64Decode new = original
       | Some i \<Rightarrow> Base64Decode new = take i original @ tags @ drop i original))"
proof -
  let ?hooks = "apply_user_webkit_hooks env c url" and ?params = "JObj [(''requestId'', JStr rid)]"
  let ?cont = "list_ex (\<lambda>doNotHook. regex_match env doNotHook url) g_js_and_css_hook_blacklist \<or> code \<in> set redirect_codes \<or>
        hooks_empty ?hooks"
  have h: "(''Fetch.fulfillRequest'', p) \<in> set (fst (mime_doc_request_handler env c message reply))"
    using assms(1,2,5) by (simp add: request_paused_def)
  have nc: "\<not> ?cont"
  proof
    assume ?cont
    then show False using h mime_handler_start [OF assms(1,3,4), of env c reply] by (simp add: Let_def)
  qed
  then obtain response where r: "reply = Return response"
    "fulfill_document message rid code url ?hooks ?params response = Return (''Fetch.fulfillRequest'', p)"
    using h mime_handler_start [OF assms(1,3,4), of env c reply] by (auto simp: Let_def rbind_Inr split: sum.splits)
  show ?thesis
    using nc r(1) fulfill_document_body [OF r(2)] by blast
qed

text \<open>C17: Every file of the user can be read through the virtual addresses: behind the address of the
  themes, an absolute path stands for itself, and the file is delivered to any page, since the
  response allows every origin.\<close>

theorem themes_address_reads_any_file:
  assumes "path = CHR ''/'' # rest" "\<forall>c \<in> set path. 16 \<le> ascii c" "read_text env path = Some content"
    and "\<not> is_bin_file (get_file_type path)" "map_of (embedded env) (m_themes_url @ encode_url path) = None"
    and "request_url message = Return (m_themes_url @ encode_url path)" "json_find ''requestId'' message = Some rid"
  shows "request_paused env c message reply =
    [(''Fetch.fulfillRequest'',
      JObj [(''body'', JStr (Base64Encode content)), (''requestId'', rid), (''responseCode'', JInt 200),
            (''responseHeaders'', make_headers [(''Access-Control-Allow-Origin'', ''*''),
               (''Content-Type'', get_mime_str (get_file_type path))]),
            (''responsePhrase'', JStr ''OK cloude'')])]"
proof -
  have "path_from_url env (m_themes_url @ encode_url path) = path"
    using themes_path [OF assms(2), of env] assms(1) by (simp add: path_append_def)
  then have "disk_file env (m_themes_url @ encode_url path) = (get_file_type path, Base64Encode content, 200, ''OK cloude'')"
    using assms(3,4) by (auto simp: disk_file_def Let_def)
  then show ?thesis
    using assms(5-7) themes_are_virtual
    by (simp add: request_paused_def vfs_request_handler_def member_at_def)
qed

text \<open>A binary file that can be opened but not read is delivered as an empty file with status 200,
  although the code marks the read as failed.\<close>

theorem unreadable_binary_is_ok:
  assumes "read_text env (path_from_url env url) = Some content" "read_bytes env (path_from_url env url) = None"
    and "is_bin_file (get_file_type (path_from_url env url))"
  shows "disk_file env url = (get_file_type (path_from_url env url), [], 200, ''OK cloude'')"
  using assms by (simp add: disk_file_def Let_def)

subsection \<open>Witnesses\<close>

definition sample_env :: http_env where
  "sample_env = \<lparr>read_text = (\<lambda>p. if p = ''/etc/passwd'' then Some ''root'' else if p = ''/a.png'' then Some ''x'' else None),
     read_bytes = (\<lambda>_. None), cloude_path = ''/opt/cloude'', embedded = [],
     regex_match = (\<lambda>p u. p = u)\<rparr>"

definition sample_hooks :: hook_ctl where
  "sample_hooks = snd (add_hook \<lparr>h_path = ''t/a.css'', url_pattern = ''https://x/'', h_type = STYLESHEET\<rparr> new_hook_ctl)"

definition sample_message :: "string \<Rightarrow> json" where
  "sample_message url = JObj [(''request'', JObj [(''url'', JStr url)]), (''requestId'', JStr ''7''), (''responseStatusCode'', JInt 200)]"

lemma sample_message_fields:
  "request_url (sample_message url) = Return url" "json_find ''requestId'' (sample_message url) = Some (JStr ''7'')"
  "json_find ''responseStatusCode'' (sample_message url) = Some (JInt 200)"
  "value_string ''responseStatusText'' ''OK'' (sample_message url) = Return ''OK''"
  by (simp_all add: sample_message_def request_url_def member_at_def json_find_def value_string_def)

lemma sample_page:
  "\<not> is_vfs_request ''https://x/''"
  "\<not> list_ex (\<lambda>doNotHook. regex_match sample_env doNotHook ''https://x/'') g_js_and_css_hook_blacklist"
  "\<not> hooks_empty (apply_user_webkit_hooks sample_env sample_hooks ''https://x/'')"
  by code_simp+


theorem failed_body_leaves_request_paused_witness:
  "answers (request_paused sample_env sample_hooks (sample_message ''https://x/'') (Throw ''timeout'')) = []"
  by (rule failed_body_leaves_request_paused [OF sample_message_fields(1) sample_page(1) sample_message_fields(2,3) sample_page(2) _ sample_page(3) refl])
    (simp add: redirect_codes_def)

theorem documents_changed_by_insertion_witness:
  "\<exists>p. (''Fetch.fulfillRequest'', p) \<in>
       set (request_paused sample_env sample_hooks (sample_message ''https://x/'') (Return (JObj [(''body'', JStr ''<head></head>'')]))) \<and>
     (200::int) \<notin> set redirect_codes"
proof -
  let ?calls = "request_paused sample_env sample_hooks (sample_message ''https://x/'') (Return (JObj [(''body'', JStr ''<head></head>'')]))"
  have "list_ex (\<lambda>c. fst c = ''Fetch.fulfillRequest'') ?calls" by code_simp
  then obtain p where p: "(''Fetch.fulfillRequest'', p) \<in> set ?calls" by (auto simp: list_ex_iff)
  show ?thesis
    using documents_changed_by_insertion [OF sample_message_fields(1) sample_page(1) sample_message_fields(2,3) p] p by blast
qed

theorem themes_address_reads_any_file_witness:
  "request_paused sample_env sample_hooks (sample_message (m_themes_url @ encode_url ''/etc/passwd'')) (Throw []) =
    [(''Fetch.fulfillRequest'',
      JObj [(''body'', JStr (Base64Encode ''root'')), (''requestId'', JStr ''7''), (''responseCode'', JInt 200),
            (''responseHeaders'', make_headers [(''Access-Control-Allow-Origin'', ''*''),
               (''Content-Type'', get_mime_str (get_file_type ''/etc/passwd''))]),
            (''responsePhrase'', JStr ''OK cloude'')])]"
proof (rule themes_address_reads_any_file)
  show "\<not> is_bin_file (get_file_type ''/etc/passwd'')" by code_simp
qed (simp_all add: sample_env_def sample_message_fields)

theorem unreadable_binary_is_ok_witness:
  "disk_file sample_env (m_ftp_url @ ''a.png'') = (PNG, [], 200, ''OK cloude'')"
proof -
  have p: "path_from_url sample_env (m_ftp_url @ ''a.png'') = ''/a.png''" "get_file_type ''/a.png'' = PNG" "is_bin_file PNG"
    by code_simp+
  show ?thesis
    using unreadable_binary_is_ok [of sample_env "m_ftp_url @ ''a.png''" "''x''"] unfolding p by (simp add: sample_env_def p)
qed

end
