(* ===== verification/PluginRpc.thy ===== *)
theory PluginRpc
  imports Json "HOL-Library.Multiset"
begin

text \<open>
  The calls between the loader and the process of a plugin: \<^verbatim>\<open>PluginProcess\<close> of
  \<^verbatim>\<open>src/engine/child_process.cc\<close> on the loader's side and \<^verbatim>\<open>rpc_client\<close> of
  \<^verbatim>\<open>src/lua_host/rpc.cc\<close> on the plugin's side.

  In the loader, several threads call and one thread reads.  A call is named by a number, its ticket;
  every critical section of the code is one step, and \<open>None\<close> means that the step is not enabled.  The
  plugin has one thread.  The two directions of the socket are queues of messages.

  For the reader, taking an entry from the table and setting its promise are one step: a timeout that falls
  between them does the same as one just before.  The model starts where \<^verbatim>\<open>spawn_plugin_process\<close> hands out the
  process, after the request with the number 0; the coroutines of the plugin appear as calls it makes while it
  serves.
\<close>

subsection \<open>Messages\<close>

definition TYPE_REQUEST :: string where "TYPE_REQUEST = ''req''"
definition TYPE_RESPONSE :: string where "TYPE_RESPONSE = ''res''"
definition TYPE_NOTIFY :: string where "TYPE_NOTIFY = ''notify''"

lemmas type_names = TYPE_REQUEST_def TYPE_RESPONSE_def TYPE_NOTIFY_def

definition request_msg :: "int \<Rightarrow> string \<Rightarrow> json \<Rightarrow> json" where
  "request_msg ident method params =
     JObj [(''id'', JInt ident), (''method'', JStr method), (''params'', params), (''type'', JStr TYPE_REQUEST)]"

definition response_msg :: "int \<Rightarrow> json \<Rightarrow> json" where
  "response_msg ident res = JObj [(''id'', JInt ident), (''result'', res), (''type'', JStr TYPE_RESPONSE)]"

definition error_msg :: "int \<Rightarrow> string \<Rightarrow> json" where
  "error_msg ident err = JObj [(''error'', JStr err), (''id'', JInt ident), (''type'', JStr TYPE_RESPONSE)]"

definition notify_msg :: "string \<Rightarrow> json \<Rightarrow> json" where
  "notify_msg method params = JObj [(''method'', JStr method), (''params'', params), (''type'', JStr TYPE_NOTIFY)]"

lemmas msg_defs = request_msg_def response_msg_def error_msg_def notify_msg_def

definition msg_type :: "json \<Rightarrow> string result" where "msg_type msg = value_string ''type'' '''' msg"
definition msg_id :: "json \<Rightarrow> int result" where "msg_id msg = value_int ''id'' (-1) msg"

subsection \<open>The loader's side\<close>

datatype phase = Registered | Sent

record plugin_process =
  p_next_id :: int
  p_pending :: "(int \<times> nat) list"
  p_running :: bool
  p_calls :: "nat \<rightharpoonup> int \<times> phase"
  p_promises :: "nat \<rightharpoonup> json result"
  p_returned :: "nat \<rightharpoonup> json result"
  p_sent :: "json list"
  p_notified :: "(string \<times> json) list"

definition new_process :: plugin_process where
  "new_process = \<lparr>p_next_id = 1, p_pending = [], p_running = True, p_calls = Map.empty, p_promises = Map.empty,
     p_returned = Map.empty, p_sent = [], p_notified = []\<rparr>"

definition pending_erase :: "int \<Rightarrow> plugin_process \<Rightarrow> plugin_process" where
  "pending_erase ident s = s\<lparr>p_pending := filter (\<lambda>(i, _). i \<noteq> ident) (p_pending s)\<rparr>"

text \<open>\<^verbatim>\<open>call\<close>: the number is taken and the promise entered, the request is written, and the future is
  waited for.  The model ends where the counter would leave the range of \<^verbatim>\<open>int\<close>, after two billion
  calls to one plugin.\<close>

definition call_register :: "nat \<Rightarrow> plugin_process \<Rightarrow> plugin_process option" where
  "call_register t s =
     (if p_calls s t \<noteq> None \<or> p_next_id s \<ge> 2 ^ 31 then None
      else Some (s\<lparr>p_next_id := p_next_id s + 1, p_pending := (p_next_id s, t) # p_pending s,
                   p_calls := (p_calls s)(t \<mapsto> (p_next_id s, Registered))\<rparr>))"

definition call_send :: "nat \<Rightarrow> string \<Rightarrow> json \<Rightarrow> bool \<Rightarrow> plugin_process \<Rightarrow> plugin_process option" where
  "call_send t method params ok s =
     (case p_calls s t of
        Some (ident, Registered) \<Rightarrow>
          if ok
          then Some (s\<lparr>p_calls := (p_calls s)(t \<mapsto> (ident, Sent)), p_sent := p_sent s @ [request_msg ident method params]\<rparr>)
          else Some ((pending_erase ident s)\<lparr>p_calls := (p_calls s)(t \<mapsto> (ident, Sent)),
                 p_returned := (p_returned s)(t \<mapsto> Throw ''failed to send RPC to child'')\<rparr>)
      | _ \<Rightarrow> None)"

definition call_finish :: "nat \<Rightarrow> plugin_process \<Rightarrow> plugin_process option" where
  "call_finish t s =
     (case (p_calls s t, p_returned s t, p_promises s t) of
        (Some (ident, Sent), None, Some r) \<Rightarrow> Some (s\<lparr>p_returned := (p_returned s)(t \<mapsto> r)\<rparr>)
      | _ \<Rightarrow> None)"

definition call_timeout :: "nat \<Rightarrow> plugin_process \<Rightarrow> plugin_process option" where
  "call_timeout t s =
     (case (p_calls s t, p_returned s t, p_promises s t) of
        (Some (ident, Sent), None, None) \<Rightarrow>
          Some ((pending_erase ident s)\<lparr>p_returned := (p_returned s)(t \<mapsto> Throw ''RPC timeout for child'')\<rparr>)
      | _ \<Rightarrow> None)"

definition notify_child :: "string \<Rightarrow> json \<Rightarrow> plugin_process \<Rightarrow> plugin_process" where
  "notify_child method params s = s\<lparr>p_sent := p_sent s @ [notify_msg method params]\<rparr>"

text \<open>\<^verbatim>\<open>set_value\<close> and \<^verbatim>\<open>set_exception\<close> throw when the promise has a value already.\<close>

definition set_promise :: "nat \<Rightarrow> json result \<Rightarrow> plugin_process \<Rightarrow> plugin_process result" where
  "set_promise t r s = (if p_promises s t \<noteq> None then Throw ''promise_already_satisfied'' else Return (s\<lparr>p_promises := (p_promises s)(t \<mapsto> r)\<rparr>))"

definition on_response :: "json \<Rightarrow> plugin_process \<Rightarrow> plugin_process result" where
  "on_response msg s =
     rbind (msg_id msg) (\<lambda>ident.
       case map_of (p_pending s) ident of
         None \<Rightarrow> Return s
       | Some t \<Rightarrow>
           (let s1 = pending_erase ident s in
            case json_find ''error'' msg of
              Some e \<Rightarrow> (case as_string e of None \<Rightarrow> Throw ''type_error.302'' | Some err \<Rightarrow> set_promise t (Throw err) s1)
            | None \<Rightarrow> rbind (value_any ''result'' JNull msg) (\<lambda>v. set_promise t (Return v) s1)))"

text \<open>\<open>handler\<close> is the registered handler, if there is one.\<close>

definition on_request :: "(string \<Rightarrow> json \<Rightarrow> json result) option \<Rightarrow> json \<Rightarrow> plugin_process \<Rightarrow> plugin_process result" where
  "on_request handler msg s =
     rbind (msg_id msg) (\<lambda>ident. rbind (value_string ''method'' '''' msg) (\<lambda>method.
     rbind (value_any ''params'' (JObj []) msg) (\<lambda>params.
       let resp = (case handler of
                     None \<Rightarrow> error_msg ident ''no handler registered''
                   | Some h \<Rightarrow> (case h method params of Inr res \<Rightarrow> response_msg ident res | Inl e \<Rightarrow> error_msg ident e)) in
       Return (s\<lparr>p_sent := p_sent s @ [resp]\<rparr>))))"

definition on_notification :: "(string \<Rightarrow> json \<Rightarrow> json result) option \<Rightarrow> json \<Rightarrow> plugin_process \<Rightarrow> plugin_process result" where
  "on_notification handler msg s =
     rbind (value_string ''method'' '''' msg) (\<lambda>method. rbind (value_any ''params'' JNull msg) (\<lambda>params.
       Return (if handler = None then s else s\<lparr>p_notified := p_notified s @ [(method, params)]\<rparr>)))"

text \<open>One round of \<^verbatim>\<open>reader_thread_fn\<close>.  An exception leaves the thread and ends the loader.\<close>

definition reader_message :: "(string \<Rightarrow> json \<Rightarrow> json result) option \<Rightarrow> json \<Rightarrow> plugin_process \<Rightarrow> plugin_process result" where
  "reader_message handler msg s =
     rbind (msg_type msg) (\<lambda>ty.
       if ty = TYPE_RESPONSE then on_response msg s
       else if ty = TYPE_REQUEST then on_request handler msg s
       else if ty = TYPE_NOTIFY then on_notification handler msg s
       else Return s)"

text \<open>What is still pending fails when the reader ends and in the destructor; exceptions of the promises are
  caught.\<close>

definition fail_pending :: "string \<Rightarrow> plugin_process \<Rightarrow> plugin_process" where
  "fail_pending err s =
     fold (\<lambda>(ident, t) s. case set_promise t (Throw err) s of Inl _ \<Rightarrow> s | Inr s' \<Rightarrow> s') (p_pending s) s\<lparr>p_pending := []\<rparr>"

definition reader_end :: "plugin_process \<Rightarrow> plugin_process" where
  "reader_end s = fail_pending ''child disconnected'' (s\<lparr>p_running := False\<rparr>)"

definition destroy :: "plugin_process \<Rightarrow> plugin_process" where
  "destroy s = fail_pending ''plugin process terminated'' (reader_end s)"

text \<open>How the process ended: \<open>w1\<close> and \<open>w2\<close> are the answers of \<^verbatim>\<open>waitpid\<close> before and after the pause, and the
  result is the exit code of the crash that is reported.\<close>

datatype wait_result = Still_running | Reaped_elsewhere | Wait_failed | Signaled nat | Exited nat

definition detect_child_exit :: "bool \<Rightarrow> wait_result \<Rightarrow> wait_result \<Rightarrow> nat option" where
  "detect_child_exit shutdown_initiated w1 w2 =
     (if shutdown_initiated then None
      else case (if w1 = Still_running then w2 else w1) of
             Still_running \<Rightarrow> None
           | Reaped_elsewhere \<Rightarrow> Some 0
           | Wait_failed \<Rightarrow> None
           | Signaled sig \<Rightarrow> Some sig
           | Exited code \<Rightarrow> if code \<noteq> 0 then Some code else None)"

subsection \<open>The plugin's side\<close>

text \<open>The thread of the plugin serves, or runs the handler of a request, or waits for the response to a call it
  has made, possibly inside such a handler.\<close>

datatype mode = Serving | Handling int | Waiting int "int option"

fun handling :: "mode \<Rightarrow> int option" where
  "handling Serving = None"
| "handling (Handling r) = Some r"
| "handling (Waiting _ r) = r"

definition resume_mode :: "int option \<Rightarrow> mode" where
  "resume_mode r = (case r of None \<Rightarrow> Serving | Some i \<Rightarrow> Handling i)"

record rpc_client =
  c_next_id :: int
  c_connected :: bool
  c_mode :: mode
  c_deferred :: "json list"
  c_results :: "json result list"
  c_handled :: "json list"
  c_dropped :: "json list"
  c_sent :: "json list"

definition new_client :: rpc_client where
  "new_client = \<lparr>c_next_id = 1, c_connected = True, c_mode = Serving, c_deferred = [], c_results = [], c_handled = [],
     c_dropped = [], c_sent = []\<rparr>"

definition send_message :: "bool \<Rightarrow> json \<Rightarrow> rpc_client \<Rightarrow> bool \<times> rpc_client" where
  "send_message ok msg c = (if ok then (True, c\<lparr>c_sent := c_sent c @ [msg]\<rparr>) else (False, c\<lparr>c_connected := False\<rparr>))"

definition call_returns :: "json result \<Rightarrow> rpc_client \<Rightarrow> rpc_client" where
  "call_returns r c = c\<lparr>c_mode := resume_mode (handling (c_mode c)), c_results := c_results c @ [r]\<rparr>"

definition client_call :: "bool \<Rightarrow> string \<Rightarrow> json \<Rightarrow> rpc_client \<Rightarrow> rpc_client" where
  "client_call ok method params c =
     (let ident = c_next_id c;
          (sent, c1) = send_message ok (request_msg ident method params) (c\<lparr>c_next_id := ident + 1\<rparr>)
      in if \<not> sent then call_returns (Throw ''rpc_client: failed to send request'') c1
         else c1\<lparr>c_mode := Waiting ident (handling (c_mode c))\<rparr>)"

text \<open>One round of the loop of \<^verbatim>\<open>call\<close>: a result or an exception ends the call, \<open>None\<close> keeps waiting.  What is
  neither the response nor a notification is reported and forgotten; \<open>c_dropped\<close> remembers it.\<close>

definition call_round :: "int \<Rightarrow> json \<Rightarrow> rpc_client \<Rightarrow> json result option \<times> rpc_client" where
  "call_round ident msg c =
     (case msg_type msg of
        Inl e \<Rightarrow> (Some (Throw e), c)
      | Inr ty \<Rightarrow>
          (case (if ty = TYPE_RESPONSE then map_sum id (\<lambda>i. i = ident) (msg_id msg) else Return False) of
             Inl e \<Rightarrow> (Some (Throw e), c)
           | Inr True \<Rightarrow>
               (case json_find ''error'' msg of
                  Some e \<Rightarrow> (Some (case as_string e of None \<Rightarrow> Throw ''type_error.302'' | Some err \<Rightarrow> Throw err), c)
                | None \<Rightarrow> (Some (value_any ''result'' JNull msg), c))
           | Inr False \<Rightarrow>
               if ty = TYPE_NOTIFY then (None, c\<lparr>c_deferred := c_deferred c @ [msg]\<rparr>)
               else (None, c\<lparr>c_dropped := c_dropped c @ [msg]\<rparr>)))"

text \<open>The whole loop over the messages that arrive until the socket is closed.\<close>

fun await_response :: "int \<Rightarrow> json list \<Rightarrow> rpc_client \<Rightarrow> json result \<times> json list \<times> rpc_client" where
  "await_response ident msgs c =
     (if \<not> c_connected c then (Throw ''rpc_client: disconnected'', msgs, c)
      else case msgs of
             [] \<Rightarrow> (Throw ''rpc_client: disconnected while waiting for response'', [], c\<lparr>c_connected := False\<rparr>)
           | msg # msgs' \<Rightarrow>
               (case call_round ident msg c of
                  (Some r, c') \<Rightarrow> (r, msgs', c')
                | (None, c') \<Rightarrow> await_response ident msgs' c'))"

declare await_response.simps [simp del]

definition client_notify :: "bool \<Rightarrow> string \<Rightarrow> json \<Rightarrow> rpc_client \<Rightarrow> rpc_client" where
  "client_notify ok method params c = snd (send_message ok (notify_msg method params) c)"

definition respond :: "bool \<Rightarrow> int \<Rightarrow> json \<Rightarrow> rpc_client \<Rightarrow> rpc_client" where
  "respond ok ident res c = snd (send_message ok (response_msg ident res) c)"

definition respond_error :: "bool \<Rightarrow> int \<Rightarrow> string \<Rightarrow> rpc_client \<Rightarrow> rpc_client" where
  "respond_error ok ident err c = snd (send_message ok (error_msg ident err) c)"

text \<open>One message in \<^verbatim>\<open>run\<close>.  A request starts its handler, which ends in \<open>run_reply\<close> with a result or an
  exception; notifications, and then the deferred ones, are handed to the handler, whose exceptions are caught.
  \<open>c_handled\<close> is what the handler has got.\<close>

definition drain_deferred :: "rpc_client \<Rightarrow> rpc_client" where
  "drain_deferred c = c\<lparr>c_handled := c_handled c @ c_deferred c, c_deferred := []\<rparr>"

definition run_message :: "json \<Rightarrow> rpc_client \<Rightarrow> rpc_client result" where
  "run_message msg c =
     rbind (msg_type msg) (\<lambda>ty.
       if ty = TYPE_REQUEST
       then rbind (msg_id msg) (\<lambda>ident. rbind (value_string ''method'' '''' msg) (\<lambda>method.
            rbind (value_any ''params'' JNull msg) (\<lambda>params.
              Return (c\<lparr>c_handled := c_handled c @ [msg], c_mode := Handling ident\<rparr>))))
       else if ty = TYPE_NOTIFY then Return (drain_deferred (c\<lparr>c_handled := c_handled c @ [msg]\<rparr>))
       else Return (drain_deferred c))"

definition run_reply :: "bool \<Rightarrow> int \<Rightarrow> json result \<Rightarrow> rpc_client \<Rightarrow> rpc_client" where
  "run_reply ok ident res c =
     drain_deferred ((case res of Inr v \<Rightarrow> respond ok ident v c | Inl e \<Rightarrow> respond_error ok ident e c)\<lparr>c_mode := Serving\<rparr>)"

subsection \<open>Both sides\<close>

record rpc_system =
  loader :: plugin_process
  plugin :: rpc_client
  to_plugin :: "json list"
  to_loader :: "json list"

definition rpc_start :: rpc_system where
  "rpc_start = \<lparr>loader = new_process, plugin = new_client, to_plugin = [], to_loader = []\<rparr>"

text \<open>What a side has written goes into its queue.\<close>

definition flush :: "rpc_system \<Rightarrow> rpc_system" where
  "flush s = s\<lparr>loader := (loader s)\<lparr>p_sent := []\<rparr>, plugin := (plugin s)\<lparr>c_sent := []\<rparr>,
     to_plugin := to_plugin s @ p_sent (loader s), to_loader := to_loader s @ c_sent (plugin s)\<rparr>"

text \<open>The loader against arbitrary messages.\<close>

inductive loader_step :: "(string \<Rightarrow> json \<Rightarrow> json result) option \<Rightarrow> plugin_process \<Rightarrow> plugin_process \<Rightarrow> bool"
  for handler where
  l_register: "call_register t s = Some s' \<Longrightarrow> loader_step handler s s'"
| l_send: "call_send t method params ok s = Some s' \<Longrightarrow> loader_step handler s s'"
| l_finish: "call_finish t s = Some s' \<Longrightarrow> loader_step handler s s'"
| l_timeout: "call_timeout t s = Some s' \<Longrightarrow> loader_step handler s s'"
| l_notify: "loader_step handler s (notify_child method params s)"
| l_read: "p_running s \<Longrightarrow> reader_message handler msg s = Return s' \<Longrightarrow> loader_step handler s s'"
| l_closed: "p_running s \<Longrightarrow> loader_step handler s (reader_end s)"
| l_destroy: "loader_step handler s (destroy s)"

text \<open>The loader and the plugin together.\<close>

inductive rpc_step :: "(string \<Rightarrow> json \<Rightarrow> json result) option \<Rightarrow> rpc_system \<Rightarrow> rpc_system \<Rightarrow> bool"
  for handler where
  register: "call_register t (loader s) = Some l \<Longrightarrow> rpc_step handler s (flush (s\<lparr>loader := l\<rparr>))"
| send: "call_send t method params ok (loader s) = Some l \<Longrightarrow> rpc_step handler s (flush (s\<lparr>loader := l\<rparr>))"
| finish: "call_finish t (loader s) = Some l \<Longrightarrow> rpc_step handler s (flush (s\<lparr>loader := l\<rparr>))"
| timeout: "call_timeout t (loader s) = Some l \<Longrightarrow> rpc_step handler s (flush (s\<lparr>loader := l\<rparr>))"
| notify: "rpc_step handler s (flush (s\<lparr>loader := notify_child method params (loader s)\<rparr>))"
| read: "to_loader s = msg # msgs \<Longrightarrow> p_running (loader s) \<Longrightarrow> reader_message handler msg (loader s) = Return l \<Longrightarrow>
    rpc_step handler s (flush (s\<lparr>loader := l, to_loader := msgs\<rparr>))"
| closed: "p_running (loader s) \<Longrightarrow> rpc_step handler s (flush (s\<lparr>loader := reader_end (loader s)\<rparr>))"
| plugin_call: "handling (c_mode (plugin s)) = r \<Longrightarrow> c_mode (plugin s) = resume_mode r \<Longrightarrow>
    rpc_step handler s (flush (s\<lparr>plugin := client_call ok method params (plugin s)\<rparr>))"
| plugin_notify: "rpc_step handler s (flush (s\<lparr>plugin := client_notify ok method params (plugin s)\<rparr>))"
| plugin_wait: "to_plugin s = msg # msgs \<Longrightarrow> c_mode (plugin s) = Waiting ident r \<Longrightarrow> c_connected (plugin s) \<Longrightarrow>
    call_round ident msg (plugin s) = (None, c) \<Longrightarrow> rpc_step handler s (flush (s\<lparr>plugin := c, to_plugin := msgs\<rparr>))"
| plugin_return: "to_plugin s = msg # msgs \<Longrightarrow> c_mode (plugin s) = Waiting ident r \<Longrightarrow> c_connected (plugin s) \<Longrightarrow>
    call_round ident msg (plugin s) = (Some res, c) \<Longrightarrow>
    rpc_step handler s (flush (s\<lparr>plugin := call_returns res c, to_plugin := msgs\<rparr>))"
| plugin_serve: "to_plugin s = msg # msgs \<Longrightarrow> c_mode (plugin s) = Serving \<Longrightarrow> c_connected (plugin s) \<Longrightarrow>
    run_message msg (plugin s) = Return c \<Longrightarrow> rpc_step handler s (flush (s\<lparr>plugin := c, to_plugin := msgs\<rparr>))"
| plugin_reply: "c_mode (plugin s) = Handling ident \<Longrightarrow>
    rpc_step handler s (flush (s\<lparr>plugin := run_reply ok ident res (plugin s)\<rparr>))"

subsection \<open>Calls of the loader\<close>

text \<open>The calls that have neither a promised result nor returned.\<close>

definition open_calls :: "plugin_process \<Rightarrow> (int \<times> nat) set" where
  "open_calls s = {(i, t). \<exists>ph. p_calls s t = Some (i, ph) \<and> p_promises s t = None \<and> p_returned s t = None}"

definition process_ok :: "plugin_process \<Rightarrow> bool" where
  "process_ok s \<longleftrightarrow> distinct (map fst (p_pending s)) \<and> set (p_pending s) = open_calls s \<and>
     (\<forall>t i ph. p_calls s t = Some (i, ph) \<longrightarrow> i < p_next_id s) \<and>
     (\<forall>t t' i ph ph'. p_calls s t = Some (i, ph) \<longrightarrow> p_calls s t' = Some (i, ph') \<longrightarrow> t = t') \<and>
     (\<forall>t. p_calls s t = None \<longrightarrow> p_promises s t = None \<and> p_returned s t = None)"

lemma process_okD:
  assumes "process_ok s"
  shows "distinct (map fst (p_pending s))" "set (p_pending s) = open_calls s"
    and "p_calls s t = Some (i, ph) \<Longrightarrow> i < p_next_id s"
    and "p_calls s t = Some (i, ph) \<Longrightarrow> p_calls s t' = Some (i, ph') \<Longrightarrow> t = t'"
    and "p_calls s t = None \<Longrightarrow> p_promises s t = None \<and> p_returned s t = None"
  using assms unfolding process_ok_def by blast+

lemma new_process_ok: "process_ok new_process"
  by (simp add: process_ok_def new_process_def open_calls_def)

lemma filter_fst_neq: "distinct (map fst xs) \<Longrightarrow> distinct (map fst (filter (\<lambda>(i, _). i \<noteq> k) xs))"
  by (auto simp: distinct_map intro: inj_on_subset)

text \<open>Only the fields of the calls matter.\<close>

lemma process_ok_cong:
  "process_ok s \<Longrightarrow> p_pending s' = p_pending s \<Longrightarrow> p_calls s' = p_calls s \<Longrightarrow> p_promises s' = p_promises s \<Longrightarrow>
    p_returned s' = p_returned s \<Longrightarrow> p_next_id s' = p_next_id s \<Longrightarrow> process_ok s'"
  by (simp add: process_ok_def open_calls_def)

lemma call_register_ok:
  assumes ok: "process_ok s" and s': "call_register t s = Some s'"
  shows "process_ok s'"
proof -
  have t: "p_calls s t = None" and eq: "s' = s\<lparr>p_next_id := p_next_id s + 1, p_pending := (p_next_id s, t) # p_pending s,
      p_calls := (p_calls s)(t \<mapsto> (p_next_id s, Registered))\<rparr>"
    using s' by (cases "p_calls s t"; simp add: call_register_def split: if_splits)+
  note none = process_okD(5) [OF ok t]
  have "p_next_id s \<notin> fst ` open_calls s"
    using process_okD(3) [OF ok] by (fastforce simp: open_calls_def)
  then have "distinct (map fst (p_pending s'))" using process_okD(1,2) [OF ok] eq by simp
  moreover have "open_calls s' = insert (p_next_id s, t) (open_calls s)"
    using none t unfolding eq open_calls_def by auto
  then have "set (p_pending s') = open_calls s'" using process_okD(2) [OF ok] eq by simp
  moreover have "i < p_next_id s'" if "p_calls s' t' = Some (i, ph)" for t' i ph
    using that process_okD(3) [OF ok, of t' i ph] eq by (auto split: if_splits)
  moreover have "t1 = t2" if "p_calls s' t1 = Some (i, ph)" "p_calls s' t2 = Some (i, ph')" for t1 t2 i ph ph'
    using that process_okD(4) [OF ok, of t1 i ph t2 ph'] process_okD(3) [OF ok] eq by (fastforce split: if_splits)
  moreover have "p_promises s' t' = None \<and> p_returned s' t' = None" if "p_calls s' t' = None" for t'
    using that process_okD(5) [OF ok, of t'] eq by (auto split: if_splits)
  ultimately show ?thesis unfolding process_ok_def by blast
qed

text \<open>A call that gets a result, by its promise or by returning, leaves the table.\<close>

lemma settled_ok:
  assumes ok: "process_ok s" and call: "p_calls s t = Some (i, ph)"
    and "p_calls s' = (p_calls s)(t \<mapsto> (i, ph'))" "p_next_id s' = p_next_id s"
    and "p_pending s' = filter (\<lambda>(j, _). j \<noteq> i) (p_pending s)"
    and "p_promises s' t \<noteq> None \<or> p_returned s' t \<noteq> None"
    and "\<And>t'. t' \<noteq> t \<Longrightarrow> p_promises s' t' = p_promises s t' \<and> p_returned s' t' = p_returned s t'"
  shows "process_ok s'"
proof -
  have "open_calls s' = {(j, t'). (j, t') \<in> open_calls s \<and> j \<noteq> i}"
  proof (intro set_eqI iffI)
    fix x assume "x \<in> open_calls s'"
    then obtain j t' ph1 where x: "x = (j, t')" "p_calls s' t' = Some (j, ph1)" "p_promises s' t' = None" "p_returned s' t' = None"
      by (auto simp: open_calls_def)
    then have "t' \<noteq> t" using assms(6) by auto
    then have "(j, t') \<in> open_calls s" "j \<noteq> i"
      using x assms(3,7) process_okD(4) [OF ok call, of t'] by (auto simp: open_calls_def)
    then show "x \<in> {(j, t'). (j, t') \<in> open_calls s \<and> j \<noteq> i}" using x by simp
  next
    fix x assume "x \<in> {(j, t'). (j, t') \<in> open_calls s \<and> j \<noteq> i}"
    then obtain j t' ph1 where x: "x = (j, t')" "j \<noteq> i" "p_calls s t' = Some (j, ph1)" "p_promises s t' = None" "p_returned s t' = None"
      by (auto simp: open_calls_def)
    then have "t' \<noteq> t" using call by auto
    then show "x \<in> open_calls s'" using x assms(3,7) by (auto simp: open_calls_def)
  qed
  then have "set (p_pending s') = open_calls s'" using process_okD(2) [OF ok] assms(5) by auto
  moreover have "distinct (map fst (p_pending s'))" using filter_fst_neq [OF process_okD(1) [OF ok]] assms(5) by simp
  moreover have "j < p_next_id s'" if "p_calls s' t' = Some (j, ph1)" for t' j ph1
    using that process_okD(3) [OF ok, of t' j] process_okD(3) [OF ok call] assms(3,4) by (auto split: if_splits)
  moreover have before: "\<exists>ph. p_calls s t' = Some (j, ph)" if "p_calls s' t' = Some (j, ph1)" for t' j ph1
    using that call assms(3) by (cases "t' = t") simp_all
  have "t1 = t2" if "p_calls s' t1 = Some (j, ph1)" "p_calls s' t2 = Some (j, ph2)" for t1 t2 j ph1 ph2
    using before [OF that(1)] before [OF that(2)] process_okD(4) [OF ok] by blast
  moreover have "p_promises s' t' = None \<and> p_returned s' t' = None" if "p_calls s' t' = None" for t'
    using that process_okD(5) [OF ok, of t'] assms(3) assms(7) [of t'] by (auto split: if_splits)
  ultimately show ?thesis unfolding process_ok_def by blast
qed

lemma call_send_ok:
  assumes ok: "process_ok s" and s': "call_send t method params sent s = Some s'"
  shows "process_ok s'"
proof -
  obtain i where call: "p_calls s t = Some (i, Registered)"
    using s' by (auto simp: call_send_def split: option.splits prod.splits phase.splits)
  show ?thesis
  proof (cases sent)
    case True
    then have eq: "s' = s\<lparr>p_calls := (p_calls s)(t \<mapsto> (i, Sent)), p_sent := p_sent s @ [request_msg i method params]\<rparr>"
      using s' call by (simp add: call_send_def)
    have before: "\<exists>ph. p_calls s t' = Some (j, ph)" if "p_calls s' t' = Some (j, ph1)" for t' j ph1
      using that call eq by (cases "t' = t") simp_all
    have after: "\<exists>ph. p_calls s' t' = Some (j, ph)" if "p_calls s t' = Some (j, ph1)" for t' j ph1
      using that call eq by (cases "t' = t") simp_all
    have "open_calls s' = open_calls s"
      using before after eq unfolding open_calls_def by (auto simp del: fun_upd_apply)
    moreover have "t1 = t2" if "p_calls s' t1 = Some (j, ph1)" "p_calls s' t2 = Some (j, ph2)" for t1 t2 j ph1 ph2
      using before [OF that(1)] before [OF that(2)] process_okD(4) [OF ok] by blast
    moreover have "j < p_next_id s'" if "p_calls s' t' = Some (j, ph1)" for t' j ph1
      using before [OF that] process_okD(3) [OF ok] eq by auto
    moreover have "p_promises s' t' = None \<and> p_returned s' t' = None" if "p_calls s' t' = None" for t'
      using that process_okD(5) [OF ok, of t'] eq by (auto split: if_splits)
    moreover have "p_pending s' = p_pending s" using eq by simp
    ultimately show ?thesis using process_okD(1,2) [OF ok] unfolding process_ok_def by simp
  next
    case False
    then have "s' = (pending_erase i s)\<lparr>p_calls := (p_calls s)(t \<mapsto> (i, Sent)),
        p_returned := (p_returned s)(t \<mapsto> Throw ''failed to send RPC to child'')\<rparr>"
      using s' call by (simp add: call_send_def)
    then show ?thesis
      by (intro settled_ok [OF ok call, of s' Sent]) (simp_all add: pending_erase_def)
  qed
qed

lemma call_finish_ok:
  assumes ok: "process_ok s" and s': "call_finish t s = Some s'"
  shows "process_ok s'"
proof -
  obtain i r where c: "p_calls s t = Some (i, Sent)" "p_promises s t = Some r" "s' = s\<lparr>p_returned := (p_returned s)(t \<mapsto> r)\<rparr>"
    using s' by (auto simp: call_finish_def split: option.splits prod.splits phase.splits)
  have "i \<notin> fst ` set (p_pending s)"
    using process_okD(4) [OF ok c(1)] c(2) unfolding process_okD(2) [OF ok] open_calls_def by fastforce
  then have "filter (\<lambda>(j, _). j \<noteq> i) (p_pending s) = p_pending s" by (force intro!: filter_True)
  then show ?thesis
    using c by (intro settled_ok [OF ok c(1), of s' Sent]) (simp_all add: fun_upd_idem)
qed

lemma call_timeout_ok:
  assumes ok: "process_ok s" and s': "call_timeout t s = Some s'"
  shows "process_ok s'"
proof -
  obtain i where c: "p_calls s t = Some (i, Sent)"
    "s' = (pending_erase i s)\<lparr>p_returned := (p_returned s)(t \<mapsto> Throw ''RPC timeout for child'')\<rparr>"
    using s' by (auto simp: call_timeout_def split: option.splits prod.splits phase.splits)
  then show ?thesis
    by (intro settled_ok [OF ok c(1), of s' Sent]) (simp_all add: pending_erase_def fun_upd_idem)
qed

lemma pending_open:
  assumes ok: "process_ok s" and "map_of (p_pending s) i = Some t"
  obtains ph where "p_calls s t = Some (i, ph)" "p_promises s t = None" "p_returned s t = None"
proof -
  have "(i, t) \<in> open_calls s" using map_of_SomeD [OF assms(2)] process_okD(2) [OF ok] by simp
  then show ?thesis using that by (auto simp: open_calls_def)
qed

lemma on_response_complete:
  assumes ok: "process_ok s" and "map_of (p_pending s) i = Some t"
  shows "\<exists>s'. set_promise t r (pending_erase i s) = Return s' \<and> process_ok s' \<and>
    s' = s\<lparr>p_pending := filter (\<lambda>(j, _). j \<noteq> i) (p_pending s), p_promises := (p_promises s)(t \<mapsto> r)\<rparr>"
proof -
  obtain ph where c: "p_calls s t = Some (i, ph)" "p_promises s t = None" "p_returned s t = None"
    by (rule pending_open [OF assms])
  let ?s' = "s\<lparr>p_pending := filter (\<lambda>(j, _). j \<noteq> i) (p_pending s), p_promises := (p_promises s)(t \<mapsto> r)\<rparr>"
  have "process_ok ?s'" by (rule settled_ok [OF ok c(1), of _ ph]) (use c in \<open>simp_all add: fun_upd_idem\<close>)
  then show ?thesis using c by (simp add: set_promise_def pending_erase_def)
qed

lemma on_response_ok:
  assumes ok: "process_ok s" and r: "on_response msg s = Return s'"
  shows "process_ok s'"
proof -
  obtain i where i: "msg_id msg = Inr i" using r by (auto simp: on_response_def rbind_Inr)
  show ?thesis
  proof (cases "map_of (p_pending s) i")
    case None
    then show ?thesis using ok r i by (simp add: on_response_def)
  next
    case (Some t)
    then obtain q where "set_promise t q (pending_erase i s) = Return s'"
      using r i by (auto simp: on_response_def rbind_Inr Let_def split: option.splits)
    then show ?thesis using on_response_complete [OF ok Some, of q] by auto
  qed
qed

lemma type_names_distinct [simp]:
  "TYPE_REQUEST \<noteq> TYPE_RESPONSE" "TYPE_NOTIFY \<noteq> TYPE_RESPONSE" "TYPE_NOTIFY \<noteq> TYPE_REQUEST"
  "TYPE_RESPONSE \<noteq> TYPE_REQUEST" "TYPE_RESPONSE \<noteq> TYPE_NOTIFY" "TYPE_REQUEST \<noteq> TYPE_NOTIFY"
  by (simp_all add: type_names)

lemma on_request_sent:
  assumes "on_request handler msg s = Return s'"
  obtains i r where "s' = s\<lparr>p_sent := p_sent s @ [response_msg i r]\<rparr>" | i e where "s' = s\<lparr>p_sent := p_sent s @ [error_msg i e]\<rparr>"
proof -
  obtain i meth params where m: "msg_id msg = Return i" "value_string ''method'' '''' msg = Return meth"
      "value_any ''params'' (JObj []) msg = Return params"
    using assms by (auto simp: on_request_def rbind_Inr)
  show thesis
  proof (cases handler)
    case None
    then show thesis using assms m that(2) by (auto simp: on_request_def)
  next
    case (Some h)
    then show thesis using assms m that by (cases "h meth params") (auto simp: on_request_def)
  qed
qed

lemma on_notification_fields:
  assumes "on_notification handler msg s = Return s'"
  obtains "s' = s" | xs where "s' = s\<lparr>p_notified := xs\<rparr>"
  using assms by (cases handler) (auto simp: on_notification_def rbind_Inr)

text \<open>A message is a response, or it adds at most a response to what is sent.\<close>

lemma reader_message_cases:
  assumes "reader_message handler msg s = Return s'"
  obtains "msg_type msg = Return TYPE_RESPONSE" "on_response msg s = Return s'"
    | i r where "s' = s\<lparr>p_sent := p_sent s @ [response_msg i r]\<rparr>"
    | i e where "s' = s\<lparr>p_sent := p_sent s @ [error_msg i e]\<rparr>"
    | xs where "s' = s\<lparr>p_notified := xs\<rparr>"
    | "s' = s"
proof -
  obtain ty where ty: "msg_type msg = Return ty" using assms by (auto simp: reader_message_def rbind_Inr)
  consider "ty = TYPE_RESPONSE" "on_response msg s = Return s'" | "on_request handler msg s = Return s'"
    | "on_notification handler msg s = Return s'" | "s' = s"
    using assms ty by (cases "ty = TYPE_RESPONSE"; cases "ty = TYPE_REQUEST"; cases "ty = TYPE_NOTIFY") (simp_all add: reader_message_def)
  then show thesis
  proof cases
    case 1 then show thesis using ty that(1) by simp
  next
    case 2 then show thesis using that(2,3) by (rule on_request_sent)
  next
    case 3 then show thesis using that(5,4) by (rule on_notification_fields)
  next
    case 4 then show thesis by (rule that(5))
  qed
qed

lemma reader_message_ok:
  assumes ok: "process_ok s" and r: "reader_message handler msg s = Return s'"
  shows "process_ok s'"
  using r by (rule reader_message_cases) (use on_response_ok [OF ok] process_ok_cong [OF ok, of s'] in simp_all)

lemma fold_promises:
  "fold (\<lambda>(i, t) s. case set_promise t r s of Inl _ \<Rightarrow> s | Inr s' \<Rightarrow> s') xs s =
    s\<lparr>p_promises := \<lambda>t. if p_promises s t = None \<and> t \<in> snd ` set xs then Some r else p_promises s t\<rparr>"
proof (induction xs arbitrary: s)
  case (Cons x xs)
  obtain i t where x: "x = (i, t)" by (cases x)
  let ?s = "case set_promise t r s of Inl _ \<Rightarrow> s | Inr s' \<Rightarrow> s'"
  have "?s = s\<lparr>p_promises := \<lambda>u. if p_promises s u = None \<and> u = t then Some r else p_promises s u\<rparr>"
  proof (cases "p_promises s t")
    case None then show ?thesis by (simp add: set_promise_def fun_upd_def) (metis None)
  next
    case (Some a)
    then have "(\<lambda>u. if p_promises s u = None \<and> u = t then Some r else p_promises s u) = p_promises s" by (auto simp: fun_eq_iff)
    with Some show ?thesis by (simp add: set_promise_def)
  qed
  then show ?case by (simp add: x Cons.IH) (rule arg_cong [of _ _ "\<lambda>f. p_promises_update f s"], auto simp: fun_eq_iff)
qed simp

lemma fail_pending_eq:
  "fail_pending err s = s\<lparr>p_pending := [],
     p_promises := \<lambda>t. if p_promises s t = None \<and> t \<in> snd ` set (p_pending s) then Some (Throw err) else p_promises s t\<rparr>"
  unfolding fail_pending_def fold_promises by simp

lemma fail_pending_ok:
  assumes ok: "process_ok s"
  shows "process_ok (fail_pending err s)"
proof -
  have "False" if "p_calls s t = Some (i, ph)" "p_promises s t = None" "p_returned s t = None" "t \<notin> snd ` set (p_pending s)" for t i ph
  proof -
    have "(i, t) \<in> set (p_pending s)" using that process_okD(2) [OF ok] by (auto simp: open_calls_def)
    then show False using that(4) by force
  qed
  then have "open_calls (fail_pending err s) = {}" by (auto simp: open_calls_def fail_pending_eq split: if_splits)
  moreover have "p_calls s t \<noteq> None" if "t \<in> snd ` set (p_pending s)" for t
    using that unfolding process_okD(2) [OF ok] by (auto simp: open_calls_def)
  ultimately show ?thesis
    using ok unfolding process_ok_def fail_pending_eq by (auto split: if_splits)
qed

lemma reader_end_ok: "process_ok s \<Longrightarrow> process_ok (reader_end s)"
  unfolding reader_end_def by (rule fail_pending_ok) (rule process_ok_cong, simp_all)

lemma loader_step_ok:
  assumes "loader_step handler s s'" and ok: "process_ok s"
  shows "process_ok s'"
  using assms(1)
proof cases
  case (l_register t) then show ?thesis by (rule call_register_ok [OF ok])
next
  case (l_send t meth params ok') then show ?thesis by (intro call_send_ok [OF ok])
next
  case (l_finish t) then show ?thesis by (intro call_finish_ok [OF ok])
next
  case (l_timeout t) then show ?thesis by (intro call_timeout_ok [OF ok])
next
  case (l_notify meth params) then show ?thesis by (intro process_ok_cong [OF ok]) (simp_all add: notify_child_def)
next
  case (l_read msg) then show ?thesis by (intro reader_message_ok [OF ok])
next
  case l_closed then show ?thesis using reader_end_ok [OF ok] by simp
next
  case l_destroy then show ?thesis using fail_pending_ok [OF reader_end_ok [OF ok]] by (simp add: destroy_def)
qed

lemma loader_reachable_ok: "(loader_step handler)\<^sup>*\<^sup>* new_process s \<Longrightarrow> process_ok s"
  by (induction rule: rtranclp_induct) (auto intro: new_process_ok loader_step_ok)

subsection \<open>Identifiers\<close>

definition ids_ok :: "plugin_process \<Rightarrow> bool" where
  "ids_ok s \<longleftrightarrow> 0 < p_next_id s \<and> p_next_id s \<le> 2 ^ 31 \<and> (\<forall>t x. p_calls s t = Some x \<longrightarrow> 0 < fst x \<and> fst x < 2 ^ 31)"

lemma ids_ok_cong: "ids_ok s \<Longrightarrow> p_next_id s' = p_next_id s \<Longrightarrow> p_calls s' = p_calls s \<Longrightarrow> ids_ok s'"
  by (simp add: ids_ok_def)

lemma call_register_ids: "ids_ok s \<Longrightarrow> call_register t s = Some s' \<Longrightarrow> ids_ok s'"
  by (fastforce simp: ids_ok_def call_register_def split: if_splits)

lemma call_send_ids: "ids_ok s \<Longrightarrow> call_send t method params ok s = Some s' \<Longrightarrow> ids_ok s'"
  by (fastforce simp: ids_ok_def call_send_def pending_erase_def split: option.splits if_splits phase.splits)

text \<open>The number of a request.\<close>

definition req_id :: "json \<Rightarrow> int option" where
  "req_id msg = (if msg_type msg = Return TYPE_REQUEST then (case msg_id msg of Inr i \<Rightarrow> Some i | Inl _ \<Rightarrow> None) else None)"

definition req_ids :: "json list \<Rightarrow> int list" where
  "req_ids msgs = List.map_filter req_id msgs"

lemma req_ids_simps [simp]:
  "req_ids [] = []" "req_ids (m # ms) = (case req_id m of None \<Rightarrow> req_ids ms | Some i \<Rightarrow> i # req_ids ms)"
  "req_ids (ms @ ms') = req_ids ms @ req_ids ms'"
  by (simp_all add: req_ids_def map_filter_def split: option.splits)

lemma json_find_obj: "json_find k (JObj kvs) = map_of kvs k"
  by (simp add: json_find_def)

lemma signed_id: "0 < i \<Longrightarrow> i < 2 ^ 31 \<Longrightarrow> signed_take_bit 31 i = (i :: int)"
  by (rule signed_take_bit_int_eq_self) auto

lemmas msg_read = msg_type_def msg_id_def value_string_def value_int_def json_find_obj msg_defs type_names

lemma msg_reads [simp]:
  "msg_type (request_msg i m p) = Return TYPE_REQUEST" "msg_type (response_msg i v) = Return TYPE_RESPONSE"
  "msg_type (error_msg i e) = Return TYPE_RESPONSE" "msg_type (notify_msg m p) = Return TYPE_NOTIFY"
  "msg_id (request_msg i m p) = Return (signed_take_bit 31 i)" "msg_id (response_msg i v) = Return (signed_take_bit 31 i)"
  "msg_id (error_msg i e) = Return (signed_take_bit 31 i)"
  by (simp_all add: msg_read)

lemma req_id_msgs [simp]:
  "req_id (request_msg i m p) = Some (signed_take_bit 31 i)" "req_id (response_msg i v) = None" "req_id (error_msg i e) = None"
  "req_id (notify_msg m p) = None"
  by (simp_all add: req_id_def)

subsection \<open>Requests between the two sides\<close>

text \<open>The numbers of the requests that are on their way to the plugin, that its handler got and that it dropped
  are different, and belong to calls of the loader; a response, and a promise that has its value from a response,
  has the number of a request that the handler got.\<close>

definition seen_ids :: "rpc_system \<Rightarrow> int list" where
  "seen_ids s = req_ids (to_plugin s) @ req_ids (c_handled (plugin s)) @ req_ids (c_dropped (plugin s))"

definition handled_ids :: "rpc_system \<Rightarrow> int set" where
  "handled_ids s = set (req_ids (c_handled (plugin s)))"

definition answered_ok :: "rpc_system \<Rightarrow> bool" where
  "answered_ok s \<longleftrightarrow>
     (\<forall>m\<in>set (to_loader s). \<forall>i. msg_type m = Return TYPE_RESPONSE \<longrightarrow> msg_id m = Return i \<longrightarrow> i \<in> handled_ids s) \<and>
     (\<forall>t i ph r. p_calls (loader s) t = Some (i, ph) \<longrightarrow> p_promises (loader s) t = Some r \<longrightarrow>
        r = Throw ''child disconnected'' \<or> i \<in> handled_ids s)"

definition rpc_ok :: "rpc_system \<Rightarrow> bool" where
  "rpc_ok s \<longleftrightarrow> process_ok (loader s) \<and> ids_ok (loader s) \<and> distinct (seen_ids s) \<and>
     (\<forall>i\<in>set (seen_ids s). \<exists>t. p_calls (loader s) t = Some (i, Sent)) \<and>
     (\<forall>i. handling (c_mode (plugin s)) = Some i \<longrightarrow> i \<in> handled_ids s) \<and>
     (\<forall>m\<in>set (c_deferred (plugin s)). req_id m = None) \<and>
     p_sent (loader s) = [] \<and> c_sent (plugin s) = [] \<and> answered_ok s"

lemma rpc_start_ok: "rpc_ok rpc_start"
  using new_process_ok
  by (simp add: rpc_ok_def rpc_start_def ids_ok_def new_process_def new_client_def seen_ids_def answered_ok_def)

text \<open>A step of the loader: it keeps the calls that were sent, and each request it sends is new.\<close>

lemma loader_side:
  assumes ok: "rpc_ok s" and l: "process_ok l" "ids_ok l"
    and calls: "\<And>t i. p_calls (loader s) t = Some (i, Sent) \<Longrightarrow> p_calls l t = Some (i, Sent)"
    and new: "distinct (req_ids (p_sent l))" "set (req_ids (p_sent l)) \<inter> set (seen_ids s) = {}"
      "\<And>i. i \<in> set (req_ids (p_sent l)) \<Longrightarrow> \<exists>t. p_calls l t = Some (i, Sent)"
    and prom: "\<And>t i ph r. p_calls l t = Some (i, ph) \<Longrightarrow> p_promises l t = Some r \<Longrightarrow>
      r = Throw ''child disconnected'' \<or> i \<in> handled_ids s"
    and msgs: "set msgs \<subseteq> set (to_loader s)"
  shows "rpc_ok (flush (s\<lparr>loader := l, to_loader := msgs\<rparr>))" (is "rpc_ok ?s")
proof -
  have "distinct (seen_ids ?s)"
    using ok new(1,2) by (auto simp: seen_ids_def flush_def rpc_ok_def)
  moreover have "\<exists>t. p_calls (loader ?s) t = Some (i, Sent)" if "i \<in> set (seen_ids ?s)" for i
  proof -
    have "i \<in> set (req_ids (p_sent l)) \<or> i \<in> set (seen_ids s)" using that by (auto simp: seen_ids_def flush_def)
    then show ?thesis using new(3) ok calls by (fastforce simp: rpc_ok_def flush_def)
  qed
  moreover have "answered_ok ?s"
    using ok prom msgs by (auto simp: rpc_ok_def answered_ok_def flush_def handled_ids_def)
  moreover have "process_ok (loader ?s)" using process_ok_cong [OF l(1), of "loader ?s"] by (simp add: flush_def)
  moreover have "ids_ok (loader ?s)" using ids_ok_cong [OF l(2), of "loader ?s"] by (simp add: flush_def)
  ultimately show ?thesis using ok by (simp add: rpc_ok_def handled_ids_def flush_def)
qed

text \<open>A step of the plugin: requests only move from the queue to the handled and the dropped ones.\<close>

lemma plugin_side:
  assumes ok: "rpc_ok s"
    and seen: "mset (req_ids msgs @ req_ids (c_handled c) @ req_ids (c_dropped c)) = mset (seen_ids s)"
    and handled: "handled_ids s \<subseteq> set (req_ids (c_handled c))"
    and mode: "\<And>i. handling (c_mode c) = Some i \<Longrightarrow> i \<in> set (req_ids (c_handled c))"
    and deferred: "\<And>m. m \<in> set (c_deferred c) \<Longrightarrow> req_id m = None"
    and sent: "\<And>m i. m \<in> set (c_sent c) \<Longrightarrow> msg_type m = Return TYPE_RESPONSE \<Longrightarrow> msg_id m = Return i \<Longrightarrow> i \<in> set (req_ids (c_handled c))"
  shows "rpc_ok (flush (s\<lparr>plugin := c, to_plugin := msgs\<rparr>))" (is "rpc_ok ?s")
proof -
  have "p_sent (loader s) = []" using ok by (simp add: rpc_ok_def)
  then have eq: "seen_ids ?s = req_ids msgs @ req_ids (c_handled c) @ req_ids (c_dropped c)"
    by (simp add: seen_ids_def flush_def)
  have "distinct (seen_ids ?s)" "set (seen_ids ?s) = set (seen_ids s)"
    using ok mset_eq_imp_distinct_iff [OF seen] mset_eq_setD [OF seen] unfolding eq by (simp_all add: rpc_ok_def)
  moreover have "answered_ok ?s"
    using ok sent handled by (fastforce simp: rpc_ok_def answered_ok_def flush_def handled_ids_def)
  moreover have "process_ok (loader ?s)" using ok process_ok_cong [of "loader s" "loader ?s"] by (simp add: flush_def rpc_ok_def)
  moreover have "ids_ok (loader ?s)" using ok ids_ok_cong [of "loader s" "loader ?s"] by (simp add: flush_def rpc_ok_def)
  ultimately show ?thesis using ok mode deferred by (simp add: rpc_ok_def handled_ids_def flush_def)
qed

lemma rpc_okD:
  assumes "rpc_ok s"
  shows "process_ok (loader s)" "ids_ok (loader s)" "distinct (seen_ids s)" "p_sent (loader s) = []" "c_sent (plugin s) = []"
    and "i \<in> set (seen_ids s) \<Longrightarrow> \<exists>t. p_calls (loader s) t = Some (i, Sent)"
    and "handling (c_mode (plugin s)) = Some i \<Longrightarrow> i \<in> handled_ids s"
    and "m \<in> set (c_deferred (plugin s)) \<Longrightarrow> req_id m = None"
    and "m \<in> set (to_loader s) \<Longrightarrow> msg_type m = Return TYPE_RESPONSE \<Longrightarrow> msg_id m = Return i \<Longrightarrow> i \<in> handled_ids s"
    and "p_calls (loader s) t = Some (i, ph) \<Longrightarrow> p_promises (loader s) t = Some r \<Longrightarrow>
      r = Throw ''child disconnected'' \<or> i \<in> handled_ids s"
  using assms unfolding rpc_ok_def answered_ok_def by blast+

lemma loader_quiet:
  assumes ok: "rpc_ok s" and l: "process_ok l" and "p_next_id l = p_next_id (loader s)" "p_calls l = p_calls (loader s)"
    and "req_ids (p_sent l) = []" "set msgs \<subseteq> set (to_loader s)"
    and "\<And>t i ph r. p_calls l t = Some (i, ph) \<Longrightarrow> p_promises l t = Some r \<Longrightarrow> p_promises (loader s) t = Some r \<or>
      r = Throw ''child disconnected'' \<or> i \<in> handled_ids s"
  shows "rpc_ok (flush (s\<lparr>loader := l, to_loader := msgs\<rparr>))"
proof (rule loader_side [OF ok l])
  show "ids_ok l" using rpc_okD(2) [OF ok] assms(3,4) by (rule ids_ok_cong)
next
  fix t i ph r assume a: "p_calls l t = Some (i, ph)" "p_promises l t = Some r"
  then have "p_promises (loader s) t = Some r \<or> r = Throw ''child disconnected'' \<or> i \<in> handled_ids s" by (rule assms(7))
  then show "r = Throw ''child disconnected'' \<or> i \<in> handled_ids s" using rpc_okD(10) [OF ok, of t i ph r] a assms(4) by auto
qed (use assms in simp_all)

lemma same_queue: "to_loader s = q \<Longrightarrow> s\<lparr>loader := l, to_loader := q\<rparr> = s\<lparr>loader := l\<rparr>"
  by auto

lemma same_input: "to_plugin s = q \<Longrightarrow> s\<lparr>plugin := c, to_plugin := q\<rparr> = s\<lparr>plugin := c\<rparr>"
  by auto

lemma register_rpc_ok:
  assumes ok: "rpc_ok s" and r: "call_register t (loader s) = Some l"
  shows "rpc_ok (flush (s\<lparr>loader := l\<rparr>))"
proof -
  have l: "p_calls (loader s) t = None" "p_calls l = (p_calls (loader s))(t \<mapsto> (p_next_id (loader s), Registered))"
      "p_promises l = p_promises (loader s)" "p_sent l = p_sent (loader s)"
    using r by (cases "p_calls (loader s) t"; auto simp: call_register_def split: if_splits)+
  then have "p_promises (loader s) t = None" using process_okD(5) [OF rpc_okD(1) [OF ok]] by simp
  then have "rpc_ok (flush (s\<lparr>loader := l, to_loader := to_loader s\<rparr>))"
    using call_register_ok [OF rpc_okD(1) [OF ok] r] call_register_ids [OF rpc_okD(2) [OF ok] r] l rpc_okD(4,10) [OF ok]
    by (intro loader_side [OF ok]) (auto split: if_splits)
  then show ?thesis by (simp add: same_queue)
qed

lemma send_rpc_ok:
  assumes ok: "rpc_ok s" and r: "call_send t method params sent (loader s) = Some l"
  shows "rpc_ok (flush (s\<lparr>loader := l\<rparr>))"
proof -
  obtain i where i: "p_calls (loader s) t = Some (i, Registered)"
    using r by (auto simp: call_send_def split: option.splits phase.splits)
  then have l: "p_calls l = (p_calls (loader s))(t \<mapsto> (i, Sent))" "p_promises l = p_promises (loader s)"
      "p_sent l = (if sent then [request_msg i method params] else [])"
    using r rpc_okD(4) [OF ok] by (auto simp: call_send_def pending_erase_def split: if_splits)
  have "0 < i" "i < 2 ^ 31" using rpc_okD(2) [OF ok] i by (auto simp: ids_ok_def)
  then have req: "req_ids (p_sent l) = (if sent then [i] else [])" by (simp add: l signed_id del: power_numeral)
  have "i \<notin> set (seen_ids s)"
  proof
    assume "i \<in> set (seen_ids s)"
    then obtain t' where "p_calls (loader s) t' = Some (i, Sent)" using rpc_okD(6) [OF ok] by blast
    then show False using process_okD(4) [OF rpc_okD(1) [OF ok] i, of t' Sent] i by simp
  qed
  then have "rpc_ok (flush (s\<lparr>loader := l, to_loader := to_loader s\<rparr>))"
    using call_send_ok [OF rpc_okD(1) [OF ok] r] call_send_ids [OF rpc_okD(2) [OF ok] r] l i req rpc_okD(10) [OF ok]
    by (intro loader_side [OF ok]) (auto split: if_splits)
  then show ?thesis by (simp add: same_queue)
qed

lemma on_response_cases:
  assumes ok: "process_ok s" and r: "on_response msg s = Return s'"
  obtains "s' = s" | i t q where "msg_id msg = Return i" "map_of (p_pending s) i = Some t"
    "s' = s\<lparr>p_pending := filter (\<lambda>(j, _). j \<noteq> i) (p_pending s), p_promises := (p_promises s)(t \<mapsto> q)\<rparr>"
proof -
  obtain i where i: "msg_id msg = Inr i" using r by (auto simp: on_response_def rbind_Inr)
  show thesis
  proof (cases "map_of (p_pending s) i")
    case None
    then show thesis using that(1) r i by (simp add: on_response_def)
  next
    case (Some t)
    then obtain q where "set_promise t q (pending_erase i s) = Return s'"
      using r i by (auto simp: on_response_def rbind_Inr Let_def split: option.splits)
    then show thesis using on_response_complete [OF ok Some, of q] that(2) [OF i Some] by auto
  qed
qed

lemma read_rpc_ok:
  assumes ok: "rpc_ok s" and q: "to_loader s = msg # msgs" and r: "reader_message handler msg (loader s) = Return l"
  shows "rpc_ok (flush (s\<lparr>loader := l, to_loader := msgs\<rparr>))"
  using r
proof (rule reader_message_cases)
  assume ty: "msg_type msg = Return TYPE_RESPONSE" and "on_response msg (loader s) = Return l"
  from rpc_okD(1) [OF ok] this(2) show ?thesis
  proof (rule on_response_cases)
    assume "l = loader s"
    then show ?thesis using rpc_okD(1,4) [OF ok] q by (intro loader_quiet [OF ok]) auto
  next
    fix i t v assume i: "msg_id msg = Return i" and t: "map_of (p_pending (loader s)) i = Some t"
      and l: "l = loader s\<lparr>p_pending := filter (\<lambda>(j, _). j \<noteq> i) (p_pending (loader s)), p_promises := (p_promises (loader s))(t \<mapsto> v)\<rparr>"
    obtain ph where c: "p_calls (loader s) t = Some (i, ph)" by (rule pending_open [OF rpc_okD(1) [OF ok] t])
    have "i \<in> handled_ids s" using rpc_okD(9) [OF ok, of msg i] q ty i by simp
    then show ?thesis
      using reader_message_ok [OF rpc_okD(1) [OF ok] r] l c q rpc_okD(4) [OF ok]
      by (intro loader_quiet [OF ok]) (auto split: if_splits)
  qed
qed (use reader_message_ok [OF rpc_okD(1) [OF ok] r] rpc_okD(4) [OF ok] q in \<open>intro loader_quiet [OF ok]; auto\<close>)+

lemma quiet_rpc_ok:
  assumes ok: "rpc_ok s" and l: "process_ok l" "p_next_id l = p_next_id (loader s)" "p_calls l = p_calls (loader s)"
    "req_ids (p_sent l) = []"
    and "\<And>t r. p_promises l t = Some r \<Longrightarrow> p_promises (loader s) t = Some r \<or> r = Throw ''child disconnected''"
  shows "rpc_ok (flush (s\<lparr>loader := l\<rparr>))"
proof -
  have "rpc_ok (flush (s\<lparr>loader := l, to_loader := to_loader s\<rparr>))"
    by (rule loader_quiet [OF ok l]) (use assms(6) in auto)
  then show ?thesis by (simp add: same_queue)
qed

lemma finish_rpc_ok:
  assumes ok: "rpc_ok s" and "call_finish t (loader s) = Some l"
  shows "rpc_ok (flush (s\<lparr>loader := l\<rparr>))"
  using assms(2) call_finish_ok [OF rpc_okD(1) [OF ok] assms(2)] rpc_okD(4) [OF ok]
  by (intro quiet_rpc_ok [OF ok]) (auto simp: call_finish_def split: option.splits phase.splits)

lemma timeout_rpc_ok:
  assumes ok: "rpc_ok s" and "call_timeout t (loader s) = Some l"
  shows "rpc_ok (flush (s\<lparr>loader := l\<rparr>))"
  using assms(2) call_timeout_ok [OF rpc_okD(1) [OF ok] assms(2)] rpc_okD(4) [OF ok]
  by (intro quiet_rpc_ok [OF ok]) (auto simp: call_timeout_def pending_erase_def split: option.splits phase.splits)

lemma notify_rpc_ok: "rpc_ok s \<Longrightarrow> rpc_ok (flush (s\<lparr>loader := notify_child method params (loader s)\<rparr>))"
  using process_ok_cong [of "loader s" "notify_child method params (loader s)"]
  by (intro quiet_rpc_ok) (auto simp: notify_child_def rpc_okD)

lemma closed_rpc_ok: "rpc_ok s \<Longrightarrow> rpc_ok (flush (s\<lparr>loader := reader_end (loader s)\<rparr>))"
  using reader_end_ok [of "loader s"]
  by (intro quiet_rpc_ok) (auto simp: reader_end_def fail_pending_eq rpc_okD split: if_splits)

lemma call_round_cases:
  assumes "call_round ident msg c = (res, c')"
  obtains "res \<noteq> None" "c' = c" "req_id msg = None"
    | "res = None" "msg_type msg = Return TYPE_NOTIFY" "c' = c\<lparr>c_deferred := c_deferred c @ [msg]\<rparr>"
    | "res = None" "c' = c\<lparr>c_dropped := c_dropped c @ [msg]\<rparr>"
  using assms
  by (auto simp: call_round_def req_id_def split: sum.splits bool.splits if_splits option.splits)

lemma plugin_unchanged_queue:
  assumes ok: "rpc_ok s"
    and "c_handled c = c_handled (plugin s)" "c_dropped c = c_dropped (plugin s)" "c_deferred c = c_deferred (plugin s)"
    and "handling (c_mode c) = handling (c_mode (plugin s))"
    and sent: "\<And>m i. m \<in> set (c_sent c) \<Longrightarrow> msg_type m = Return TYPE_RESPONSE \<Longrightarrow> msg_id m = Return i \<Longrightarrow> i \<in> handled_ids s"
    and q: "req_ids msgs = req_ids (to_plugin s)"
  shows "rpc_ok (flush (s\<lparr>plugin := c, to_plugin := msgs\<rparr>))"
  by (rule plugin_side [OF ok]) (use assms rpc_okD(7,8) [OF ok] in \<open>simp_all add: seen_ids_def handled_ids_def\<close>)

lemma handling_resume [simp]: "handling (resume_mode r) = r"
  by (simp add: resume_mode_def split: option.split)

lemma client_call_rpc_ok:
  assumes ok: "rpc_ok s"
  shows "rpc_ok (flush (s\<lparr>plugin := client_call sent method params (plugin s)\<rparr>))"
proof -
  have "rpc_ok (flush (s\<lparr>plugin := client_call sent method params (plugin s), to_plugin := to_plugin s\<rparr>))"
    using rpc_okD(5) [OF ok]
    by (intro plugin_unchanged_queue [OF ok])
      (auto simp: client_call_def send_message_def call_returns_def Let_def split: if_splits)
  then show ?thesis by (simp add: same_input)
qed

lemma client_notify_rpc_ok:
  assumes ok: "rpc_ok s"
  shows "rpc_ok (flush (s\<lparr>plugin := client_notify sent method params (plugin s)\<rparr>))"
proof -
  have "rpc_ok (flush (s\<lparr>plugin := client_notify sent method params (plugin s), to_plugin := to_plugin s\<rparr>))"
    using rpc_okD(5) [OF ok]
    by (intro plugin_unchanged_queue [OF ok]) (auto simp: client_notify_def send_message_def split: if_splits)
  then show ?thesis by (simp add: same_input)
qed

lemma wait_rpc_ok:
  assumes ok: "rpc_ok s" and q: "to_plugin s = msg # msgs" and r: "call_round ident msg (plugin s) = (None, c)"
  shows "rpc_ok (flush (s\<lparr>plugin := c, to_plugin := msgs\<rparr>))"
  using r
proof (rule call_round_cases)
  assume "msg_type msg = Return TYPE_NOTIFY" and c: "c = plugin s\<lparr>c_deferred := c_deferred (plugin s) @ [msg]\<rparr>"
  then have "req_id msg = None" by (simp add: req_id_def)
  then show ?thesis using rpc_okD(5,7,8) [OF ok] q
    by (intro plugin_side [OF ok]) (auto simp: c seen_ids_def handled_ids_def)
next
  assume c: "c = plugin s\<lparr>c_dropped := c_dropped (plugin s) @ [msg]\<rparr>"
  then show ?thesis using rpc_okD(5,7,8) [OF ok] q
    by (intro plugin_side [OF ok]) (auto simp: seen_ids_def handled_ids_def split: option.splits)
qed simp

lemma return_rpc_ok:
  assumes ok: "rpc_ok s" and q: "to_plugin s = msg # msgs" and r: "call_round ident msg (plugin s) = (Some res, c)"
  shows "rpc_ok (flush (s\<lparr>plugin := call_returns v c, to_plugin := msgs\<rparr>))"
  using r
proof (rule call_round_cases)
  assume "c = plugin s" "req_id msg = None"
  then show ?thesis using q rpc_okD(5) [OF ok]
    by (intro plugin_unchanged_queue [OF ok]) (auto simp: call_returns_def)
qed simp_all

lemma deferred_req_ids: "(\<And>m. m \<in> set ms \<Longrightarrow> req_id m = None) \<Longrightarrow> req_ids ms = []"
  by (induction ms) auto

lemma serve_rpc_ok:
  assumes ok: "rpc_ok s" and q: "to_plugin s = msg # msgs" and m: "c_mode (plugin s) = Serving"
    and r: "run_message msg (plugin s) = Return c"
  shows "rpc_ok (flush (s\<lparr>plugin := c, to_plugin := msgs\<rparr>))"
proof -
  have d: "req_ids (c_deferred (plugin s)) = []" by (rule deferred_req_ids) (rule rpc_okD(8) [OF ok])
  obtain ty where ty: "msg_type msg = Return ty" using r by (auto simp: run_message_def rbind_Inr)
  show ?thesis
  proof (cases "ty = TYPE_REQUEST")
    case True
    then obtain i where i: "msg_id msg = Return i" "c = plugin s\<lparr>c_handled := c_handled (plugin s) @ [msg], c_mode := Handling i\<rparr>"
      using r ty by (auto simp: run_message_def rbind_Inr)
    then have "req_id msg = Some i" using ty True by (simp add: req_id_def)
    then show ?thesis using i q rpc_okD(5,8) [OF ok]
      by (intro plugin_side [OF ok]) (auto simp: seen_ids_def handled_ids_def)
  next
    case False
    then have "req_id msg = None" using ty by (simp add: req_id_def)
    moreover have "c = drain_deferred (plugin s) \<or> c = drain_deferred (plugin s\<lparr>c_handled := c_handled (plugin s) @ [msg]\<rparr>)"
      using r ty False by (auto simp: run_message_def split: if_splits)
    ultimately show ?thesis using q m d rpc_okD(5) [OF ok]
      by (intro plugin_side [OF ok]) (auto simp: seen_ids_def handled_ids_def drain_deferred_def)
  qed
qed

lemma reply_rpc_ok:
  assumes ok: "rpc_ok s" and m: "c_mode (plugin s) = Handling ident"
  shows "rpc_ok (flush (s\<lparr>plugin := run_reply sent ident res (plugin s)\<rparr>))"
proof -
  have d: "req_ids (c_deferred (plugin s)) = []" by (rule deferred_req_ids) (rule rpc_okD(8) [OF ok])
  have h: "ident \<in> handled_ids s" using rpc_okD(7) [OF ok] m by simp
  then have "ident \<in> set (seen_ids s)" by (simp add: seen_ids_def handled_ids_def)
  then have "0 < ident" "ident < 2 ^ 31" using rpc_okD(6) [OF ok, of ident] rpc_okD(2) [OF ok] by (auto simp: ids_ok_def)
  then have id: "signed_take_bit 31 ident = ident" by (rule signed_id)
  have "rpc_ok (flush (s\<lparr>plugin := run_reply sent ident res (plugin s), to_plugin := to_plugin s\<rparr>))"
    using h d id rpc_okD(5) [OF ok]
    by (intro plugin_side [OF ok])
      (auto simp: run_reply_def drain_deferred_def respond_def respond_error_def send_message_def seen_ids_def handled_ids_def
        split: sum.splits if_splits)
  then show ?thesis by (simp add: same_input)
qed

lemma rpc_step_ok:
  assumes "rpc_step handler s s'" and ok: "rpc_ok s"
  shows "rpc_ok s'"
  using assms(1)
proof cases
  case register then show ?thesis using register_rpc_ok [OF ok] by simp
next
  case send then show ?thesis using send_rpc_ok [OF ok] by simp
next
  case finish then show ?thesis using finish_rpc_ok [OF ok] by simp
next
  case timeout then show ?thesis using timeout_rpc_ok [OF ok] by simp
next
  case notify then show ?thesis using notify_rpc_ok [OF ok] by simp
next
  case read then show ?thesis using read_rpc_ok [OF ok] by simp
next
  case closed then show ?thesis using closed_rpc_ok [OF ok] by simp
next
  case plugin_call then show ?thesis using client_call_rpc_ok [OF ok] by simp
next
  case plugin_notify then show ?thesis using client_notify_rpc_ok [OF ok] by simp
next
  case plugin_wait then show ?thesis using wait_rpc_ok [OF ok] by simp
next
  case plugin_return then show ?thesis using return_rpc_ok [OF ok] by simp
next
  case plugin_serve then show ?thesis using serve_rpc_ok [OF ok] by simp
next
  case plugin_reply then show ?thesis using reply_rpc_ok [OF ok] by simp
qed

lemma dropped_kept: "rpc_step handler s s' \<Longrightarrow> i \<in> set (req_ids (c_dropped (plugin s))) \<Longrightarrow> i \<in> set (req_ids (c_dropped (plugin s')))"
proof (induction rule: rpc_step.induct)
  case (plugin_wait s msg msgs ident r c)
  from plugin_wait.hyps(4) show ?case by (rule call_round_cases) (use plugin_wait.prems in \<open>simp_all add: flush_def\<close>)
next
  case (plugin_return s msg msgs ident r res c)
  from plugin_return.hyps(4) show ?case
    by (rule call_round_cases) (use plugin_return.prems in \<open>simp_all add: flush_def call_returns_def\<close>)
next
  case (plugin_serve s msg msgs c)
  then have "c_dropped c = c_dropped (plugin s)"
    by (auto simp: run_message_def rbind_Inr drain_deferred_def split: if_splits)
  then show ?case using plugin_serve.prems by (simp add: flush_def)
qed (auto simp: flush_def client_call_def client_notify_def send_message_def call_returns_def run_reply_def drain_deferred_def
    respond_def respond_error_def Let_def split: sum.splits if_splits)

lemma rpc_reachable_ok: "(rpc_step handler)\<^sup>*\<^sup>* rpc_start s \<Longrightarrow> rpc_ok s"
  by (induction rule: rtranclp_induct) (auto intro: rpc_start_ok rpc_step_ok)

subsection \<open>Exceptions in the reader\<close>

definition opt_string :: "string \<Rightarrow> json \<Rightarrow> bool" where
  "opt_string k msg \<longleftrightarrow> (case json_find k msg of None \<Rightarrow> True | Some v \<Rightarrow> as_string v \<noteq> None)"

definition opt_number :: "string \<Rightarrow> json \<Rightarrow> bool" where
  "opt_number k msg \<longleftrightarrow> (case json_find k msg of None \<Rightarrow> True | Some v \<Rightarrow> get_int v \<noteq> Throw ''type_error.302'')"

text \<open>The messages that the reader takes: objects whose members have the types that the code asks for.\<close>

definition readable :: "plugin_process \<Rightarrow> json \<Rightarrow> bool" where
  "readable s msg \<longleftrightarrow> is_object msg \<and> opt_string ''type'' msg \<and>
     (msg_type msg = Return TYPE_RESPONSE \<longrightarrow> opt_number ''id'' msg \<and>
        (\<forall>i. msg_id msg = Return i \<longrightarrow> i \<in> fst ` set (p_pending s) \<longrightarrow> opt_string ''error'' msg)) \<and>
     (msg_type msg = Return TYPE_REQUEST \<longrightarrow> opt_number ''id'' msg \<and> opt_string ''method'' msg) \<and>
     (msg_type msg = Return TYPE_NOTIFY \<longrightarrow> opt_string ''method'' msg)"

lemma value_string_returns: "(\<exists>v. value_string k d msg = Return v) \<longleftrightarrow> is_object msg \<and> opt_string k msg"
  by (auto simp: value_string_def opt_string_def split: option.splits)

lemma get_int_throws: "(\<exists>i. get_int v = Return i) \<longleftrightarrow> get_int v \<noteq> Throw ''type_error.302''"
  by (cases v) auto

lemma msg_id_returns: "(\<exists>i. msg_id msg = Return i) \<longleftrightarrow> is_object msg \<and> opt_number ''id'' msg"
  using get_int_throws by (auto simp: msg_id_def value_int_def opt_number_def split: option.splits)

lemma value_any_returns: "is_object msg \<Longrightarrow> \<exists>v. value_any k d msg = Return v"
  by (auto simp: value_any_def split: option.splits)

lemma on_request_returns:
  "is_object msg \<Longrightarrow> (\<exists>s'. on_request handler msg s = Return s') \<longleftrightarrow> opt_number ''id'' msg \<and> opt_string ''method'' msg"
  using value_any_returns [of msg "''params''" "JObj []"] msg_id_returns [of msg] value_string_returns [of "''method''" "''''" msg]
  by (auto simp: on_request_def rbind_Inr Let_def)

lemma on_notification_returns:
  "is_object msg \<Longrightarrow> (\<exists>s'. on_notification handler msg s = Return s') \<longleftrightarrow> opt_string ''method'' msg"
  using value_any_returns [of msg "''params''" JNull] value_string_returns [of "''method''" "''''" msg]
  by (cases handler) (auto simp: on_notification_def rbind_Inr)

lemma on_response_returns:
  assumes ok: "process_ok s" and obj: "is_object msg"
  shows "(\<exists>s'. on_response msg s = Return s') \<longleftrightarrow> opt_number ''id'' msg \<and>
    (\<forall>i. msg_id msg = Return i \<longrightarrow> i \<in> fst ` set (p_pending s) \<longrightarrow> opt_string ''error'' msg)"
proof (cases "msg_id msg")
  case (Inl e)
  then show ?thesis using msg_id_returns [of msg] obj by (auto simp: on_response_def rbind_Inr)
next
  case (Inr i)
  then have n: "opt_number ''id'' msg" using msg_id_returns [of msg] by auto
  show ?thesis
  proof (cases "map_of (p_pending s) i")
    case None
    then show ?thesis using Inr n None [unfolded map_of_eq_None_iff] by (simp add: on_response_def)
  next
    case (Some t)
    then have "i \<in> fst ` set (p_pending s)" by (metis map_of_eq_None_iff option.distinct(1))
    moreover obtain v where "value_any ''result'' JNull msg = Return v" using value_any_returns [OF obj] by blast
    moreover have "\<exists>s'. set_promise t q (pending_erase i s) = Return s'" for q using on_response_complete [OF ok Some] by blast
    ultimately show ?thesis using Inr n Some by (auto simp: on_response_def opt_string_def Let_def split: option.splits)
  qed
qed

lemma reader_message_returns:
  assumes ok: "process_ok s"
  shows "(\<exists>s'. reader_message handler msg s = Return s') \<longleftrightarrow> readable s msg"
proof (cases "msg_type msg")
  case (Inl e)
  then have "\<not> (is_object msg \<and> opt_string ''type'' msg)"
    using value_string_returns [of "''type''" "''''" msg] by (auto simp: msg_type_def)
  then show ?thesis using Inl by (auto simp: reader_message_def readable_def rbind_Inr)
next
  case (Inr ty)
  then have "is_object msg" "opt_string ''type'' msg"
    using value_string_returns [of "''type''" "''''" msg] by (auto simp: msg_type_def)
  then show ?thesis using Inr on_response_returns [OF ok] on_request_returns on_notification_returns
    by (auto simp: reader_message_def readable_def)
qed

lemma loader_reachable_ids: "(loader_step handler)\<^sup>*\<^sup>* new_process s \<Longrightarrow> ids_ok s"
proof (induction rule: rtranclp_induct)
  case base show ?case by (simp add: ids_ok_def new_process_def)
next
  case (step s s')
  from step(2) show ?case
  proof cases
    case (l_read msg)
    from l_read(2) show ?thesis
    proof (rule reader_message_cases)
      assume "on_response msg s = Return s'"
      with loader_reachable_ok [OF step(1)] show ?thesis
        by (rule on_response_cases) (use ids_ok_cong [OF step.IH, of s'] in simp_all)
    qed (use ids_ok_cong [OF step.IH, of s'] in simp_all)
  next
    case (l_register t) then show ?thesis using call_register_ids step.IH by blast
  next
    case l_send then show ?thesis using call_send_ids step.IH by blast
  qed (rule ids_ok_cong [OF step.IH], auto simp: call_finish_def call_timeout_def pending_erase_def notify_child_def
      reader_end_def destroy_def fail_pending_eq split: option.splits phase.splits)+
qed

subsection \<open>Waiting for a response\<close>

text \<open>What the plugin can receive while it waits without ending the call.\<close>

definition keeps_waiting :: "int \<Rightarrow> json \<Rightarrow> bool" where
  "keeps_waiting ident msg \<longleftrightarrow>
     (case msg_type msg of
        Inl _ \<Rightarrow> False
      | Inr ty \<Rightarrow> ty = TYPE_RESPONSE \<longrightarrow> (case msg_id msg of Inl _ \<Rightarrow> False | Inr i \<Rightarrow> i \<noteq> ident))"

lemma call_round_waits:
  "keeps_waiting ident msg \<Longrightarrow> call_round ident msg c =
     (None, if msg_type msg = Return TYPE_NOTIFY then c\<lparr>c_deferred := c_deferred c @ [msg]\<rparr> else c\<lparr>c_dropped := c_dropped c @ [msg]\<rparr>)"
  by (auto simp: keeps_waiting_def call_round_def split: sum.splits)

lemma call_round_response:
  "signed_take_bit 31 ident = ident \<Longrightarrow> call_round ident (response_msg ident v) c = (Some (Return v), c)"
  by (simp add: call_round_def) (simp add: json_find_obj value_any_def response_msg_def)

lemma await_response_waits:
  "c_connected c \<Longrightarrow> list_all (keeps_waiting ident) pre \<Longrightarrow> signed_take_bit 31 ident = ident \<Longrightarrow>
    await_response ident (pre @ response_msg ident v # post) c =
      (Return v, post, c\<lparr>c_deferred := c_deferred c @ filter (\<lambda>m. msg_type m = Return TYPE_NOTIFY) pre,
         c_dropped := c_dropped c @ filter (\<lambda>m. msg_type m \<noteq> Return TYPE_NOTIFY) pre\<rparr>)"
proof (induction pre arbitrary: c)
  case Nil
  then show ?case by (subst await_response.simps) (simp add: call_round_response)
next
  case (Cons m pre)
  then show ?case by (subst await_response.simps) (simp add: call_round_waits)
qed

subsection \<open>Properties\<close>

text \<open>C4: Calls of the loader to a plugin are accounted for, whatever the plugin sends and however the threads
  interleave.  The numbers of the pending table are distinct; a call is in the table exactly as long as it has
  neither a result nor returned; a call whose request was sent and that has not returned can return, with its
  result or by its timeout; no promise is ever set twice; and the response to a pending call gives exactly this
  call its value.\<close>

theorem plugin_calls_accounted:
  assumes "(loader_step handler)\<^sup>*\<^sup>* new_process s"
  shows "distinct (map fst (p_pending s)) \<and>
    (\<forall>t i ph. p_calls s t = Some (i, ph) \<longrightarrow> ((i, t) \<in> set (p_pending s) \<longleftrightarrow> p_promises s t = None \<and> p_returned s t = None)) \<and>
    (\<forall>t i. p_calls s t = Some (i, Sent) \<longrightarrow> p_returned s t = None \<longrightarrow> call_finish t s \<noteq> None \<or> call_timeout t s \<noteq> None) \<and>
    (\<forall>t i r. (i, t) \<in> set (p_pending s) \<longrightarrow> (\<exists>s'. set_promise t r s = Return s')) \<and>
    (\<forall>t i v. (i, t) \<in> set (p_pending s) \<longrightarrow>
       (\<exists>s'. reader_message handler (response_msg i v) s = Return s' \<and> p_promises s' = (p_promises s)(t \<mapsto> Return v)))"
proof (intro conjI allI impI)
  note ok = loader_reachable_ok [OF assms]
  show "distinct (map fst (p_pending s))" by (rule process_okD(1) [OF ok])
  show "(i, t) \<in> set (p_pending s) \<longleftrightarrow> p_promises s t = None \<and> p_returned s t = None" if "p_calls s t = Some (i, ph)" for t i ph
    using that process_okD(2) [OF ok] by (auto simp: open_calls_def)
  show "call_finish t s \<noteq> None \<or> call_timeout t s \<noteq> None" if "p_calls s t = Some (i, Sent)" "p_returned s t = None" for t i
    using that by (cases "p_promises s t") (simp_all add: call_finish_def call_timeout_def)
  fix t i assume p: "(i, t) \<in> set (p_pending s)"
  then have m: "map_of (p_pending s) i = Some t" using process_okD(1) [OF ok] by simp
  obtain ph where c: "p_calls s t = Some (i, ph)" "p_promises s t = None" by (rule pending_open [OF ok m])
  show "\<exists>s'. set_promise t r s = Return s'" for r using c by (simp add: set_promise_def)
  have "signed_take_bit 31 i = i" using loader_reachable_ids [OF assms] c by (intro signed_id) (auto simp: ids_ok_def)
  then show "\<exists>s'. reader_message handler (response_msg i v) s = Return s' \<and> p_promises s' = (p_promises s)(t \<mapsto> Return v)" for v
    using on_response_complete [OF ok m, of "Return v"] m
    by (auto simp: reader_message_def on_response_def) (auto simp: response_msg_def json_find_obj value_any_def)
qed

text \<open>C7: A request that arrives while the plugin waits for the response to a call of its own is lost: from then
  on, in every execution, the loader's call can only run into its timeout or fail with the connection.\<close>

theorem dropped_request_never_answered:
  assumes "(rpc_step handler)\<^sup>*\<^sup>* rpc_start s" "i \<in> set (req_ids (c_dropped (plugin s)))"
    and "(rpc_step handler)\<^sup>*\<^sup>* s s'" "p_calls (loader s') t = Some (i, ph)"
  shows "p_promises (loader s') t = None \<or> p_promises (loader s') t = Some (Throw ''child disconnected'')"
proof -
  have "i \<in> set (req_ids (c_dropped (plugin s')))" using assms(3,2)
    by (induction rule: rtranclp_induct) (auto dest: dropped_kept)
  moreover have ok: "rpc_ok s'" using rpc_reachable_ok assms(1,3) by (meson rtranclp_trans)
  ultimately have "i \<notin> handled_ids s'" using rpc_okD(3) [OF ok] by (auto simp: seen_ids_def handled_ids_def)
  then show ?thesis using rpc_okD(10) [OF ok assms(4)] by (cases "p_promises (loader s') t") auto
qed

text \<open>C40: The reader of the loader takes exactly the messages whose members have the types it asks for; every
  other message of a plugin raises an exception that leaves the reader thread.\<close>

theorem reader_survives_iff:
  assumes "(loader_step handler)\<^sup>*\<^sup>* new_process s"
  shows "(\<exists>s'. reader_message handler msg s = Return s') \<longleftrightarrow> readable s msg"
  by (rule reader_message_returns [OF loader_reachable_ok [OF assms]])

text \<open>A call of the plugin returns the result of its response, whatever arrives before it; the notifications
  that arrived before it are deferred in their order, everything else that arrived is dropped, and what follows
  the response stays in the socket.\<close>

theorem await_response_result:
  assumes "c_connected c" "list_all (keeps_waiting ident) pre" "0 < ident" "ident < 2 ^ 31"
  shows "await_response ident (pre @ response_msg ident v # post) c =
      (Return v, post, c\<lparr>c_deferred := c_deferred c @ filter (\<lambda>m. msg_type m = Return TYPE_NOTIFY) pre,
         c_dropped := c_dropped c @ filter (\<lambda>m. msg_type m \<noteq> Return TYPE_NOTIFY) pre\<rparr>)"
  by (rule await_response_waits [OF assms(1,2) signed_id [OF assms(3,4)]])

subsection \<open>Witnesses\<close>

text \<open>A call that has sent its request.\<close>

definition called :: plugin_process where
  "called = new_process\<lparr>p_next_id := 2, p_pending := [(1, 0)], p_calls := [0 \<mapsto> (1, Sent)], p_sent := [request_msg 1 ''m'' JNull]\<rparr>"

lemma called_reachable: "(loader_step None)\<^sup>*\<^sup>* new_process called"
proof -
  let ?s = "new_process\<lparr>p_next_id := 2, p_pending := [(1, 0)], p_calls := [0 \<mapsto> (1, Registered)]\<rparr>"
  have 1: "loader_step None new_process ?s" by (rule l_register [of 0]) (simp add: call_register_def new_process_def)
  have 2: "loader_step None ?s called"
    by (rule l_send [of 0 "''m''" JNull True]) (simp add: call_send_def called_def new_process_def)
  show ?thesis by (rule converse_rtranclp_into_rtranclp, rule 1, rule r_into_rtranclp, rule 2)
qed

lemma plugin_calls_accounted_witness:
  "(1, 0) \<in> set (p_pending called) \<and> call_timeout 0 called \<noteq> None \<and>
    (\<exists>s'. reader_message None (response_msg 1 JNull) called = Return s' \<and> p_promises s' 0 = Some (Return JNull))"
proof -
  have p: "(1, 0) \<in> set (p_pending called)" "p_calls called 0 = Some (1, Sent)" "p_returned called 0 = None"
    by (simp_all add: called_def new_process_def)
  have "p_promises called 0 = None" by (simp add: called_def new_process_def)
  then have f: "call_finish 0 called = None" by (simp add: call_finish_def p)
  note all = plugin_calls_accounted [OF called_reachable]
  note progress = all [THEN conjunct2, THEN conjunct2, THEN conjunct1, rule_format, OF p(2,3)]
  note answer = all [THEN conjunct2, THEN conjunct2, THEN conjunct2, THEN conjunct2, rule_format, OF p(1), of JNull]
  have "call_timeout 0 called \<noteq> None" using progress unfolding f by (rule disjE) (erule notE, rule refl)
  moreover from answer obtain s' where "reader_message None (response_msg 1 JNull) called = Return s'"
      "p_promises s' = (p_promises called)(0 \<mapsto> Return JNull)"
    by (elim exE conjE)
  ultimately show ?thesis using p(1) by (intro conjI exI [of _ s']) simp_all
qed

text \<open>The calls of both sides cross: the plugin reads the loader's request while it waits.\<close>

definition crossed :: rpc_system where
  "crossed = \<lparr>loader = called\<lparr>p_sent := []\<rparr>,
     plugin = new_client\<lparr>c_next_id := 2, c_mode := Waiting 1 None, c_dropped := [request_msg 1 ''m'' JNull]\<rparr>,
     to_plugin = [], to_loader = [request_msg 1 ''n'' JNull]\<rparr>"

lemma crossed_reachable: "(rpc_step None)\<^sup>*\<^sup>* rpc_start crossed"
proof -
  let ?s1 = "rpc_start\<lparr>loader := new_process\<lparr>p_next_id := 2, p_pending := [(1, 0)], p_calls := [0 \<mapsto> (1, Registered)]\<rparr>\<rparr>"
  let ?s2 = "rpc_start\<lparr>loader := called\<lparr>p_sent := []\<rparr>, to_plugin := [request_msg 1 ''m'' JNull]\<rparr>"
  let ?s3 = "?s2\<lparr>plugin := new_client\<lparr>c_next_id := 2, c_mode := Waiting 1 None\<rparr>, to_loader := [request_msg 1 ''n'' JNull]\<rparr>"
  note defs = rpc_start_def new_process_def new_client_def called_def flush_def crossed_def
  have "rpc_step None rpc_start (flush (rpc_start\<lparr>loader := loader ?s1\<rparr>))"
    by (rule register [of 0]) (simp add: call_register_def defs)
  then have 1: "rpc_step None rpc_start ?s1" by (simp add: defs)
  have "rpc_step None ?s1 (flush (?s1\<lparr>loader := called\<rparr>))"
    by (rule send [of 0 "''m''" JNull True]) (simp add: call_send_def defs)
  then have 2: "rpc_step None ?s1 ?s2" by (simp add: defs)
  have "rpc_step None ?s2 (flush (?s2\<lparr>plugin := client_call True ''n'' JNull (plugin ?s2)\<rparr>))"
    by (rule plugin_call [of _ None]) (simp_all add: defs resume_mode_def)
  then have 3: "rpc_step None ?s2 ?s3" by (simp add: defs client_call_def send_message_def)
  have "rpc_step None ?s3 (flush (?s3\<lparr>plugin := plugin crossed, to_plugin := []\<rparr>))"
    by (rule plugin_wait [of _ "request_msg 1 ''m'' JNull" _ 1 None]) (simp_all add: defs call_round_def)
  then have 4: "rpc_step None ?s3 crossed" by (simp add: defs)
  show ?thesis
    by (rule converse_rtranclp_into_rtranclp, rule 1, rule converse_rtranclp_into_rtranclp, rule 2,
        rule converse_rtranclp_into_rtranclp, rule 3, rule r_into_rtranclp, rule 4)
qed

lemma dropped_request_never_answered_witness:
  "1 \<in> set (req_ids (c_dropped (plugin crossed))) \<and> p_calls (loader crossed) 0 = Some (1, Sent) \<and>
    (p_promises (loader crossed) 0 = None \<or> p_promises (loader crossed) 0 = Some (Throw ''child disconnected''))"
proof -
  have d: "1 \<in> set (req_ids (c_dropped (plugin crossed)))" and c: "p_calls (loader crossed) 0 = Some (1, Sent)"
    by (simp_all add: crossed_def called_def signed_id)
  show ?thesis using d c dropped_request_never_answered [OF crossed_reachable d rtranclp.rtrancl_refl c] by simp
qed

lemma reader_survives_iff_witness:
  "\<not> (\<exists>s'. reader_message None (JObj [(''type'', JInt 1)]) called = Return s')"
  unfolding reader_survives_iff [OF called_reachable] by (simp add: readable_def opt_string_def json_find_obj)

lemma await_response_result_witness:
  "await_response 1 [request_msg 1 ''m'' JNull, notify_msg ''n'' JNull, response_msg 1 (JInt 5)] new_client =
     (Return (JInt 5), [], new_client\<lparr>c_deferred := [notify_msg ''n'' JNull], c_dropped := [request_msg 1 ''m'' JNull]\<rparr>)"
  using await_response_result [of new_client 1 "[request_msg 1 ''m'' JNull, notify_msg ''n'' JNull]" "JInt 5" "[]"]
  by (simp add: new_client_def keeps_waiting_def)

end
