(* ===== verification/Spec2Isabelle.thy ===== *)
theory Spec2Isabelle
  imports Semver Base64 Cmdline UrlCodec Crypto MepCapture MepBuses MepServer CdpClient Config PluginConfig BackendConfig ConfigLocks SharedMemory PatchStore PatchRegistry ResourceMatcher ResourceTransformer HttpHooks PluginRpc
begin

text \<open>
  Verification library of the Cloude Steam loader.

  The loader runs inside the Steam client.  It starts plugins, each with a backend process of its own,
  talks to the browser of the client over the DevTools protocol, rewrites the files that the browser
  loads, and offers a developer protocol on a local socket.  The parts that hold state or make
  decisions are modelled here, one theory per part; the operating system and the third-party
  libraries enter as parameters.

  \<^bold>\<open>Common ground.\<close>
  \<^item> \<open>Prelude\<close>: results with exceptions, platforms, character classes, strings, shared list lemmas.
  \<^item> \<open>Json\<close>: the values of the JSON library and the access functions the program uses.

  \<^bold>\<open>Text formats.\<close>
  \<^item> \<open>Semver\<close> (\<^verbatim>\<open>util/semver.cc\<close>): parsing and comparison; the order is the precedence of the standard,
    printing and parsing round-trip, and which inputs are refused.
  \<^item> \<open>Base64\<close> (\<^verbatim>\<open>include/cloude/encoding.h\<close>, \<^verbatim>\<open>system/crypto.cc\<close>, \<^verbatim>\<open>lua_host/api/utils.cc\<close>): all the
    encoders agree and the decoders invert them, with 32-bit accumulators that are never cleared.
  \<^item> \<open>Cmdline\<close> (\<^verbatim>\<open>util/cmdline_parser.cc\<close>): quoting round trip and the effect of adding and removing a
    parameter.
  \<^item> \<open>UrlCodec\<close> (\<^verbatim>\<open>include/cloude/url_parser.h\<close>): on which strings decoding inverts encoding.
  \<^item> \<open>Crypto\<close> (\<^verbatim>\<open>system/crypto.cc\<close>): decryption inverts encryption and refuses damaged blobs, over the
    promises of the data protection calls and of AES-GCM.

  \<^bold>\<open>Developer protocol\<close> (\<^verbatim>\<open>src/mep\<close>).
  \<^item> \<open>Listeners\<close>, \<open>Ring\<close>: the listener table and the bounded history as locales with their laws.
  \<^item> \<open>MepCapture\<close>, \<open>MepBuses\<close>: the recorders and the event buses, which interpret these locales.
  \<^item> \<open>Framing\<close>: length-prefixed frames for every way in which the sockets split the bytes.
  \<^item> \<open>MepServer\<close>: routing, the connection loop, and that every subscription is cancelled exactly once.

  \<^bold>\<open>DevTools client.\<close>
  \<^item> \<open>CdpClient\<close> (\<^verbatim>\<open>engine/cdp_api.cc\<close>): the critical sections as steps; every request is either waiting
    or answered once, and a request that is sent during the shutdown can be lost.

  \<^bold>\<open>Configuration.\<close>
  \<^item> \<open>Config\<close> (\<^verbatim>\<open>system/config.cc\<close>): set and get, defaults, and saving as a sequence of file operations
    of which any prefix may be what a crash leaves behind.
  \<^item> \<open>ConfigLocks\<close>: the two locks as a step relation; saves alone never block each other for good, a set
    and a save can.
  \<^item> \<open>PluginConfig\<close>, \<open>BackendConfig\<close> (\<^verbatim>\<open>bindings/plugin_config.cc\<close>, \<^verbatim>\<open>bindings/entry_point.cc\<close>):
    limits and isolation of plugin settings, and the proxy password, which never leaves in the clear.

  \<^bold>\<open>Patches.\<close>
  \<^item> \<open>SharedMemory\<close> (\<^verbatim>\<open>state/shared_memory.cc\<close>): the arena as bytes, with 32-bit arithmetic.
  \<^item> \<open>PatchStore\<close>: the bytes stand for a list of plugins with patches (\<open>rep\<close>), and every operation of the
    arena implements the operation on that list.
  \<^item> \<open>PatchRegistry\<close> (\<^verbatim>\<open>engine/plugin_loader.cc\<close>, \<^verbatim>\<open>engine/backend_mgr.cc\<close>, \<^verbatim>\<open>mep/mep_hooks.cc\<close>): the
    requests that write and read the arena, and what happens when it is full.
  \<^item> \<open>ResourceMatcher\<close>, \<open>ResourceTransformer\<close> (\<^verbatim>\<open>instrumentation/loopback\<close>): the browser side, which
    finds the patches of a file and applies them; together with the registry, a delivered file has
    exactly the matching patches of the running plugins.

  \<^bold>\<open>Pages of the browser.\<close>
  \<^item> \<open>HttpHooks\<close> (\<^verbatim>\<open>engine/http_hooks.cc\<close>, \<^verbatim>\<open>engine/plugin_webkit_store.cc\<close>): virtual files and injected
    documents; when a paused request is answered, that documents change by an insertion only, and that
    the address of the themes reaches every file.

  \<^bold>\<open>Plugin processes.\<close>
  \<^item> \<open>PluginRpc\<close> (\<^verbatim>\<open>engine/child_process.cc\<close>, \<^verbatim>\<open>lua_host/rpc.cc\<close>): both ends of the calls between the loader
    and a plugin and the two queues between them, as step relations; the calls of the loader are accounted
    for, a request that meets a waiting plugin is never answered, and which messages the reader survives.

  \<^bold>\<open>Bounds and fuel.\<close>  All recursions are structural or over a list that the code walks.  A C string in the arena
  is read with the arena size as fuel, which \<open>arena_str_at\<close> shows to be enough.  Counters that the
  program could not exhaust (ids of requests and listeners) are unbounded, except that a call to a plugin
  is not made any more when its number would leave the range of \<^verbatim>\<open>int\<close>; sizes and offsets that the program
  checks keep their width.

  \<^bold>\<open>Not modelled.\<close>  Three groups are left out.  Calls of the operating system or of a foreign library: the
  hooks into the client and its browser, the bootstrap libraries, the platform layer, windows and colours,
  crash reporting, the log and archives.  Code that mostly reads and writes files: the discovery and the
  settings of themes and plugins, the updater and the installers.  Code with state and decisions of its own
  that has no theory yet: the dispatch of calls between pages and backends (\<^verbatim>\<open>engine/core_ipc.cc\<close>,
  \<^verbatim>\<open>engine/ffi_binder.cc\<close>), the start of plugins (\<^verbatim>\<open>engine/plugin_loader.cc\<close> besides the patches,
  \<^verbatim>\<open>engine/lifecycle.cc\<close>, \<^verbatim>\<open>engine/thread_pool.cc\<close>), the isolated worlds of plugins, the remaining requests
  of \<^verbatim>\<open>mep/mep_hooks.cc\<close>, the JSON library of the plugins (\<^verbatim>\<open>lua_host/api/json.c\<close>), the parser of style
  sheets and the parser of resource queries.  Nothing is claimed about these.
\<close>

end
